(* ===== verification/Prelude.thy ===== *)
theory Prelude
  imports Main "HOL-Library.Word" "HOL-Library.Char_ord"
begin

text \<open>
  Shared vocabulary of the LogSpine development: the machine integers of the C++ code, byte
  strings, the results of calls that may throw, the decimal printing behind
  \<^verbatim>\<open>std::to_string\<close> and \<^verbatim>\<open>std::format\<close>, and generic lemmas on lists, strings and words.
  The collection \<open>cpp_string\<close> gathers the facts that evaluate printed text.
\<close>

section \<open>Types\<close>

type_synonym u8 = "8 word"
type_synonym u16 = "16 word"
type_synonym u32 = "32 word"
type_synonym u64 = "64 word"
type_synonym i64 = "64 word"

text \<open>A \<^verbatim>\<open>std::string\<close> is a list of bytes; HOL's \<open>char\<close> is exactly a byte.\<close>

type_synonym bytes = "char list"

text \<open>The exceptions the sources throw, with the message where the code observes it.\<close>

datatype cpp_exception =
    Invalid_Argument string
  | Runtime_Error string

named_theorems cpp_string \<open>evaluation of printed text\<close>

section \<open>Characters\<close>

abbreviation dquote :: char where "dquote \<equiv> CHR 0x22"
abbreviation backslash :: char where "backslash \<equiv> CHR 0x5C"
abbreviation newline :: char where "newline \<equiv> CHR 0x0A"
abbreviation carriage_return :: char where "carriage_return \<equiv> CHR 0x0D"

definition char_code :: "char \<Rightarrow> nat" where
  "char_code c = of_char c"

lemma char_code_less: "char_code c < 256"
  using nat_of_char_less_256 [of c] by (simp add: char_code_def)

lemma char_of_char_code [simp]: "char_of (char_code c) = c"
  by (simp add: char_code_def)

lemma char_code_char_of: "n < 256 \<Longrightarrow> char_code (char_of n) = n"
  by (simp add: char_code_def)

lemma char_code_inject: "char_code c = char_code d \<longleftrightarrow> c = d"
  by (metis char_of_char_code)

section \<open>Decimal printing\<close>

definition digit_char :: "nat \<Rightarrow> char" where
  "digit_char d = (if d < 10 then ''0123456789'' ! d else CHR 0x00)"

definition is_digit :: "char \<Rightarrow> bool" where
  "is_digit c \<longleftrightarrow> 48 \<le> char_code c \<and> char_code c \<le> 57"

definition digit_value :: "char \<Rightarrow> nat" where
  "digit_value c = char_code c - 48"

text \<open>\<^verbatim>\<open>std::to_string\<close> of an unsigned value: no leading zeros.\<close>

fun dec_nat :: "nat \<Rightarrow> string" where
  "dec_nat n = (if n < 10 then [digit_char n] else dec_nat (n div 10) @ [digit_char (n mod 10)])"

declare dec_nat.simps [simp del]

text \<open>\<^verbatim>\<open>std::to_string\<close> of a signed value.\<close>

definition dec_int :: "int \<Rightarrow> string" where
  "dec_int i = (if i < 0 then CHR ''-'' # dec_nat (nat (- i)) else dec_nat (nat i))"

text \<open>\<^verbatim>\<open>std::format("{:0w}", i)\<close>: zero padding goes between the sign and the digits.\<close>

definition dec_padded :: "nat \<Rightarrow> int \<Rightarrow> string" where
  "dec_padded w i =
     (let sign = (if i < 0 then ''-'' else '''');
          body = dec_nat (nat \<bar>i\<bar>)
      in sign @ replicate (w - length sign - length body) (CHR ''0'') @ body)"

text \<open>Reading digits back: the specification side of printing.\<close>

definition read_dec :: "string \<Rightarrow> nat" where
  "read_dec s = foldl (\<lambda>acc c. acc * 10 + digit_value c) 0 s"

lemma digit_char_eval [cpp_string]:
  "digit_char 0 = CHR ''0''" "digit_char 1 = CHR ''1''" "digit_char 2 = CHR ''2''"
  "digit_char 3 = CHR ''3''" "digit_char 4 = CHR ''4''" "digit_char 5 = CHR ''5''"
  "digit_char 6 = CHR ''6''" "digit_char 7 = CHR ''7''" "digit_char 8 = CHR ''8''"
  "digit_char 9 = CHR ''9''" "digit_char (Suc 0) = CHR ''1''"
  by (simp_all add: digit_char_def)

lemma char_code_digit_char [simp]: "d < 10 \<Longrightarrow> char_code (digit_char d) = 48 + d"
proof -
  assume "d < 10"
  then have "d = 0 \<or> d = 1 \<or> d = 2 \<or> d = 3 \<or> d = 4 \<or> d = 5 \<or> d = 6 \<or> d = 7 \<or> d = 8 \<or> d = 9"
    by presburger
  then show ?thesis by (elim disjE) (simp_all add: digit_char_eval char_code_def)
qed

lemma digit_value_digit_char [simp]: "d < 10 \<Longrightarrow> digit_value (digit_char d) = d"
  by (simp add: digit_value_def)

lemma is_digit_digit_char [simp]: "d < 10 \<Longrightarrow> is_digit (digit_char d)"
  by (simp add: is_digit_def)

lemma dec_nat_eval [cpp_string]:
  "n < 10 \<Longrightarrow> dec_nat n = [digit_char n]"
  "10 \<le> n \<Longrightarrow> dec_nat n = dec_nat (n div 10) @ [digit_char (n mod 10)]"
  by (simp_all add: dec_nat.simps [of n])

lemma dec_nat_digits: "\<forall>c \<in> set (dec_nat n). is_digit c"
proof (induction n rule: dec_nat.induct)
  case (1 n)
  then show ?case by (cases "n < 10") (auto simp: dec_nat.simps [of n])
qed

lemma dec_nat_not_Nil [simp]: "dec_nat n \<noteq> []"
  by (subst dec_nat.simps) simp

lemma read_dec_Nil [simp]: "read_dec [] = 0"
  by (simp add: read_dec_def)

lemma read_dec_snoc [simp]: "read_dec (s @ [c]) = read_dec s * 10 + digit_value c"
  by (simp add: read_dec_def)

lemma read_dec_dec_nat [simp]: "read_dec (dec_nat n) = n"
proof (induction n rule: dec_nat.induct)
  case (1 n)
  show ?case
  proof (cases "n < 10")
    case True
    then show ?thesis by (simp add: dec_nat.simps [of n] read_dec_def)
  next
    case False
    with "1.IH" show ?thesis by (simp add: dec_nat.simps [of n])
  qed
qed

lemma dec_nat_inject [simp]: "dec_nat m = dec_nat n \<longleftrightarrow> m = n"
  by (metis read_dec_dec_nat)

lemma dec_nat_length_le: "n < 10 ^ Suc w \<Longrightarrow> length (dec_nat n) \<le> Suc w"
proof (induction w arbitrary: n)
  case 0
  then show ?case by (simp add: dec_nat.simps [of n])
next
  case (Suc w)
  show ?case
  proof (cases "n < 10")
    case False
    from Suc.prems have "n div 10 < 10 ^ Suc w" by (simp add: div_less_iff_less_mult)
    then have "length (dec_nat (n div 10)) \<le> Suc w" by (rule Suc.IH)
    with False show ?thesis by (simp add: dec_nat.simps [of n])
  qed (simp add: dec_nat.simps [of n])
qed

lemma dec_nat_head: "n \<noteq> 0 \<Longrightarrow> hd (dec_nat n) \<noteq> CHR ''0''"
proof (induction n rule: dec_nat.induct)
  case (1 n)
  show ?case
  proof (cases "n < 10")
    case True
    with "1.prems" have "char_code (digit_char n) \<noteq> 48" by simp
    then have "digit_char n \<noteq> CHR ''0''" by (auto simp: char_code_def)
    with True show ?thesis by (simp add: dec_nat.simps [of n])
  next
    case False
    then have "n div 10 \<noteq> 0" by (auto simp: div_eq_0_iff)
    with "1.IH" False have "hd (dec_nat (n div 10)) \<noteq> CHR ''0''" by blast
    with False show ?thesis by (simp add: dec_nat.simps [of n] hd_append)
  qed
qed

text \<open>Padded printing of a value that fits its width.\<close>

lemma read_dec_zeros [simp]: "read_dec (replicate k (CHR ''0'') @ s) = read_dec s"
proof (induction k)
  case (Suc k)
  have "digit_value (CHR ''0'') = 0" by (simp add: digit_value_def char_code_def)
  with Suc show ?case by (simp add: read_dec_def)
qed simp

lemma dec_padded_nat:
  "dec_padded w (int n) = replicate (w - length (dec_nat n)) (CHR ''0'') @ dec_nat n"
  by (simp add: dec_padded_def Let_def)

lemma read_dec_padded [simp]: "read_dec (dec_padded w (int n)) = n"
  by (simp add: dec_padded_nat)

lemma length_dec_padded:
  assumes "n < 10 ^ w" and "0 < w"
  shows "length (dec_padded w (int n)) = w"
proof -
  from assms obtain v where "w = Suc v" by (cases w) auto
  with assms have "length (dec_nat n) \<le> w" using dec_nat_length_le by blast
  then show ?thesis by (simp add: dec_padded_nat)
qed

lemma dec_padded_digits: "\<forall>c \<in> set (dec_padded w (int n)). is_digit c"
  using dec_nat_digits [of n] by (auto simp: dec_padded_nat is_digit_def char_code_def)

section \<open>Splitting text\<close>

lemma takeWhile_all_stop:
  assumes "\<forall>c \<in> set xs. P c" and "ys \<noteq> [] \<Longrightarrow> \<not> P (hd ys)"
  shows "takeWhile P (xs @ ys) = xs" and "dropWhile P (xs @ ys) = ys"
  using assms by (cases ys; simp)+

text \<open>
  Line framing: the lines of a text whose every line ends in a newline character. Text after
  the last newline is an unfinished line and is not counted.
\<close>

fun complete_lines :: "bytes \<Rightarrow> bytes \<Rightarrow> bytes list" where
  "complete_lines acc [] = []"
| "complete_lines acc (c # cs) =
     (if c = newline then acc # complete_lines [] cs else complete_lines (acc @ [c]) cs)"

lemma complete_lines_append:
  "newline \<notin> set l \<Longrightarrow>
     complete_lines acc (l @ newline # rest) = (acc @ l) # complete_lines [] rest"
  by (induction l arbitrary: acc) auto

lemma complete_lines_concat:
  "\<forall>l \<in> set ls. newline \<notin> set l \<Longrightarrow>
     complete_lines [] (concat (map (\<lambda>l. l @ [newline]) ls)) = ls"
  by (induction ls) (auto simp: complete_lines_append [where acc = "[]", simplified])

section \<open>Unsigned counters\<close>

text \<open>\<^verbatim>\<open>++counter\<close> on an unsigned 64-bit value.\<close>

abbreviation bump :: "u64 \<Rightarrow> u64" where "bump c \<equiv> c + 1"

lemma of_nat_add_bump: "of_nat n + bump c = bump (of_nat n + c)"
  by (simp add: algebra_simps)

lemma unat_bump: "unat (c :: u64) + 1 < 2 ^ 64 \<Longrightarrow> unat (bump c) = Suc (unat c)"
  by (simp add: unat_word_ariths)

section \<open>Runs that a measure bounds\<close>

lemma measured_run:
  fixes m :: "'a \<Rightarrow> nat"
  assumes "P s" "\<And>s. P s \<Longrightarrow> \<not> final s \<Longrightarrow> \<exists>s'. R s s'"
    and "\<And>s s'. P s \<Longrightarrow> \<not> final s \<Longrightarrow> R s s' \<Longrightarrow> P s' \<and> m s' < m s"
  shows "\<exists>n s'. n \<le> m s \<and> (R ^^ n) s s' \<and> final s' \<and> P s'"
  using assms(1)
proof (induction "m s" arbitrary: s rule: less_induct)
  case less
  show ?case
  proof (cases "final s")
    case True
    with less.prems show ?thesis by (intro exI [of _ 0] exI [of _ s]) simp
  next
    case False
    with assms(2) less.prems obtain s1 where s1: "R s s1" by blast
    with assms(3) less.prems False have smaller: "P s1" "m s1 < m s" by blast+
    from less.hyps [OF smaller(2,1)] obtain n s' where
      n: "n \<le> m s1" "(R ^^ n) s1 s'" "final s'" "P s'" by blast
    have "(R ^^ Suc n) s s'" using s1 n(2) by (rule relpowp_Suc_I2)
    with n smaller(2) show ?thesis by (intro exI [of _ "Suc n"] exI [of _ s']) auto
  qed
qed

end
