(* ===== verification/Json_Spec.thy ===== *)
theory Json_Spec
  imports Prelude "HOL-Library.Monad_Syntax"
begin

text \<open>
  The abstract side of serialization: JSON values as trees, their compact text (RFC 8259 with
  no insignificant white space) and a reference parser for that text, with the round trip
  between them. The payload theories state what each C++ serializer writes as the text of a
  tree, and inherit from here that it parses back to exactly that tree.
\<close>

section \<open>Values and numbers\<close>

datatype json =
    JNull
  | JBool bool
  | JNum string \<comment> \<open>the literal, as written\<close>
  | JStr bytes
  | JArr "json list"
  | JObj "(bytes \<times> json) list" \<comment> \<open>members in order, keys may repeat\<close>

definition all_digits :: "string \<Rightarrow> bool" where
  "all_digits s \<longleftrightarrow> s \<noteq> [] \<and> list_all is_digit s"

fun strip_prefix_char :: "char list \<Rightarrow> string \<Rightarrow> string" where
  "strip_prefix_char cs [] = []"
| "strip_prefix_char cs (c # s) = (if c \<in> set cs then s else c # s)"

definition valid_exponent :: "string \<Rightarrow> bool" where
  "valid_exponent s \<longleftrightarrow>
     s = [] \<or> (hd s \<in> set ''eE'' \<and> all_digits (strip_prefix_char ''+-'' (tl s)))"

definition valid_fraction :: "string \<Rightarrow> bool" where
  "valid_fraction s \<longleftrightarrow>
     (if s \<noteq> [] \<and> hd s = CHR ''.''
      then takeWhile is_digit (tl s) \<noteq> [] \<and> valid_exponent (dropWhile is_digit (tl s))
      else valid_exponent s)"

text \<open>The number grammar: optional minus, integer part without leading zeros, fraction, exponent.\<close>

definition valid_number :: "string \<Rightarrow> bool" where
  "valid_number s \<longleftrightarrow>
     (let t = strip_prefix_char ''-'' s;
          ip = takeWhile is_digit t
      in ip \<noteq> [] \<and> (hd ip = CHR ''0'' \<longrightarrow> tl ip = []) \<and> valid_fraction (dropWhile is_digit t))"

definition is_number_char :: "char \<Rightarrow> bool" where
  "is_number_char c \<longleftrightarrow> is_digit c \<or> c \<in> set ''-+.eE''"

section \<open>Text\<close>

definition hex_digit :: "nat \<Rightarrow> char" where
  "hex_digit n = (if n < 16 then ''0123456789ABCDEF'' ! n else CHR 0x00)"

definition escape_byte :: "char \<Rightarrow> string" where
  "escape_byte c =
     (if c = dquote then [backslash, dquote]
      else if c = backslash then [backslash, backslash]
      else if c = CHR 0x08 then [backslash, CHR ''b'']
      else if c = CHR 0x0C then [backslash, CHR ''f'']
      else if c = newline then [backslash, CHR ''n'']
      else if c = carriage_return then [backslash, CHR ''r'']
      else if c = CHR 0x09 then [backslash, CHR ''t'']
      else if char_code c < 32
           then [backslash, CHR ''u'', CHR ''0'', CHR ''0'',
                 hex_digit (char_code c div 16), hex_digit (char_code c mod 16)]
      else [c])"

definition escaped :: "bytes \<Rightarrow> string" where
  "escaped s = concat (map escape_byte s)"

definition quoted :: "bytes \<Rightarrow> string" where
  "quoted s = dquote # escaped s @ [dquote]"

fun comma_separated :: "string list \<Rightarrow> string" where
  "comma_separated [] = []"
| "comma_separated [t] = t"
| "comma_separated (t # u # us) = t @ CHR '','' # comma_separated (u # us)"

fun json_text :: "json \<Rightarrow> string" where
  "json_text JNull = ''null''"
| "json_text (JBool b) = (if b then ''true'' else ''false'')"
| "json_text (JNum s) = s"
| "json_text (JStr s) = quoted s"
| "json_text (JArr vs) = ''['' @ comma_separated (map json_text vs) @ '']''"
| "json_text (JObj ms) =
     ''{'' @ comma_separated (map (\<lambda>(k, v). quoted k @ CHR '':'' # json_text v) ms) @ ''}''"

fun json_wf :: "json \<Rightarrow> bool" where
  "json_wf (JNum s) = (valid_number s \<and> list_all is_number_char s)"
| "json_wf (JArr vs) = (\<forall>v \<in> set vs. json_wf v)"
| "json_wf (JObj ms) = (\<forall>m \<in> set ms. json_wf (snd m))"
| "json_wf _ = True"

section \<open>Reference parser\<close>

definition hex_value :: "char \<Rightarrow> nat option" where
  "hex_value c =
     (let n = char_code c
      in if 48 \<le> n \<and> n \<le> 57 then Some (n - 48)
         else if 65 \<le> n \<and> n \<le> 70 then Some (n - 55)
         else if 97 \<le> n \<and> n \<le> 102 then Some (n - 87)
         else None)"

definition unescape_char :: "char \<Rightarrow> char option" where
  "unescape_char c =
     (if c = dquote \<or> c = backslash \<or> c = CHR ''/'' then Some c
      else if c = CHR ''b'' then Some (CHR 0x08)
      else if c = CHR ''f'' then Some (CHR 0x0C)
      else if c = CHR ''n'' then Some newline
      else if c = CHR ''r'' then Some carriage_return
      else if c = CHR ''t'' then Some (CHR 0x09)
      else None)"

text \<open>
  The characters of a string up to its closing quote. A \<^verbatim>\<open>\u\<close> escape is decoded when it
  denotes an ASCII character (one byte in UTF-8) and refused otherwise; raw control characters
  are refused.
\<close>

definition unicode_char :: "char \<Rightarrow> char \<Rightarrow> char \<Rightarrow> char \<Rightarrow> char option" where
  "unicode_char a b c d =
     do { i \<leftarrow> hex_value a; j \<leftarrow> hex_value b; k \<leftarrow> hex_value c; l \<leftarrow> hex_value d;
          let n = ((i * 16 + j) * 16 + k) * 16 + l;
          if n < 128 then Some (char_of n) else None }"

fun parse_chars :: "string \<Rightarrow> (bytes \<times> string) option" where
  "parse_chars [] = None"
| "parse_chars (c # cs) =
     (if c = dquote then Some ([], cs)
      else if c = backslash then
        (case cs of
           [] \<Rightarrow> None
         | e # es \<Rightarrow>
             if e = CHR ''u'' then
               (case es of
                  h1 # h2 # h3 # h4 # r \<Rightarrow>
                    do { x \<leftarrow> unicode_char h1 h2 h3 h4; (t, r') \<leftarrow> parse_chars r; Some (x # t, r') }
                | _ \<Rightarrow> None)
             else do { x \<leftarrow> unescape_char e; (t, r) \<leftarrow> parse_chars es; Some (x # t, r) })
      else if char_code c < 32 then None
      else do { (t, r) \<leftarrow> parse_chars cs; Some (c # t, r) })"

definition expect :: "string \<Rightarrow> string \<Rightarrow> string option" where
  "expect t s = (if take (length t) s = t then Some (drop (length t) s) else None)"

text \<open>Fuel bounds the nesting; every call below consumes a character first.\<close>

fun parse_value :: "nat \<Rightarrow> string \<Rightarrow> (json \<times> string) option"
  and parse_elements :: "nat \<Rightarrow> string \<Rightarrow> (json list \<times> string) option"
  and parse_members :: "nat \<Rightarrow> string \<Rightarrow> ((bytes \<times> json) list \<times> string) option"
where
  "parse_value 0 s = None"
| "parse_value (Suc n) s =
     (case s of
        [] \<Rightarrow> None
      | c # cs \<Rightarrow>
          if c = dquote then do { (t, r) \<leftarrow> parse_chars cs; Some (JStr t, r) }
          else if c = CHR ''{'' then
            (case expect ''}'' cs of
               Some r \<Rightarrow> Some (JObj [], r)
             | None \<Rightarrow> do { (ms, r) \<leftarrow> parse_members n cs; Some (JObj ms, r) })
          else if c = CHR ''['' then
            (case expect '']'' cs of
               Some r \<Rightarrow> Some (JArr [], r)
             | None \<Rightarrow> do { (vs, r) \<leftarrow> parse_elements n cs; Some (JArr vs, r) })
          else if c = CHR ''n'' then do { r \<leftarrow> expect ''null'' s; Some (JNull, r) }
          else if c = CHR ''t'' then do { r \<leftarrow> expect ''true'' s; Some (JBool True, r) }
          else if c = CHR ''f'' then do { r \<leftarrow> expect ''false'' s; Some (JBool False, r) }
          else (let t = takeWhile is_number_char s
                in if valid_number t then Some (JNum t, dropWhile is_number_char s) else None))"
| "parse_elements 0 s = None"
| "parse_elements (Suc n) s =
     do { (v, r) \<leftarrow> parse_value n s;
          (case expect '','' r of
             Some r' \<Rightarrow> do { (vs, q) \<leftarrow> parse_elements n r'; Some (v # vs, q) }
           | None \<Rightarrow> do { q \<leftarrow> expect '']'' r; Some ([v], q) }) }"
| "parse_members 0 s = None"
| "parse_members (Suc n) s =
     do { s1 \<leftarrow> expect [dquote] s;
          (k, s2) \<leftarrow> parse_chars s1;
          s3 \<leftarrow> expect '':'' s2;
          (v, r) \<leftarrow> parse_value n s3;
          (case expect '','' r of
             Some r' \<Rightarrow> do { (ms, q) \<leftarrow> parse_members n r'; Some ((k, v) # ms, q) }
           | None \<Rightarrow> do { q \<leftarrow> expect ''}'' r; Some ([(k, v)], q) }) }"

definition parse_json :: "string \<Rightarrow> json option" where
  "parse_json s =
     (case parse_value (2 * length s) s of Some (j, []) \<Rightarrow> Some j | _ \<Rightarrow> None)"

section \<open>Strings read back\<close>

lemma hex_digit_code: "n < 16 \<Longrightarrow> char_code (hex_digit n) = (if n < 10 then 48 + n else 55 + n)"
proof -
  have "\<forall>k \<in> set [0..<16]. char_code (hex_digit k) = (if k < 10 then 48 + k else 55 + k)"
    by (simp add: upt_rec hex_digit_def char_code_def)
  then show "n < 16 \<Longrightarrow> ?thesis" by simp
qed

lemma hex_value_hex_digit [simp]: "n < 16 \<Longrightarrow> hex_value (hex_digit n) = Some n"
  by (auto simp: hex_value_def hex_digit_code)

lemma hex_value_zero: "hex_value (CHR ''0'') = Some 0"
  by (simp add: hex_value_def char_code_def)

lemma unicode_char_control:
  assumes "char_code c < 32"
  shows "unicode_char (CHR ''0'') (CHR ''0'')
           (hex_digit (char_code c div 16)) (hex_digit (char_code c mod 16)) = Some c"
proof -
  have "char_code c div 16 < 16" and "char_code c mod 16 < 16" using assms by simp_all
  moreover have "char_code c div 16 * 16 + char_code c mod 16 = char_code c" by simp
  ultimately show ?thesis using assms by (simp add: unicode_char_def hex_value_zero Let_def)
qed

lemma parse_chars_escape_byte:
  "parse_chars (escape_byte c @ s) = do { (t, r) \<leftarrow> parse_chars s; Some (c # t, r) }"
  by (simp add: escape_byte_def unescape_char_def unicode_char_control)

lemma parse_chars_escaped: "parse_chars (escaped s @ dquote # r) = Some (s, r)"
  by (induction s) (simp_all add: escaped_def parse_chars_escape_byte)

text \<open>Escaped text holds no control character, so in particular no line break.\<close>

lemma escape_byte_printable: "d \<in> set (escape_byte c) \<Longrightarrow> 32 \<le> char_code d"
proof -
  have "n < 16 \<Longrightarrow> 32 \<le> char_code (hex_digit n)" for n by (simp add: hex_digit_code)
  then show "d \<in> set (escape_byte c) \<Longrightarrow> 32 \<le> char_code d"
    using char_code_less [of c]
    by (auto simp: escape_byte_def char_code_def split: if_splits)
qed

lemma escaped_printable: "d \<in> set (escaped s) \<Longrightarrow> 32 \<le> char_code d"
  by (auto simp: escaped_def intro: escape_byte_printable)

lemma escaped_append [simp]: "escaped (s @ t) = escaped s @ escaped t"
  by (simp add: escaped_def)

lemma escaped_Nil [simp]: "escaped [] = []"
  by (simp add: escaped_def)

section \<open>The round trip\<close>

lemma expect_append [simp]: "expect t (t @ s) = Some s"
  by (simp add: expect_def)

lemma expect_Cons [simp]:
  "expect [c] (d # s) = (if c = d then Some s else None)"
  "expect [c] [] = None"
  by (auto simp: expect_def)

text \<open>A number ends where no number character follows.\<close>

definition number_end :: "string \<Rightarrow> bool" where
  "number_end r \<longleftrightarrow> (r = [] \<or> \<not> is_number_char (hd r))"

lemma number_end_Cons [simp]: "number_end (c # r) \<longleftrightarrow> \<not> is_number_char c"
  by (simp add: number_end_def)

lemma not_number_char [simp]:
  "\<not> is_number_char dquote" "\<not> is_number_char (CHR '','')" "\<not> is_number_char (CHR ''}'')"
  "\<not> is_number_char (CHR '']'')" "\<not> is_number_char (CHR ''{'')" "\<not> is_number_char (CHR ''['')"
  "\<not> is_number_char (CHR ''n'')" "\<not> is_number_char (CHR ''t'')" "\<not> is_number_char (CHR ''f'')"
  by (simp_all add: is_number_char_def is_digit_def char_code_def)

lemma valid_number_not_Nil: "valid_number s \<Longrightarrow> s \<noteq> []"
  by (auto simp: valid_number_def)

lemma parse_value_number:
  assumes "json_wf (JNum t)" and "number_end r"
  shows "parse_value (Suc n) (t @ r) = Some (JNum t, r)"
proof -
  from assms(1) have v: "valid_number t" and a: "list_all is_number_char t" by simp_all
  from v obtain c cs where t: "t = c # cs" by (cases t) (auto dest: valid_number_not_Nil)
  with a have c: "is_number_char c" by simp
  have all: "\<forall>d \<in> set t. is_number_char d" using a by (simp add: list_all_iff)
  have "takeWhile is_number_char (t @ r) = t" "dropWhile is_number_char (t @ r) = r"
    using takeWhile_all_stop [OF all, of r] assms(2) by (auto simp: number_end_def)
  then have tw: "takeWhile is_number_char (c # cs @ r) = t" "dropWhile is_number_char (c # cs @ r) = r"
    by (simp_all only: t append_Cons)
  have "c \<noteq> dquote" "c \<noteq> CHR ''{''" "c \<noteq> CHR ''[''" "c \<noteq> CHR ''n''" "c \<noteq> CHR ''t''" "c \<noteq> CHR ''f''"
    using c not_number_char by metis+
  then have "parse_value (Suc n) (c # cs @ r) = Some (JNum t, r)"
    using v by (simp only: parse_value.simps list.case if_False Let_def tw if_True)
  then show ?thesis by (simp only: t append_Cons)
qed

definition reads :: "json \<Rightarrow> bool" where
  "reads j \<longleftrightarrow> (\<forall>n r. 2 * length (json_text j @ r) \<le> n \<longrightarrow> number_end r \<longrightarrow>
     parse_value n (json_text j @ r) = Some (j, r))"

lemma readsD:
  "reads j \<Longrightarrow> 2 * length (json_text j @ r) \<le> n \<Longrightarrow> number_end r \<Longrightarrow>
     parse_value n (json_text j @ r) = Some (j, r)"
  by (simp add: reads_def)

lemma readsI:
  assumes "json_text j \<noteq> []"
    and "\<And>m r. number_end r \<Longrightarrow> parse_value (Suc m) (json_text j @ r) = Some (j, r)"
  shows "reads j"
  unfolding reads_def
proof (intro allI impI)
  fix n r
  assume "2 * length (json_text j @ r) \<le> n" and r: "number_end r"
  with assms(1) obtain m where "n = Suc m" by (cases n) auto
  with assms(2) r show "parse_value n (json_text j @ r) = Some (j, r)" by simp
qed

lemma json_text_first:
  assumes "json_wf j"
  obtains c cs where "json_text j = c # cs" and "c \<noteq> CHR '']''"
proof (cases j)
  case (JNum t)
  with assms have "t \<noteq> []" "list_all is_number_char t" by (auto dest: valid_number_not_Nil)
  with JNum that show thesis by (cases t) (auto, metis not_number_char(4))
next
  case (JBool b)
  with that show thesis by (cases b) auto
qed (use that in \<open>auto simp: quoted_def\<close>)

lemma comma_separated_first:
  "vs \<noteq> [] \<Longrightarrow> \<exists>r. comma_separated (map f vs) @ s = f (hd vs) @ r"
  by (cases "map f vs" rule: comma_separated.cases) auto

lemma json_text_not_Nil: "json_wf j \<Longrightarrow> json_text j \<noteq> []"
  by (cases j) (auto simp: quoted_def dest: valid_number_not_Nil)

lemma parse_elements_text:
  assumes "vs \<noteq> []" and "\<forall>v \<in> set vs. reads v"
    and "2 * length (comma_separated (map json_text vs) @ '']'' @ r) < n"
  shows "parse_elements n (comma_separated (map json_text vs) @ '']'' @ r) = Some (vs, r)"
  using assms
proof (induction vs arbitrary: n)
  case (Cons v vs)
  then obtain m where n: "n = Suc m" by (cases n) auto
  from Cons.prems(2) have v: "reads v" by simp
  show ?case
  proof (cases vs)
    case Nil
    with Cons.prems(3) n have "parse_value m (json_text v @ '']'' @ r) = Some (v, '']'' @ r)"
      by (intro readsD [OF v]) simp_all
    with Nil n show ?thesis by simp
  next
    case (Cons u us)
    let ?rest = "comma_separated (map json_text vs) @ '']'' @ r"
    have shape: "comma_separated (map json_text (v # vs)) @ '']'' @ r
        = json_text v @ CHR '','' # ?rest"
      using Cons by simp
    from Cons.prems(3) n Cons
    have "parse_value m (json_text v @ CHR '','' # ?rest) = Some (v, CHR '','' # ?rest)"
      by (intro readsD [OF v]) simp_all
    moreover have "parse_elements m ?rest = Some (vs, r)"
      using Cons.IH [of m] Cons.prems n Cons by simp
    ultimately show ?thesis unfolding shape n by simp
  qed
qed simp

abbreviation member_text :: "bytes \<times> json \<Rightarrow> string" where
  "member_text m \<equiv> quoted (fst m) @ CHR '':'' # json_text (snd m)"

lemma parse_members_text:
  assumes "ms \<noteq> []" and "\<forall>m \<in> set ms. reads (snd m)"
    and "2 * length (comma_separated (map member_text ms) @ ''}'' @ r) < n"
  shows "parse_members n (comma_separated (map member_text ms) @ ''}'' @ r) = Some (ms, r)"
  using assms
proof (induction ms arbitrary: n)
  case (Cons m ms)
  obtain k v where m: "m = (k, v)" by (cases m)
  from Cons.prems(3) obtain l where n: "n = Suc l" by (cases n) (auto simp: quoted_def)
  from Cons.prems(2) m have v: "reads v" by simp
  show ?case
  proof (cases ms)
    case Nil
    with Cons.prems(3) n m have "parse_value l (json_text v @ ''}'' @ r) = Some (v, ''}'' @ r)"
      by (intro readsD [OF v]) (simp_all add: quoted_def)
    with Nil n m show ?thesis by (simp add: quoted_def parse_chars_escaped)
  next
    case (Cons m' ms')
    let ?rest = "comma_separated (map member_text ms) @ ''}'' @ r"
    have shape: "comma_separated (map member_text (m # ms)) @ ''}'' @ r
        = dquote # escaped k @ dquote # CHR '':'' # json_text v @ CHR '','' # ?rest"
      using Cons m by (simp add: quoted_def)
    from Cons.prems(3) have len: "2 * length (json_text v @ CHR '','' # ?rest) \<le> l"
      unfolding shape n by simp
    then have "parse_value l (json_text v @ CHR '','' # ?rest) = Some (v, CHR '','' # ?rest)"
      by (intro readsD [OF v]) simp_all
    moreover have "parse_members l ?rest = Some (ms, r)"
      using Cons.IH [of l] Cons.prems(2) len Cons by simp
    ultimately show ?thesis unfolding shape n by (simp add: parse_chars_escaped m)
  qed
qed simp

lemma parse_value_text: "json_wf j \<Longrightarrow> reads j"
proof (induction j)
  case (JNum t)
  then show ?case
    by (intro readsI) (auto simp del: parse_value.simps intro: parse_value_number
        dest: valid_number_not_Nil)
next
  case (JArr vs)
  then have IH: "\<forall>v \<in> set vs. reads v" by simp
  show ?case unfolding reads_def
  proof (intro allI impI)
    fix n r
    assume len: "2 * length (json_text (JArr vs) @ r) \<le> n"
    then obtain m where n: "n = Suc m" by (cases n) auto
    show "parse_value n (json_text (JArr vs) @ r) = Some (JArr vs, r)"
    proof (cases "vs = []")
      case False
      then have "json_wf (hd vs)" using JArr.prems by simp
      then obtain c cs where "json_text (hd vs) = c # cs" "c \<noteq> CHR '']''" by (rule json_text_first)
      then have e: "expect '']'' (comma_separated (map json_text vs) @ '']'' @ r) = None"
        using comma_separated_first [OF False, of json_text "'']'' @ r"] by auto
      show ?thesis using parse_elements_text [OF False IH, of r m] len n e by simp
    qed (simp add: n)
  qed
next
  case (JObj ms)
  then have IH: "\<forall>m \<in> set ms. reads (snd m)" by (auto simp: snds.simps)
  show ?case unfolding reads_def
  proof (intro allI impI)
    fix n r
    assume len: "2 * length (json_text (JObj ms) @ r) \<le> n"
    then obtain m where n: "n = Suc m" by (cases n) auto
    have shape: "json_text (JObj ms) = CHR ''{'' # comma_separated (map member_text ms) @ ''}''"
      by (simp add: case_prod_unfold)
    show "parse_value n (json_text (JObj ms) @ r) = Some (JObj ms, r)"
    proof (cases ms)
      case (Cons m1 ms1)
      have e: "expect ''}'' (comma_separated (map member_text ms) @ ''}'' @ r) = None"
        unfolding Cons by (cases ms1) (simp_all add: quoted_def)
      have "parse_members m (comma_separated (map member_text ms) @ ''}'' @ r) = Some (ms, r)"
        using parse_members_text [OF _ IH, of r m] len n Cons unfolding shape by simp
      with e show ?thesis unfolding shape n by simp
    qed (simp add: n)
  qed
qed (auto intro!: readsI simp: quoted_def parse_chars_escaped expect_def split: if_splits)

theorem parse_json_text: "json_wf j \<Longrightarrow> parse_json (json_text j) = Some j"
proof -
  assume "json_wf j"
  then have "reads j" by (rule parse_value_text)
  then have "parse_value (2 * length (json_text j)) (json_text j @ []) = Some (j, [])"
    by (rule readsD) (simp_all add: number_end_def)
  then show ?thesis by (simp add: parse_json_def)
qed

end
