(* ===== verification/Level.thy ===== *)
theory Level
  imports Prelude
begin

text \<open>
  Severity levels: \<^verbatim>\<open>include/logspine/level.hpp\<close> and \<^verbatim>\<open>src/level.cpp\<close>. The enumeration
  has the fixed underlying type \<^verbatim>\<open>std::uint8_t\<close>, so a C++ \<^verbatim>\<open>level\<close> can hold any byte; the
  named constants are the datatype \<open>level\<close>, and \<open>to_string_u8\<close> models the text of an
  arbitrary byte, with the \<^verbatim>\<open>"unknown"\<close> branch of the code.
\<close>

section \<open>The enumeration\<close>

datatype level = Trace | Debug | Info | Warn | Error | Fatal | Off

fun level_underlying :: "level \<Rightarrow> u8" where
  "level_underlying Trace = 0"
| "level_underlying Debug = 1"
| "level_underlying Info = 2"
| "level_underlying Warn = 3"
| "level_underlying Error = 4"
| "level_underlying Fatal = 5"
| "level_underlying Off = 6"

text \<open>\<^verbatim>\<open>static_cast<level>(index)\<close> for the indices the code casts.\<close>

fun level_of_index :: "nat \<Rightarrow> level" where
  "level_of_index 0 = Trace"
| "level_of_index (Suc 0) = Debug"
| "level_of_index (Suc (Suc 0)) = Info"
| "level_of_index (Suc (Suc (Suc 0))) = Warn"
| "level_of_index (Suc (Suc (Suc (Suc 0)))) = Error"
| "level_of_index (Suc (Suc (Suc (Suc (Suc 0))))) = Fatal"
| "level_of_index _ = Off"

instantiation level :: linorder
begin

definition less_eq_level :: "level \<Rightarrow> level \<Rightarrow> bool" where
  "less_eq_level a b \<longleftrightarrow> level_underlying a \<le> level_underlying b"

definition less_level :: "level \<Rightarrow> level \<Rightarrow> bool" where
  "less_level a b \<longleftrightarrow> level_underlying a < level_underlying b"

instance
proof
  fix a b :: level
  assume "a \<le> b" and "b \<le> a"
  then have "level_underlying a = level_underlying b"
    by (simp add: less_eq_level_def)
  then show "a = b" by (cases a; cases b) simp_all
qed (auto simp: less_eq_level_def less_level_def)

end

section \<open>Text\<close>

definition kLevelNames :: "string list" where
  "kLevelNames = [''trace'', ''debug'', ''info'', ''warn'', ''error'', ''fatal'', ''off'']"

definition to_string_u8 :: "u8 \<Rightarrow> string" where
  "to_string_u8 v =
     (let index = unat v
      in if index < length kLevelNames then kLevelNames ! index else ''unknown'')"

definition level_to_string :: "level \<Rightarrow> string" where
  "level_to_string l = to_string_u8 (level_underlying l)"

text \<open>The search loop of \<^verbatim>\<open>parse_level\<close>: the first name equal to the argument.\<close>

fun find_level_name :: "string list \<Rightarrow> nat \<Rightarrow> string \<Rightarrow> nat option" where
  "find_level_name [] index s = None"
| "find_level_name (n # ns) index s =
     (if n = s then Some index else find_level_name ns (Suc index) s)"

definition parse_level :: "string \<Rightarrow> level option" where
  "parse_level s =
     (case find_level_name kLevelNames 0 s of
        Some index \<Rightarrow> Some (level_of_index index)
      | None \<Rightarrow> if s = ''warning'' then Some Warn else None)"

section \<open>GELF severities and gating\<close>

fun to_gelf_level :: "level \<Rightarrow> u8" where
  "to_gelf_level Trace = 7"
| "to_gelf_level Debug = 7"
| "to_gelf_level Info = 6"
| "to_gelf_level Warn = 4"
| "to_gelf_level Error = 3"
| "to_gelf_level Fatal = 2"
| "to_gelf_level Off = 1"

text \<open>\<^verbatim>\<open>is_enabled_for\<close> of \<^verbatim>\<open>src/logger.cpp\<close>.\<close>

definition is_enabled_for :: "level \<Rightarrow> level \<Rightarrow> bool" where
  "is_enabled_for minimum_level severity \<longleftrightarrow>
     minimum_level \<noteq> Off \<and> severity \<noteq> Off \<and>
     level_underlying severity \<ge> level_underlying minimum_level"

section \<open>Properties\<close>

lemma level_names_bytes:
  "level_to_string l \<in> set kLevelNames"
  by (cases l) (simp_all add: level_to_string_def to_string_u8_def kLevelNames_def)

lemma parse_level_cases:
  "parse_level s =
     (if s = ''trace'' then Some Trace else if s = ''debug'' then Some Debug
      else if s = ''info'' then Some Info else if s = ''warn'' then Some Warn
      else if s = ''error'' then Some Error else if s = ''fatal'' then Some Fatal
      else if s = ''off'' then Some Off else if s = ''warning'' then Some Warn else None)"
  by (simp add: parse_level_def kLevelNames_def numeral_eq_Suc)

text \<open>
  The text of a level parses back to that level, and the only other text the parser
  accepts is \<^verbatim>\<open>"warning"\<close>, as the level warn: matching is exact, with no folding of case.
\<close>

theorem parse_level_iff:
  "parse_level s = Some l \<longleftrightarrow> s = level_to_string l \<or> (s = ''warning'' \<and> l = Warn)"
  by (cases l; auto simp: parse_level_cases level_to_string_def to_string_u8_def kLevelNames_def
      split: if_splits)

text \<open>Raising the threshold never enables a severity; raising the severity never disables it.\<close>

lemma is_enabled_for_monotone:
  shows "is_enabled_for m s \<longleftrightarrow> m \<noteq> Off \<and> s \<noteq> Off \<and> m \<le> s"
    and "is_enabled_for m s \<Longrightarrow> m' \<le> m \<Longrightarrow> s \<le> s' \<Longrightarrow> s' \<noteq> Off \<Longrightarrow> is_enabled_for m' s'"
proof -
  show *: "is_enabled_for m s \<longleftrightarrow> m \<noteq> Off \<and> s \<noteq> Off \<and> m \<le> s" for m s
    by (auto simp: is_enabled_for_def less_eq_level_def)
  assume a: "is_enabled_for m s" "m' \<le> m" "s \<le> s'" "s' \<noteq> Off"
  have "m' \<noteq> Off"
  proof
    assume "m' = Off"
    with a(2) have "m = Off" by (cases m) (simp_all add: less_eq_level_def word_le_nat_alt)
    with a(1) show False by (simp add: is_enabled_for_def)
  qed
  with a show "is_enabled_for m' s'" by (auto simp: *)
qed

lemma gelf_antimono: "a \<le> b \<Longrightarrow> to_gelf_level b \<le> to_gelf_level a"
  by (cases a; cases b) (simp_all add: less_eq_level_def word_le_nat_alt)

end
