(* ===== verification/Event.thy ===== *)
theory Event
  imports Level
begin

text \<open>
  Structured fields and log events: \<^verbatim>\<open>include/logspine/field.hpp\<close>, \<^verbatim>\<open>src/field.cpp\<close> and
  \<^verbatim>\<open>include/logspine/log_event.hpp\<close>. A \<^verbatim>\<open>double\<close> is its IEEE 754 bit pattern; an
  \<^verbatim>\<open>std::int64_t\<close> is a 64-bit word read in two's complement. Time points count nanoseconds
  since the epoch; a thread id is the native 64-bit handle.
\<close>

section \<open>Fields\<close>

type_synonym f64 = "64 word"

text \<open>The alternatives of \<^verbatim>\<open>field::value_type\<close>, in the order of the variant.\<close>

datatype field_value =
    VNull
  | VBool bool
  | VInt i64
  | VUInt u64
  | VDouble f64
  | VString bytes

record field =
  fkey :: bytes
  fvalue :: field_value

definition mk_field :: "bytes \<Rightarrow> field_value \<Rightarrow> field" where
  "mk_field k v = \<lparr>fkey = k, fvalue = v\<rparr>"

lemma mk_field_sel [simp]: "fkey (mk_field k v) = k" "fvalue (mk_field k v) = v"
  by (simp_all add: mk_field_def)

lemma mk_field_inject [simp]: "mk_field k v = mk_field k' v' \<longleftrightarrow> k = k' \<and> v = v'"
  by (simp add: mk_field_def)

text \<open>
  The overload set \<^verbatim>\<open>kv\<close>. \<open>kv_arg\<close> lists the argument types a caller can pass; integers
  arrive already widened to 64 bits. The concepts admit every signed integer type and the
  unsigned types other than \<^verbatim>\<open>bool\<close> and the character types, so an
  \<^verbatim>\<open>unsigned char\<close> (\<^verbatim>\<open>std::uint8_t\<close>) matches no integer template and overload
  resolution takes \<^verbatim>\<open>kv(std::string_view, bool)\<close> through the conversion to \<^verbatim>\<open>bool\<close>.
\<close>

datatype kv_arg =
    Arg_nullptr
  | Arg_bool bool
  | Arg_c_string "bytes option" \<comment> \<open>None is the null pointer\<close>
  | Arg_string bytes
  | Arg_signed i64
  | Arg_unsigned u64
  | Arg_unsigned_char u8
  | Arg_floating f64

fun kv :: "bytes \<Rightarrow> kv_arg \<Rightarrow> field" where
  "kv k Arg_nullptr = mk_field k VNull"
| "kv k (Arg_bool b) = mk_field k (VBool b)"
| "kv k (Arg_c_string p) =
     mk_field k (case p of None \<Rightarrow> VNull | Some s \<Rightarrow> VString s)"
| "kv k (Arg_string s) = mk_field k (VString s)"
| "kv k (Arg_signed i) = mk_field k (VInt i)"
| "kv k (Arg_unsigned n) = mk_field k (VUInt n)"
| "kv k (Arg_unsigned_char c) = mk_field k (VBool (c \<noteq> 0))"
| "kv k (Arg_floating d) = mk_field k (VDouble d)"

lemma kv_key [simp]: "fkey (kv k a) = k"
  by (cases a) simp_all

text \<open>An 8-bit unsigned counter loses its value: 2 and 200 give the same field.\<close>

lemma kv_uint8_collapses: "kv k (Arg_unsigned_char 2) = kv k (Arg_unsigned_char 200)"
  by simp

section \<open>Events\<close>

record source_location =
  file_name :: bytes
  line :: u32
  function_name :: bytes

record log_event =
  severity :: level
  logger_name :: bytes
  message :: bytes
  timestamp :: int
  thread_id :: u64
  location :: "source_location option"
  event_fields :: "field list"
  trace_id :: "bytes option"
  span_id :: "bytes option"
  correlation_id :: "bytes option"

text \<open>The default member initialisers, given the clock and the calling thread.\<close>

definition default_event :: "int \<Rightarrow> u64 \<Rightarrow> log_event" where
  "default_event now tid =
     \<lparr>severity = Info, logger_name = [], message = [], timestamp = now, thread_id = tid,
      location = None, event_fields = [], trace_id = None, span_id = None, correlation_id = None\<rparr>"

text \<open>The event of the concrete runs.\<close>

definition demo_event :: log_event where
  "demo_event = default_event 0 0"

end
