(* ===== verification/Cpp_Double.thy ===== *)
theory Cpp_Double
  imports Event
begin

text \<open>
  The floating-point text the sources print, for IEEE 754 binary64 values given by their bits:
  \<^verbatim>\<open>std::isfinite\<close>, \<^verbatim>\<open>std::to_chars(first, last, double)\<close> (the shortest text that reads
  back to the value, fixed notation on ties) and \<^verbatim>\<open>std::to_string(double)\<close> (six decimals).
  All comparisons are exact, on integers.
\<close>

section \<open>Decoding\<close>

definition f64_negative :: "f64 \<Rightarrow> bool" where
  "f64_negative b = bit b 63"

definition f64_exponent :: "f64 \<Rightarrow> nat" where
  "f64_exponent b = unat (take_bit 11 (drop_bit 52 b))"

definition f64_fraction :: "f64 \<Rightarrow> nat" where
  "f64_fraction b = unat (take_bit 52 b)"

definition isfinite :: "f64 \<Rightarrow> bool" where
  "isfinite b \<longleftrightarrow> f64_exponent b \<noteq> 2047"

text \<open>A finite value is \<open>mantissa * 2 ^ exponent\<close>, up to sign.\<close>

definition f64_mantissa :: "f64 \<Rightarrow> nat" where
  "f64_mantissa b =
     (if f64_exponent b = 0 then f64_fraction b else 2 ^ 52 + f64_fraction b)"

definition f64_scale :: "f64 \<Rightarrow> int" where
  "f64_scale b = (if f64_exponent b = 0 then - 1074 else int (f64_exponent b) - 1075)"

section \<open>Shortest digits\<close>

text \<open>\<open>dec_le d k x q\<close> is \<open>d * 10 ^ k \<le> x * 2 ^ q\<close>, for integer exponents of either sign.\<close>

definition scaled_dec :: "nat \<Rightarrow> int \<Rightarrow> int \<Rightarrow> nat" where
  "scaled_dec d k q = d * 10 ^ nat k * 2 ^ nat (- q)"

definition scaled_bin :: "nat \<Rightarrow> int \<Rightarrow> int \<Rightarrow> nat" where
  "scaled_bin x q k = x * 2 ^ nat q * 10 ^ nat (- k)"

definition dec_le :: "nat \<Rightarrow> int \<Rightarrow> nat \<Rightarrow> int \<Rightarrow> bool" where
  "dec_le d k x q \<longleftrightarrow> scaled_dec d k q \<le> scaled_bin x q k"

definition dec_eq :: "nat \<Rightarrow> int \<Rightarrow> nat \<Rightarrow> int \<Rightarrow> bool" where
  "dec_eq d k x q \<longleftrightarrow> scaled_dec d k q = scaled_bin x q k"

text \<open>
  The decimals that read back to a value with mantissa \<open>m\<close> and scale \<open>q\<close>, in units of a
  quarter of its last place: up to half a place above, and below it half a place, or a quarter
  where the value below has a smaller last place. The bounds belong to the range when the
  mantissa is even.
\<close>

definition reads_back :: "nat \<Rightarrow> int \<Rightarrow> nat \<Rightarrow> int \<Rightarrow> bool" where
  "reads_back m q d k \<longleftrightarrow>
     (let hi = 4 * m + 2;
          lo = (if m = 2 ^ 52 \<and> - 1074 < q then 4 * m - 1 else 4 * m - 2);
          u = q - 2
      in (if even m then dec_le d k hi u \<and> (dec_eq d k lo u \<or> \<not> dec_le d k lo u)
          else (dec_le d k hi u \<and> \<not> dec_eq d k hi u) \<and> \<not> dec_le d k lo u))"

text \<open>The largest multiple of \<open>10 ^ k\<close> not above the value.\<close>

definition floor_digits :: "nat \<Rightarrow> int \<Rightarrow> int \<Rightarrow> nat" where
  "floor_digits m q k = scaled_bin m q k div scaled_dec 1 k q"

text \<open>Which neighbour is closer: twice the midpoint against the value, ties to even.\<close>

definition closer :: "nat \<Rightarrow> int \<Rightarrow> int \<Rightarrow> nat \<Rightarrow> nat" where
  "closer m q k d =
     (let mid = scaled_dec (2 * d + 1) k q; v = 2 * scaled_bin m q k
      in if v < mid then d else if mid < v then d + 1 else if even d then d else d + 1)"

fun shortest_from :: "nat \<Rightarrow> nat \<Rightarrow> int \<Rightarrow> nat \<times> int" where
  "shortest_from 0 m q = (max 1 (closer m q (- 324) (floor_digits m q (- 324))), - 324)"
| "shortest_from (Suc j) m q =
     (let k = int (Suc j) - 324;
          d = floor_digits m q k;
          low = 0 < d \<and> reads_back m q d k;
          high = reads_back m q (d + 1) k
      in if low \<and> high then (closer m q k d, k)
         else if low then (d, k)
         else if high then (d + 1, k)
         else shortest_from j m q)"

definition shortest_digits :: "nat \<Rightarrow> int \<Rightarrow> nat \<times> int" where
  "shortest_digits m q = shortest_from 633 m q"

lemma shortest_from_pos: "0 < fst (shortest_from j m q)"
proof (induction j)
  case (Suc j)
  have "0 < floor_digits m q k \<Longrightarrow> 0 < closer m q k (floor_digits m q k)" for k
    by (simp add: closer_def Let_def)
  with Suc show ?case by (simp add: Let_def)
qed simp

section \<open>Layout\<close>

definition scientific_text :: "nat \<Rightarrow> int \<Rightarrow> string" where
  "scientific_text d k =
     (let ds = dec_nat d; e = k + int (length ds) - 1
      in hd ds # (if tl ds = [] then [] else CHR ''.'' # tl ds)
         @ ''e'' @ (if e < 0 then ''-'' else ''+'') @ dec_padded 2 \<bar>e\<bar>)"

text \<open>
  Fixed notation. With no fractional digits the text is the exact integer, as \<^verbatim>\<open>printf\<close>
  would print it.
\<close>

definition fixed_text :: "nat \<Rightarrow> int \<Rightarrow> nat \<Rightarrow> int \<Rightarrow> string" where
  "fixed_text m q d k =
     (let ds = dec_nat d; n = length ds; p = nat (- k)
      in if k = 0 then ds
         else if 0 < k then dec_nat (m * 2 ^ nat q div 2 ^ nat (- q))
         else if p < n then take (n - p) ds @ ''.'' @ drop (n - p) ds
         else ''0.'' @ replicate (p - n) (CHR ''0'') @ ds)"

definition magnitude_text :: "nat \<Rightarrow> int \<Rightarrow> string" where
  "magnitude_text m q =
     (if m = 0 then ''0''
      else let (d, k) = shortest_digits m q;
               f = fixed_text m q d k; s = scientific_text d k
           in if length f \<le> length s then f else s)"

definition double_text :: "f64 \<Rightarrow> string" where
  "double_text b =
     (if f64_negative b then ''-'' else '''') @ magnitude_text (f64_mantissa b) (f64_scale b)"

text \<open>
  \<^verbatim>\<open>std::to_chars(buffer, buffer + size, value)\<close>: None is \<^verbatim>\<open>errc::value_too_large\<close>, when
  the text does not fit the buffer.
\<close>

definition to_chars_double :: "nat \<Rightarrow> f64 \<Rightarrow> string option" where
  "to_chars_double room b = (if length (double_text b) \<le> room then Some (double_text b) else None)"

section \<open>Six decimals\<close>

text \<open>Rounding a ratio of naturals to an integer, ties to even.\<close>

definition round_ratio :: "nat \<Rightarrow> nat \<Rightarrow> nat" where
  "round_ratio a b =
     (let d = a div b; r = a mod b
      in if 2 * r < b then d else if b < 2 * r then d + 1 else if even d then d else d + 1)"

text \<open>
  The 53-bit significand and scale nearest to a positive ratio: the rounding of an integer
  conversion or of a division whose result is a normal number.
\<close>

fun bit_length :: "nat \<Rightarrow> nat" where
  "bit_length n = (if n = 0 then 0 else Suc (bit_length (n div 2)))"

declare bit_length.simps [simp del]

definition round_binary64 :: "nat \<Rightarrow> nat \<Rightarrow> nat \<times> int" where
  "round_binary64 a b =
     (if a = 0 then (0, 0)
      else let q0 = int (bit_length a) - int (bit_length b) - 53;
               at = (\<lambda>q. round_ratio (a * 2 ^ nat (- q)) (b * 2 ^ nat q));
               q = (if a * 2 ^ nat (- q0) < 2 ^ 53 * (b * 2 ^ nat q0) then q0 else q0 + 1)
           in (at q, q))"

text \<open>\<^verbatim>\<open>std::to_string(double)\<close> of a finite value: \<^verbatim>\<open>printf("%f")\<close>.\<close>

definition percent_f :: "bool \<Rightarrow> nat \<times> int \<Rightarrow> string" where
  "percent_f neg v =
     (case v of (m, q) \<Rightarrow>
        let micros = round_ratio (m * 10 ^ 6 * 2 ^ nat q) (2 ^ nat (- q))
        in (if neg then ''-'' else '''') @ dec_nat (micros div 10 ^ 6) @ ''.''
           @ dec_padded 6 (int (micros mod 10 ^ 6)))"

end
