(* ===== verification/Timestamp.thy ===== *)
theory Timestamp
  imports Prelude
begin

text \<open>
  \<^verbatim>\<open>format_timestamp\<close> of \<^verbatim>\<open>src/json.cpp\<close> with the parts of \<^verbatim>\<open>std::chrono\<close> and the C
  library it uses. A \<^verbatim>\<open>system_clock\<close> time point is an integer number of nanoseconds since
  1970-01-01T00:00:00Z; a 64-bit count covers the years 1677 to 2262. Duration casts truncate
  towards zero; \<^verbatim>\<open>gmtime_r\<close> breaks a count of seconds down in the Gregorian calendar.
\<close>

section \<open>Durations\<close>

text \<open>Integer division of C++ rounds towards zero; the divisors here are positive.\<close>

definition trunc_div :: "int \<Rightarrow> int \<Rightarrow> int" where
  "trunc_div a b = (if a < 0 then - ((- a) div b) else a div b)"

lemma trunc_div_nonneg: "0 \<le> a \<Longrightarrow> 0 < b \<Longrightarrow> trunc_div a b = a div b"
  by (simp add: trunc_div_def)

section \<open>The calendar\<close>

definition leap_year :: "int \<Rightarrow> bool" where
  "leap_year y \<longleftrightarrow> y mod 4 = 0 \<and> (y mod 100 \<noteq> 0 \<or> y mod 400 = 0)"

text \<open>Days from the epoch to the first of January of a year.\<close>

definition year_start :: "int \<Rightarrow> int" where
  "year_start y = 365 * (y - 1970) + ((y - 1) div 4 - (y - 1) div 100 + (y - 1) div 400) - 477"

definition month_lengths :: "int \<Rightarrow> int list" where
  "month_lengths y =
     [31, if leap_year y then 29 else 28, 31, 30, 31, 30, 31, 31, 30, 31, 30, 31]"

text \<open>The year of a day: an estimate from the mean year length, then a correction by one.\<close>

definition year_of_day :: "int \<Rightarrow> int" where
  "year_of_day d =
     (let y = d * 400 div 146097 + 1970
      in if d < year_start y then y - 1 else if year_start (y + 1) \<le> d then y + 1 else y)"

fun split_months :: "int list \<Rightarrow> int \<Rightarrow> int \<Rightarrow> int \<times> int" where
  "split_months [] m d = (m, d)"
| "split_months (l # ls) m d = (if d < l then (m, d) else split_months ls (m + 1) (d - l))"

record tm =
  tm_year :: int
  tm_mon :: int
  tm_mday :: int
  tm_hour :: int
  tm_min :: int
  tm_sec :: int

definition gmtime :: "int \<Rightarrow> tm" where
  "gmtime t =
     (let day = t div 86400; s = t mod 86400; y = year_of_day day;
          (m, d) = split_months (month_lengths y) 0 (day - year_start y)
      in \<lparr>tm_year = y - 1900, tm_mon = m, tm_mday = d + 1,
          tm_hour = s div 3600, tm_min = s mod 3600 div 60, tm_sec = s mod 60\<rparr>)"

section \<open>The text\<close>

definition format_timestamp :: "int \<Rightarrow> string" where
  "format_timestamp timestamp =
     (let seconds = trunc_div timestamp (10 ^ 9);
          millis = trunc_div (timestamp - seconds * 10 ^ 9) (10 ^ 6);
          utc = gmtime seconds
      in dec_padded 4 (tm_year utc + 1900) @ ''-'' @ dec_padded 2 (tm_mon utc + 1) @ ''-''
         @ dec_padded 2 (tm_mday utc) @ ''T'' @ dec_padded 2 (tm_hour utc) @ '':''
         @ dec_padded 2 (tm_min utc) @ '':'' @ dec_padded 2 (tm_sec utc) @ ''.''
         @ dec_padded 3 millis @ ''Z'')"

section \<open>Reading it back\<close>

text \<open>Milliseconds since the epoch denoted by a text of the shape the formatter writes.\<close>

definition day_number :: "int \<Rightarrow> int \<Rightarrow> int \<Rightarrow> int" where
  "day_number y m d = year_start y + sum_list (take (nat (m - 1)) (month_lengths y)) + d - 1"

definition number_at :: "nat \<Rightarrow> nat \<Rightarrow> string \<Rightarrow> int" where
  "number_at i n s = int (read_dec (take n (drop i s)))"

definition read_timestamp :: "string \<Rightarrow> int" where
  "read_timestamp s =
     (((day_number (number_at 0 4 s) (number_at 5 2 s) (number_at 8 2 s) * 24
        + number_at 11 2 s) * 60 + number_at 14 2 s) * 60 + number_at 17 2 s) * 1000
     + number_at 20 3 s"

section \<open>Calendar facts\<close>

lemma year_start_step: "year_start (y + 1) = year_start y + (if leap_year y then 366 else 365)"
proof -
  have step: "y div k = (y - 1) div k + (if y mod k = 0 then 1 else 0)" if "0 < k" for k :: int
  proof -
    have "y - 1 = (y div k) * k + (y mod k - 1)" by simp
    then have "(y - 1) div k = y div k + (y mod k - 1) div k"
      using that by (metis div_mult_self3 less_irrefl)
    moreover have "(y mod k - 1) div k = (if y mod k = 0 then - 1 else 0)"
    proof (cases "y mod k = 0")
      case False
      then have "0 \<le> y mod k - 1" and "y mod k - 1 < k"
        using that pos_mod_bound [of k y] pos_mod_sign [of k y] by linarith+
      with False show ?thesis by simp
    qed (use that in \<open>simp add: div_eq_minus1\<close>)
    ultimately show ?thesis by simp
  qed
  have m: "100 dvd y \<Longrightarrow> 4 dvd y" "400 dvd y \<Longrightarrow> 100 dvd y" by presburger+
  have diff: "y div k - (y - 1) div k = (if y mod k = 0 then 1 else 0)" if "0 < k" for k :: int
    using step [OF that] by (simp only: add_diff_cancel_left')
  note diff4 = diff [of 4, OF zero_less_numeral]
    and diff100 = diff [of 100, OF zero_less_numeral]
    and diff400 = diff [of 400, OF zero_less_numeral]
  have "year_start (y + 1) - year_start y
      = 365 + (y div 4 - (y - 1) div 4) - (y div 100 - (y - 1) div 100)
        + (y div 400 - (y - 1) div 400)"
    by (simp add: year_start_def)
  also have "\<dots> = 365 + (if y mod 4 = 0 then 1 else 0) - (if y mod 100 = 0 then 1 else 0)
        + (if y mod 400 = 0 then 1 else 0)"
    by (simp only: diff4 diff100 diff400)
  also have "\<dots> = (if leap_year y then 366 else 365)"
  proof -
    consider "400 dvd y" "100 dvd y" "4 dvd y" | "\<not> 400 dvd y" "100 dvd y" "4 dvd y"
      | "\<not> 400 dvd y" "\<not> 100 dvd y" "4 dvd y" | "\<not> 400 dvd y" "\<not> 100 dvd y" "\<not> 4 dvd y"
      using m by blast
    then show ?thesis by cases (simp_all add: leap_year_def mod_eq_0_iff_dvd)
  qed
  finally show ?thesis by linarith
qed

lemma year_of_day_bounds:
  "year_start (year_of_day d) \<le> d \<and> d < year_start (year_of_day d + 1)"
proof -
  define y where "y = d * 400 div 146097 + 1970"
  have div_bounds: "k * (x div k) \<le> x \<and> x < k * (x div k) + k" if "0 < k" for x k :: int
    using that mult_div_mod_eq [of k x] pos_mod_bound [of k x] pos_mod_sign [of k x] by linarith
  have mean: "146097 * (y - 1970) \<le> d * 400" "d * 400 < 146097 * (y - 1970) + 146097"
    using div_bounds [of 146097 "d * 400"] by (simp_all add: y_def)
  note b = div_bounds [of 4] div_bounds [of 100] div_bounds [of 400]
  have low: "year_start (y - 1) \<le> d"
    using mean b [of "y - 2"] unfolding year_start_def by simp
  have high: "d < year_start (2 + y)"
    using mean b [of "y + 1"] unfolding year_start_def by simp
  show ?thesis
    using low high by (auto simp: year_of_day_def Let_def y_def [symmetric] not_less)
qed

lemma split_months_correct:
  assumes "0 \<le> d" and "d < sum_list ls" and "split_months ls m d = (m', d')"
  shows "\<exists>i < length ls. m' = m + int i \<and> d = sum_list (take i ls) + d' \<and> 0 \<le> d' \<and> d' < ls ! i"
  using assms
proof (induction ls arbitrary: m d)
  case (Cons l ls)
  show ?case
  proof (cases "d < l")
    case True
    with Cons.prems show ?thesis by (intro exI [of _ 0]) simp
  next
    case False
    with Cons.prems Cons.IH [of "d - l" "m + 1"] obtain i where
      "i < length ls" "m' = m + 1 + int i" "d - l = sum_list (take i ls) + d'" "0 \<le> d'" "d' < ls ! i"
      by auto
    then show ?thesis by (intro exI [of _ "Suc i"]) simp
  qed
qed simp

lemma sum_month_lengths: "sum_list (month_lengths y) = (if leap_year y then 366 else 365)"
  by (simp add: month_lengths_def)

lemma month_lengths_bound: "i < length (month_lengths y) \<Longrightarrow> month_lengths y ! i \<le> 31"
  by (auto simp: month_lengths_def less_Suc_eq nth_Cons')

lemma clock_fields:
  fixes s :: int
  assumes "0 \<le> s" and "s < 86400"
  shows "(s div 3600 * 60 + s mod 3600 div 60) * 60 + s mod 60 = s"
    and "0 \<le> s div 3600" "s div 3600 < 24" "0 \<le> s mod 3600 div 60" "s mod 3600 div 60 < 60"
    and "0 \<le> s mod 60" "s mod 60 < 60"
proof -
  define h x m r where "h = s div 3600" and "x = s mod 3600" and "m = x div 60" and "r = x mod 60"
  have "3600 * h + x = s" "60 * m + r = x"
    unfolding h_def x_def m_def r_def by (rule mult_div_mod_eq)+
  then have "(h * 60 + m) * 60 + r = s" by (simp add: algebra_simps)
  moreover have "s mod 60 = r" unfolding r_def x_def by (simp add: mod_mod_cancel)
  ultimately show "(s div 3600 * 60 + s mod 3600 div 60) * 60 + s mod 60 = s"
    by (simp only: h_def x_def m_def)
qed (use assms in simp_all)

text \<open>The broken-down time denotes the instant it came from, with every field in its range.\<close>

lemma gmtime_correct:
  fixes t
  defines "b \<equiv> gmtime t"
  shows "day_number (tm_year b + 1900) (tm_mon b + 1) (tm_mday b) = t div 86400"
    and "0 \<le> tm_mon b" "tm_mon b < 12" "1 \<le> tm_mday b" "tm_mday b \<le> 31"
    and "(tm_hour b * 60 + tm_min b) * 60 + tm_sec b = t mod 86400"
    and "0 \<le> tm_hour b" "tm_hour b < 24" "0 \<le> tm_min b" "tm_min b < 60"
        "0 \<le> tm_sec b" "tm_sec b < 60"
    and "tm_year b + 1900 = year_of_day (t div 86400)"
proof -
  let ?day = "t div 86400" and ?s = "t mod 86400"
  let ?y = "year_of_day ?day"
  obtain m d where md: "split_months (month_lengths ?y) 0 (?day - year_start ?y) = (m, d)"
    by (cases "split_months (month_lengths ?y) 0 (?day - year_start ?y)")
  have b: "b = \<lparr>tm_year = ?y - 1900, tm_mon = m, tm_mday = d + 1,
      tm_hour = ?s div 3600, tm_min = ?s mod 3600 div 60, tm_sec = ?s mod 60\<rparr>"
    by (simp add: b_def gmtime_def md Let_def)
  have "0 \<le> ?day - year_start ?y" "?day - year_start ?y < sum_list (month_lengths ?y)"
    using year_of_day_bounds [of ?day] year_start_step [of ?y] by (simp_all add: sum_month_lengths)
  from split_months_correct [OF this md] obtain i where i:
    "i < length (month_lengths ?y)" "m = int i"
    "?day - year_start ?y = sum_list (take i (month_lengths ?y)) + d"
    "0 \<le> d" "d < month_lengths ?y ! i" by auto
  have "length (month_lengths ?y) = 12" by (simp add: month_lengths_def)
  with i month_lengths_bound [OF i(1)]
  show "day_number (tm_year b + 1900) (tm_mon b + 1) (tm_mday b) = ?day"
    and "0 \<le> tm_mon b" "tm_mon b < 12" "1 \<le> tm_mday b" "tm_mday b \<le> 31"
    by (simp_all add: b day_number_def)
  show "(tm_hour b * 60 + tm_min b) * 60 + tm_sec b = ?s"
    and "0 \<le> tm_hour b" "tm_hour b < 24" "0 \<le> tm_min b" "tm_min b < 60"
      "0 \<le> tm_sec b" "tm_sec b < 60"
    unfolding b tm.simps by (rule clock_fields; simp)+
  show "tm_year b + 1900 = ?y" by (simp add: b)
qed

section \<open>Properties\<close>

lemma number_at_pieces:
  assumes "length a = 4" "length b = 2" "length c = 2" "length d = 2" "length e = 2" "length f = 2"
    "length g = 3"
    and s: "s = a @ ''-'' @ b @ ''-'' @ c @ ''T'' @ d @ '':'' @ e @ '':'' @ f @ ''.'' @ g @ ''Z''"
  shows "number_at 0 4 s = int (read_dec a)" "number_at 5 2 s = int (read_dec b)"
    "number_at 8 2 s = int (read_dec c)" "number_at 11 2 s = int (read_dec d)"
    "number_at 14 2 s = int (read_dec e)" "number_at 17 2 s = int (read_dec f)"
    "number_at 20 3 s = int (read_dec g)" "length s = 24"
  using assms(1-7) unfolding s by (simp_all add: number_at_def)

lemma dec_padded_field:
  assumes "0 \<le> i" and "i < 10 ^ w" and "0 < w"
  shows "length (dec_padded w i) = w" and "int (read_dec (dec_padded w i)) = i"
proof -
  have "nat i < 10 ^ w" using assms(1,2) by (simp add: nat_less_iff)
  then show "length (dec_padded w i) = w"
    using length_dec_padded [of "nat i" w] assms by simp
  show "int (read_dec (dec_padded w i)) = i"
    using read_dec_padded [of w "nat i"] assms(1) by simp
qed

lemma year_of_day_range: "0 \<le> d \<Longrightarrow> d < 110000 \<Longrightarrow> 0 \<le> year_of_day d \<and> year_of_day d < 10000"
proof -
  assume "0 \<le> d" and "d < 110000"
  then have "0 \<le> d * 400 div 146097" and "d * 400 div 146097 \<le> 400" by simp_all
  then show ?thesis by (simp add: year_of_day_def Let_def)
qed

lemma split_millis: "ts div 10 ^ 9 * 1000 + ts mod 10 ^ 9 div 10 ^ 6 = (ts :: int) div 10 ^ 6"
proof -
  define q r where "q = ts div 10 ^ 9" and "r = ts mod 10 ^ 9"
  have "ts = (q * 1000) * 10 ^ 6 + r"
    using div_mult_mod_eq [of ts "10 ^ 9"] by (simp add: q_def r_def)
  then have "ts div 10 ^ 6 = q * 1000 + r div 10 ^ 6" by simp
  then show ?thesis by (simp only: q_def r_def)
qed

lemma format_timestamp_reads:
  assumes "0 \<le> ts" and "ts < 2 ^ 63"
  shows "length (format_timestamp ts) = 24"
    and "read_timestamp (format_timestamp ts) = ts div 10 ^ 6"
proof -
  define t where "t = ts div 10 ^ 9"
  define ms where "ms = ts mod 10 ^ 9 div 10 ^ 6"
  define u where "u = gmtime t"
  have sec: "trunc_div ts (10 ^ 9) = t" using assms(1) by (simp add: t_def trunc_div_nonneg)
  have "ts - t * 10 ^ 9 = ts mod 10 ^ 9" by (simp add: t_def minus_div_mult_eq_mod)
  then have mil: "trunc_div (ts - t * 10 ^ 9) (10 ^ 6) = ms"
    by (simp add: trunc_div_nonneg ms_def)
  have "0 \<le> t div 86400" "t div 86400 < 110000" using assms by (simp_all add: t_def)
  note y = year_of_day_range [OF this]
  note g = gmtime_correct [of t, folded u_def]
  have ms: "0 \<le> ms" "ms < 10 ^ 3" by (simp_all add: ms_def)
  let ?p = "\<lambda>w i. dec_padded w i"
  have fields: "0 \<le> tm_year u + 1900" "tm_year u + 1900 < 10 ^ 4" "tm_mon u + 1 < 10 ^ 2"
    "tm_mday u < 10 ^ 2" "tm_hour u < 10 ^ 2" "tm_min u < 10 ^ 2" "tm_sec u < 10 ^ 2"
    "0 \<le> tm_mon u + 1" "0 \<le> tm_mday u"
    using y g by simp_all
  have len: "length (?p 4 (tm_year u + 1900)) = 4" "length (?p 2 (tm_mon u + 1)) = 2"
    "length (?p 2 (tm_mday u)) = 2" "length (?p 2 (tm_hour u)) = 2" "length (?p 2 (tm_min u)) = 2"
    "length (?p 2 (tm_sec u)) = 2" "length (?p 3 ms) = 3"
    using fields g ms by (simp_all add: dec_padded_field(1))
  note n = number_at_pieces [OF len refl]
  have shape: "format_timestamp ts =
      ?p 4 (tm_year u + 1900) @ ''-'' @ ?p 2 (tm_mon u + 1) @ ''-'' @ ?p 2 (tm_mday u) @ ''T''
      @ ?p 2 (tm_hour u) @ '':'' @ ?p 2 (tm_min u) @ '':'' @ ?p 2 (tm_sec u) @ ''.'' @ ?p 3 ms @ ''Z''"
    by (simp only: format_timestamp_def Let_def sec mil u_def)
  show "length (format_timestamp ts) = 24" unfolding shape by (rule n(8))
  have "read_timestamp (format_timestamp ts)
      = (((t div 86400 * 24 + tm_hour u) * 60 + tm_min u) * 60 + tm_sec u) * 1000 + ms"
    unfolding shape read_timestamp_def n
    using fields g ms by (simp add: dec_padded_field(2))
  also have "\<dots> = (t div 86400 * 86400 + ((tm_hour u * 60 + tm_min u) * 60 + tm_sec u)) * 1000 + ms"
    by (simp add: algebra_simps)
  also have "\<dots> = (t div 86400 * 86400 + t mod 86400) * 1000 + ms" by (simp only: g(6))
  also have "\<dots> = ts div 10 ^ 9 * 1000 + ts mod 10 ^ 9 div 10 ^ 6" by (simp only: div_mult_mod_eq t_def ms_def)
  also have "\<dots> = ts div 10 ^ 6" by (rule split_millis)
  finally show "read_timestamp (format_timestamp ts) = ts div 10 ^ 6" .
qed

text \<open>
  C28. The timestamp text of an instant at or after the epoch is 24 characters long and denotes
  exactly that instant, truncated to milliseconds, in the Gregorian calendar.
\<close>

theorem format_timestamp_exact:
  assumes "0 \<le> ts" and "ts < 2 ^ 63"
  shows "length (format_timestamp ts) = 24 \<and> read_timestamp (format_timestamp ts) = ts div 10 ^ 6"
  using format_timestamp_reads [OF assms] by blast

theorem format_timestamp_exact_witness:
  "length (format_timestamp 1700000000123456789) = 24 \<and>
   read_timestamp (format_timestamp 1700000000123456789) = 1700000000123"
  using format_timestamp_exact [of 1700000000123456789] by simp

lemma gmtime_epoch:
  "gmtime 0 = \<lparr>tm_year = 70, tm_mon = 0, tm_mday = 1, tm_hour = 0, tm_min = 0, tm_sec = 0\<rparr>"
proof -
  have "year_start 1970 = 0" "year_start 1971 = 365" by (simp_all add: year_start_def)
  then have "year_of_day 0 = 1970" by (simp add: year_of_day_def)
  moreover have "split_months (month_lengths 1970) 0 0 = (0, 0)" by (simp add: month_lengths_def)
  ultimately show ?thesis using \<open>year_start 1970 = 0\<close> by (simp add: gmtime_def)
qed

text \<open>
  An instant before the epoch that is not a whole second is printed with a negative
  millisecond field: half a second before the epoch becomes a text that no RFC 3339 reader
  accepts.
\<close>

theorem format_timestamp_before_epoch:
  "format_timestamp (- 500000000) = ''1970-01-01T00:00:00.-500Z''"
  by (simp add: format_timestamp_def trunc_div_def gmtime_epoch dec_padded_def cpp_string Let_def)

end
