(* ===== verification/Json.thy ===== *)
theory Json
  imports Json_Spec Cpp_Double Timestamp
begin

text \<open>
  \<^verbatim>\<open>src/json.cpp\<close>: escaping, field values, the JSON record of an event and the human-readable
  line. The functions append to an output string, as the code does; \<open>event_json\<close> is the tree
  the record denotes, and the refinement \<open>to_json_event_text\<close> says the record is its text.
\<close>

unbundle bit_operations_syntax

section \<open>Escaping\<close>

definition kHexDigits :: "char list" where
  "kHexDigits = ''0123456789ABCDEF''"

fun append_json_escaped :: "bytes \<Rightarrow> string \<Rightarrow> string" where
  "append_json_escaped [] output = output"
| "append_json_escaped (raw_ch # value) output =
     append_json_escaped value
       (let ch = of_nat (char_code raw_ch) :: u8
        in if ch = 0x22 then output @ [backslash, dquote]
           else if ch = 0x5C then output @ [backslash, backslash]
           else if ch = 0x08 then output @ [backslash, CHR ''b'']
           else if ch = 0x0C then output @ [backslash, CHR ''f'']
           else if ch = 0x0A then output @ [backslash, CHR ''n'']
           else if ch = 0x0D then output @ [backslash, CHR ''r'']
           else if ch = 0x09 then output @ [backslash, CHR ''t'']
           else if ch < 0x20
                then output @ [backslash, CHR ''u'', CHR ''0'', CHR ''0'']
                       @ [kHexDigits ! unat (drop_bit 4 ch AND 0x0F)]
                       @ [kHexDigits ! unat (ch AND 0x0F)]
           else output @ [raw_ch])"

definition append_json_string :: "bytes \<Rightarrow> string \<Rightarrow> string" where
  "append_json_string value output = append_json_escaped value (output @ [dquote]) @ [dquote]"

section \<open>Field values\<close>

definition append_field_value_json :: "field_value \<Rightarrow> string \<Rightarrow> string" where
  "append_field_value_json value output =
     (case value of
        VNull \<Rightarrow> output @ ''null''
      | VBool b \<Rightarrow> output @ (if b then ''true'' else ''false'')
      | VInt i \<Rightarrow> output @ dec_int (sint i)
      | VUInt n \<Rightarrow> output @ dec_nat (unat n)
      | VDouble d \<Rightarrow>
          if isfinite d
          then (case to_chars_double 64 d of Some t \<Rightarrow> output @ t | None \<Rightarrow> output @ ''null'')
          else output @ ''null''
      | VString s \<Rightarrow> append_json_string s output)"

definition append_field :: "field \<Rightarrow> string \<times> bool \<Rightarrow> string \<times> bool" where
  "append_field entry st =
     (case st of (output, first) \<Rightarrow>
        let output = (if first then output else output @ '','');
            output = append_json_string (fkey entry) output @ '':''
        in (append_field_value_json (fvalue entry) output, False))"

definition append_fields_object :: "field list \<Rightarrow> string \<Rightarrow> string" where
  "append_fields_object fs output = fst (fold append_field fs (output @ ''{'', True)) @ ''}''"

definition to_json_value :: "field_value \<Rightarrow> string" where
  "to_json_value value = append_field_value_json value []"

section \<open>Records\<close>

text \<open>\<^verbatim>\<open>operator<<(ostream&, thread::id)\<close>: the native handle in decimal.\<close>

definition format_thread_id :: "u64 \<Rightarrow> string" where
  "format_thread_id tid =
     (if tid = 0 then ''thread::id of a non-executing thread'' else dec_nat (unat tid))"

text \<open>The local lambdas of \<^verbatim>\<open>to_json\<close>: the output and the flag \<^verbatim>\<open>first\<close> they share.\<close>

definition append_separator :: "string \<times> bool \<Rightarrow> string" where
  "append_separator st = (case st of (output, first) \<Rightarrow> if first then output else output @ '','')"

definition append_named_string :: "bytes \<Rightarrow> bytes \<Rightarrow> string \<times> bool \<Rightarrow> string \<times> bool" where
  "append_named_string key value st =
     (append_json_string value (append_json_string key (append_separator st) @ '':''), False)"

definition append_named_object :: "bytes \<Rightarrow> field list \<Rightarrow> string \<times> bool \<Rightarrow> string \<times> bool" where
  "append_named_object key fs st =
     (append_fields_object fs (append_json_string key (append_separator st) @ '':''), False)"

definition append_named_number :: "bytes \<Rightarrow> nat \<Rightarrow> string \<times> bool \<Rightarrow> string \<times> bool" where
  "append_named_number key n st =
     (append_json_string key (append_separator st) @ '':'' @ dec_nat n, False)"

definition append_optional :: "bytes \<Rightarrow> bytes option \<Rightarrow> string \<times> bool \<Rightarrow> string \<times> bool" where
  "append_optional key value st =
     (case value of None \<Rightarrow> st | Some s \<Rightarrow> append_named_string key s st)"

definition append_location :: "source_location option \<Rightarrow> string \<times> bool \<Rightarrow> string \<times> bool" where
  "append_location loc st =
     (case loc of
        None \<Rightarrow> st
      | Some l \<Rightarrow>
          append_named_string ''function'' (function_name l)
            (append_named_number ''line'' (unat (line l))
              (append_named_string ''file'' (file_name l) st)))"

definition to_json_event :: "log_event \<Rightarrow> string" where
  "to_json_event event =
     (let st = (''{'', True);
          st = append_named_string ''@timestamp'' (format_timestamp (timestamp event)) st;
          st = append_named_string ''level'' (level_to_string (severity event)) st;
          st = append_named_string ''logger'' (logger_name event) st;
          st = append_named_string ''message'' (message event) st;
          st = append_named_string ''thread_id'' (format_thread_id (thread_id event)) st;
          st = append_location (location event) st;
          st = append_optional ''trace_id'' (trace_id event) st;
          st = append_optional ''span_id'' (span_id event) st;
          st = append_optional ''correlation_id'' (correlation_id event) st;
          st = append_named_object ''fields'' (event_fields event) st
      in fst st @ ''}'')"

definition to_json_lines_record :: "log_event \<Rightarrow> string" where
  "to_json_lines_record event = to_json_event event @ [newline]"

section \<open>Human-readable lines\<close>

definition human_value :: "field_value \<Rightarrow> string" where
  "human_value value =
     (case value of
        VNull \<Rightarrow> ''null''
      | VBool b \<Rightarrow> (if b then ''true'' else ''false'')
      | VInt i \<Rightarrow> dec_int (sint i)
      | VUInt n \<Rightarrow> dec_nat (unat n)
      | VDouble d \<Rightarrow>
          if isfinite d then (case to_chars_double 64 d of Some t \<Rightarrow> t | None \<Rightarrow> ''null'')
          else ''null''
      | VString s \<Rightarrow> s)"

definition format_human_readable :: "log_event \<Rightarrow> string" where
  "format_human_readable event =
     fold (\<lambda>entry output. output @ '' '' @ fkey entry @ ''='' @ human_value (fvalue entry))
       (event_fields event)
       (format_timestamp (timestamp event) @ '' '' @ level_to_string (severity event) @ '' ''
        @ logger_name event @ '' '' @ message event)"

section \<open>The tree of a record\<close>

definition value_json :: "field_value \<Rightarrow> json" where
  "value_json value =
     (case value of
        VNull \<Rightarrow> JNull
      | VBool b \<Rightarrow> JBool b
      | VInt i \<Rightarrow> JNum (dec_int (sint i))
      | VUInt n \<Rightarrow> JNum (dec_nat (unat n))
      | VDouble d \<Rightarrow>
          if isfinite d \<and> length (double_text d) \<le> 64 then JNum (double_text d) else JNull
      | VString s \<Rightarrow> JStr s)"

definition field_member :: "field \<Rightarrow> bytes \<times> json" where
  "field_member f = (fkey f, value_json (fvalue f))"

definition optional_member :: "bytes \<Rightarrow> bytes option \<Rightarrow> (bytes \<times> json) list" where
  "optional_member key value = (case value of None \<Rightarrow> [] | Some s \<Rightarrow> [(key, JStr s)])"

definition event_json :: "log_event \<Rightarrow> json" where
  "event_json event = JObj
     ([(''@timestamp'', JStr (format_timestamp (timestamp event))),
       (''level'', JStr (level_to_string (severity event))),
       (''logger'', JStr (logger_name event)),
       (''message'', JStr (message event)),
       (''thread_id'', JStr (format_thread_id (thread_id event)))]
      @ (case location event of
           None \<Rightarrow> []
         | Some l \<Rightarrow> [(''file'', JStr (file_name l)), (''line'', JNum (dec_nat (unat (line l)))),
                     (''function'', JStr (function_name l))])
      @ optional_member ''trace_id'' (trace_id event)
      @ optional_member ''span_id'' (span_id event)
      @ optional_member ''correlation_id'' (correlation_id event)
      @ [(''fields'', JObj (map field_member (event_fields event)))])"

section \<open>Numbers are JSON numbers\<close>

lemma minus_point_not_digit [simp]:
  "\<not> is_digit (CHR ''-'')" "\<not> is_digit (CHR ''+'')" "\<not> is_digit (CHR ''.'')" "\<not> is_digit (CHR ''e'')"
  by (simp_all add: is_digit_def char_code_def)

lemma number_char_punctuation [simp]:
  "is_number_char (CHR ''-'')" "is_number_char (CHR ''+'')" "is_number_char (CHR ''.'')"
  "is_number_char (CHR ''e'')" "is_number_char (CHR ''0'')"
  by (simp_all add: is_number_char_def is_digit_def char_code_def)

lemma digit_zero [simp]: "is_digit (CHR ''0'')"
  by (simp add: is_digit_def char_code_def)

lemma digits_number_chars: "list_all is_digit s \<Longrightarrow> list_all is_number_char s"
  by (auto simp: list_all_iff is_number_char_def)

lemma all_digits_dec_nat [simp]: "all_digits (dec_nat n)"
  using dec_nat_digits [of n] by (simp add: all_digits_def list_all_iff)

lemma takeWhile_digits:
  assumes "list_all is_digit s" and "r = [] \<or> \<not> is_digit (hd r)"
  shows "takeWhile is_digit (s @ r) = s" "dropWhile is_digit (s @ r) = r"
  using takeWhile_all_stop [of s is_digit r] assms by (auto simp: list_all_iff)

lemma valid_number_digits:
  assumes "all_digits ip" and "hd ip = CHR ''0'' \<Longrightarrow> tl ip = []"
    and "valid_fraction r" and "r = [] \<or> \<not> is_digit (hd r)"
  shows "valid_number (ip @ r)" and "valid_number (CHR ''-'' # ip @ r)"
proof -
  from assms(1) obtain c cs where ip: "ip = c # cs" and c: "is_digit c"
    by (cases ip) (auto simp: all_digits_def)
  then have "c \<noteq> CHR ''-''" by auto
  then have strip: "strip_prefix_char ''-'' (ip @ r) = ip @ r" by (simp add: ip)
  have d: "list_all is_digit ip" using assms(1) by (simp add: all_digits_def)
  note tw = takeWhile_digits [OF d assms(4)]
  show "valid_number (ip @ r)"
    unfolding valid_number_def Let_def strip tw using assms(2,3) ip by auto
  have "strip_prefix_char ''-'' (CHR ''-'' # ip @ r) = ip @ r" by simp
  then show "valid_number (CHR ''-'' # ip @ r)"
    unfolding valid_number_def Let_def tw by (simp only: tw) (use assms(2,3) ip in auto)
qed

lemma valid_number_dec_nat: "valid_number (dec_nat n)" "valid_number (CHR ''-'' # dec_nat n)"
proof -
  have z: "hd (dec_nat n) = CHR ''0'' \<Longrightarrow> tl (dec_nat n) = []"
    using dec_nat_head [of n] by (cases "n = 0") (auto simp: dec_nat.simps [of 0])
  have "valid_fraction []" by (simp add: valid_fraction_def valid_exponent_def)
  from valid_number_digits [OF all_digits_dec_nat z this]
  show "valid_number (dec_nat n)" "valid_number (CHR ''-'' # dec_nat n)" by simp_all
qed

lemma number_chars_dec_nat [simp]: "list_all is_number_char (dec_nat n)"
  using all_digits_dec_nat [of n] by (simp add: all_digits_def digits_number_chars)

lemma json_wf_dec [simp]: "json_wf (JNum (dec_nat n))" "json_wf (JNum (dec_int i))"
  by (simp_all add: dec_int_def valid_number_dec_nat)

text \<open>Both notations of a shortest decimal follow the number grammar.\<close>

definition number_text :: "string \<Rightarrow> bool" where
  "number_text s \<longleftrightarrow> valid_number s \<and> valid_number (CHR ''-'' # s) \<and> list_all is_number_char s"

lemma number_text_digits: "number_text (dec_nat n)"
  by (simp add: number_text_def valid_number_dec_nat)

lemma dec_nat_no_zero: "0 < d \<Longrightarrow> hd (dec_nat d) \<noteq> CHR ''0''"
  using dec_nat_head by blast

lemma number_text_fraction:
  assumes "all_digits ip" and "hd ip = CHR ''0'' \<Longrightarrow> tl ip = []" and "all_digits fs"
  shows "number_text (ip @ ''.'' @ fs)"
proof -
  have fs: "fs \<noteq> []" "list_all is_digit fs" using assms(3) by (simp_all add: all_digits_def)
  then have "takeWhile is_digit fs \<noteq> []" "dropWhile is_digit fs = []"
    using takeWhile_digits [of fs "[]"] by (metis append_Nil2)+
  then have "valid_fraction (''.'' @ fs)"
    by (simp add: valid_fraction_def valid_exponent_def)
  from valid_number_digits [OF assms(1,2) this]
  have "valid_number (ip @ ''.'' @ fs)" "valid_number (CHR ''-'' # ip @ ''.'' @ fs)" by simp_all
  then show ?thesis
    using assms(1,3) by (simp add: number_text_def all_digits_def digits_number_chars)
qed

lemma number_text_scientific: "0 < d \<Longrightarrow> number_text (scientific_text d k)"
proof -
  assume d: "0 < d"
  define ds where "ds = dec_nat d"
  have ds: "list_all is_digit ds" "ds \<noteq> []" "hd ds \<noteq> CHR ''0''"
    using all_digits_dec_nat [of d] dec_nat_no_zero [OF d] by (simp_all add: ds_def all_digits_def)
  then obtain c cs where c: "ds = c # cs" "is_digit c" "list_all is_digit cs" "c \<noteq> CHR ''0''"
    by (cases ds) auto
  define e where "e = k + int (length ds) - 1"
  define pd where "pd = dec_padded 2 \<bar>e\<bar>"
  define expo where "expo = CHR ''e'' # (if e < 0 then CHR ''-'' else CHR ''+'') # pd"
  have "\<bar>e\<bar> = int (nat \<bar>e\<bar>)" by simp
  then have pd: "all_digits pd"
    using dec_padded_digits [of 2 "nat \<bar>e\<bar>"] unfolding pd_def all_digits_def list_all_iff
    by (metis append_is_Nil_conv dec_nat_not_Nil dec_padded_nat)
  then have "strip_prefix_char ''+-'' (tl expo) = pd" by (simp add: expo_def)
  with pd have ex: "valid_exponent expo" by (simp add: valid_exponent_def expo_def)
  have ec: "list_all is_number_char expo"
    using pd by (simp add: expo_def all_digits_def digits_number_chars)
  define frac where "frac = (if cs = [] then expo else CHR ''.'' # cs @ expo)"
  have "takeWhile is_digit (cs @ expo) = cs" "dropWhile is_digit (cs @ expo) = expo"
    using takeWhile_digits [OF c(3), of expo] by (auto simp: expo_def)
  then have fr: "valid_fraction frac"
    using ex by (auto simp: frac_def valid_fraction_def expo_def)
  have fc: "list_all is_number_char frac"
    using ec c(3) by (simp add: frac_def digits_number_chars)
  have nd: "\<not> is_digit (hd frac)" by (simp add: frac_def expo_def)
  have "scientific_text d k = [c] @ frac"
    unfolding scientific_text_def Let_def ds_def [symmetric] e_def [symmetric] pd_def [symmetric]
    by (simp add: c(1) frac_def expo_def)
  moreover have "all_digits [c]" using c(2) by (simp add: all_digits_def)
  ultimately show ?thesis
    using valid_number_digits [of "[c]" frac] c(2) fr fc nd
    by (simp add: number_text_def is_number_char_def)
qed

lemma number_text_fixed: "0 < d \<Longrightarrow> number_text (fixed_text m q d k)"
proof -
  assume d: "0 < d"
  define ds where "ds = dec_nat d"
  have ds: "list_all is_digit ds" "ds \<noteq> []" "hd ds \<noteq> CHR ''0''"
    using all_digits_dec_nat [of d] dec_nat_no_zero [OF d] by (simp_all add: ds_def all_digits_def)
  define p where "p = nat (- k)"
  have split: "number_text (take (length ds - p) ds @ ''.'' @ drop (length ds - p) ds)"
    if "k < 0" "p < length ds"
  proof (rule number_text_fraction)
    have "0 < p" using that(1) by (simp add: p_def)
    then show "all_digits (take (length ds - p) ds)" "all_digits (drop (length ds - p) ds)"
      using ds that(2) by (auto simp: all_digits_def list_all_iff dest: in_set_takeD in_set_dropD)
    show "hd (take (length ds - p) ds) = CHR ''0'' \<Longrightarrow> tl (take (length ds - p) ds) = []"
      using ds that(2) by simp
  qed
  have small: "number_text (''0'' @ ''.'' @ replicate (p - length ds) (CHR ''0'') @ ds)"
    by (rule number_text_fraction) (use ds in \<open>auto simp: all_digits_def list_all_iff\<close>)
  show ?thesis
    using split small number_text_digits [of d] number_text_digits [of "m * 2 ^ nat q div 2 ^ nat (- q)"]
    by (auto simp: fixed_text_def Let_def ds_def [symmetric] p_def [symmetric])
qed

lemma json_wf_double: "json_wf (JNum (double_text b))"
proof -
  have "number_text (magnitude_text m q)" for m q
    using number_text_digits [of 0] shortest_from_pos [of 633 m q]
    by (auto simp: magnitude_text_def shortest_digits_def dec_nat.simps [of 0] cpp_string Let_def
        number_text_scientific number_text_fixed split: prod.splits)
  then show ?thesis by (auto simp: double_text_def number_text_def)
qed

lemma json_wf_value [simp]: "json_wf (value_json v)"
  using json_wf_double by (cases v) (simp_all add: value_json_def del: json_wf.simps, simp_all)

section \<open>The serializer writes the text of the tree\<close>

lemma byte_eq_iff: "n < 256 \<Longrightarrow> (of_nat (char_code c) :: u8) = of_nat n \<longleftrightarrow> char_code c = n"
  using char_code_less [of c] by (simp add: word_unat_eq_iff unat_of_nat)

lemma char_code_literals:
  "char_code c = 34 \<longleftrightarrow> c = dquote" "char_code c = 92 \<longleftrightarrow> c = backslash"
  "char_code c = 8 \<longleftrightarrow> c = CHR 0x08" "char_code c = 12 \<longleftrightarrow> c = CHR 0x0C"
  "char_code c = 10 \<longleftrightarrow> c = newline" "char_code c = 13 \<longleftrightarrow> c = carriage_return"
  "char_code c = 9 \<longleftrightarrow> c = CHR 0x09"
  using char_code_inject [of c dquote] char_code_inject [of c backslash]
    char_code_inject [of c "CHR 0x08"] char_code_inject [of c "CHR 0x0C"]
    char_code_inject [of c newline] char_code_inject [of c carriage_return]
    char_code_inject [of c "CHR 0x09"]
  by (simp_all add: char_code_def)

lemma byte_nibbles:
  "unat (drop_bit 4 (of_nat (char_code c) :: u8) AND 0x0F) = char_code c div 16"
  "unat ((of_nat (char_code c) :: u8) AND 0x0F) = char_code c mod 16"
proof -
  have m: "(x :: u8) AND 0x0F = take_bit 4 x" for x
    by (simp add: take_bit_eq_mask mask_eq_exp_minus_1)
  have u: "unat (of_nat (char_code c) :: u8) = char_code c"
    using char_code_less [of c] by (simp add: unat_of_nat)
  show "unat (drop_bit 4 (of_nat (char_code c) :: u8) AND 0x0F) = char_code c div 16"
    unfolding m unsigned_take_bit_eq unsigned_drop_bit_eq u
    using char_code_less [of c] by (simp add: drop_bit_eq_div take_bit_eq_mod)
  show "unat ((of_nat (char_code c) :: u8) AND 0x0F) = char_code c mod 16"
    unfolding m unsigned_take_bit_eq u by (simp add: take_bit_eq_mod)
qed

lemma kHexDigits_hex_digit: "n < 16 \<Longrightarrow> kHexDigits ! n = hex_digit n"
  by (simp add: kHexDigits_def hex_digit_def)

lemma byte_less_32: "(of_nat (char_code c) :: u8) < 0x20 \<longleftrightarrow> char_code c < 32"
  using char_code_less [of c] by (simp add: word_less_nat_alt unat_of_nat)

lemma append_json_escaped_eq: "append_json_escaped s out = out @ escaped s"
proof (induction s arbitrary: out)
  case (Cons c s)
  have "append_json_escaped (c # s) out = append_json_escaped s (out @ escape_byte c)"
    using byte_eq_iff [of 34 c] byte_eq_iff [of 92 c] byte_eq_iff [of 8 c] byte_eq_iff [of 12 c]
      byte_eq_iff [of 10 c] byte_eq_iff [of 13 c] byte_eq_iff [of 9 c]
    by (simp add: escape_byte_def char_code_literals byte_less_32 byte_nibbles
        kHexDigits_hex_digit Let_def)
  also have "\<dots> = out @ escaped (c # s)" by (simp add: Cons.IH escaped_def)
  finally show ?case .
qed simp

lemma append_json_string_eq [simp]: "append_json_string s out = out @ quoted s"
  by (simp add: append_json_string_def append_json_escaped_eq quoted_def)

lemma append_field_value_eq [simp]:
  "append_field_value_json v out = out @ json_text (value_json v)"
  by (cases v) (simp_all add: append_field_value_json_def value_json_def to_chars_double_def)

lemma comma_separated_snoc:
  "comma_separated (ts @ [t]) = (if ts = [] then t else comma_separated ts @ '','' @ t)"
  by (induction ts rule: comma_separated.induct) simp_all

text \<open>The state of the lambdas after writing some members of an object.\<close>

definition written :: "string \<Rightarrow> (bytes \<times> json) list \<Rightarrow> string \<times> bool" where
  "written out ms = (out @ ''{'' @ comma_separated (map member_text ms), ms = [])"

lemma written_start: "(out @ ''{'', True) = written out []"
  by (simp add: written_def)

lemma written_close: "fst (written out ms) @ ''}'' = out @ json_text (JObj ms)"
  by (simp add: written_def case_prod_unfold)

lemma append_field_written: "append_field f (written out ms) = written out (ms @ [field_member f])"
  by (simp add: append_field_def written_def field_member_def comma_separated_snoc Let_def)

lemma append_fields_object_eq [simp]:
  "append_fields_object fs out = out @ json_text (JObj (map field_member fs))"
proof -
  have "fold append_field fs (written out ms) = written out (ms @ map field_member fs)" for ms
    by (induction fs arbitrary: ms) (simp_all add: append_field_written)
  then have "fold append_field fs (written out []) = written out (map field_member fs)" by simp
  then show ?thesis unfolding append_fields_object_def written_start by (simp only: written_close)
qed

lemma append_named_written:
  "append_named_string k s (written out ms) = written out (ms @ [(k, JStr s)])"
  "append_named_number k n (written out ms) = written out (ms @ [(k, JNum (dec_nat n))])"
  "append_named_object k fs (written out ms) = written out (ms @ [(k, JObj (map field_member fs))])"
  by (simp_all add: append_named_string_def append_named_number_def append_named_object_def
      append_separator_def written_def comma_separated_snoc del: json_text.simps(6))

lemma append_optional_written:
  "append_optional k v (written out ms) = written out (ms @ optional_member k v)"
  by (cases v) (simp_all add: append_optional_def optional_member_def append_named_written)

theorem to_json_event_text: "to_json_event event = json_text (event_json event)"
proof -
  have "to_json_event event = fst (written [] (case event_json event of JObj ms \<Rightarrow> ms)) @ ''}''"
    using written_start [of "[]"]
    by (cases "location event")
      (simp_all add: to_json_event_def append_location_def append_named_written
        append_optional_written event_json_def Let_def)
  then show ?thesis unfolding written_close by (simp add: event_json_def)
qed

lemma json_wf_event [simp]: "json_wf (event_json event)"
  by (auto simp: event_json_def optional_member_def field_member_def split: option.splits
      simp del: json_wf.simps(1))

section \<open>Line framing\<close>

lemma number_char_printable: "is_number_char c \<Longrightarrow> 32 \<le> char_code c"
  by (auto simp: is_number_char_def is_digit_def char_code_def)

lemma comma_separated_chars:
  "c \<in> set (comma_separated ts) \<Longrightarrow> c = CHR '','' \<or> (\<exists>t \<in> set ts. c \<in> set t)"
  by (induction ts rule: comma_separated.induct) auto

lemma quoted_printable: "c \<in> set (quoted s) \<Longrightarrow> 32 \<le> char_code c"
  by (auto simp: quoted_def char_code_def dest: escaped_printable [unfolded char_code_def])

lemma punctuation_printable:
  "32 \<le> char_code (CHR '','')" "32 \<le> char_code (CHR '':'')" "32 \<le> char_code (CHR ''{'')"
  "32 \<le> char_code (CHR ''}'')" "32 \<le> char_code (CHR ''['')" "32 \<le> char_code (CHR '']'')"
  by (simp_all add: char_code_def)

lemma json_text_printable: "json_wf j \<Longrightarrow> c \<in> set (json_text j) \<Longrightarrow> 32 \<le> char_code c"
proof (induction j)
  case (JArr vs)
  then show ?case
    using punctuation_printable by (auto dest!: comma_separated_chars)
next
  case (JObj ms)
  from JObj.prems(2) consider "c = CHR ''{''" | "c = CHR ''}''" | "c = CHR '',''" | "c = CHR '':''"
    | k v where "(k, v) \<in> set ms" "c \<in> set (quoted k)"
    | k v where "(k, v) \<in> set ms" "c \<in> set (json_text v)"
    by (auto dest!: comma_separated_chars)
  then show ?case
  proof cases
    case (6 k v)
    with JObj.prems(1) have "json_wf v" by auto
    with 6 JObj.IH [of "(k, v)" v] show ?thesis by (simp add: snds.simps)
  qed (simp_all add: punctuation_printable quoted_printable)
qed (auto simp: char_code_def list_all_iff dest: number_char_printable [unfolded char_code_def]
       quoted_printable [unfolded char_code_def] split: if_splits)

lemma newline_not_printable: "\<not> 32 \<le> char_code newline"
  by (simp add: char_code_def)

lemma newline_not_in_json_text: "json_wf j \<Longrightarrow> newline \<notin> set (json_text j)"
  using json_text_printable newline_not_printable by blast

section \<open>Properties\<close>

text \<open>
  C4. The JSON record of any event parses, and to exactly the event's data: every field in
  order with its key and typed value, strings byte for byte whatever they contain, the
  location and identifiers present precisely when the event has them.
\<close>

theorem to_json_event_parses: "parse_json (to_json_event event) = Some (event_json event)"
  unfolding to_json_event_text by (rule parse_json_text) (rule json_wf_event)

text \<open>
  C16. JSON-lines framing is unambiguous: splitting the concatenated records of any events at
  their newline characters gives back the record of each event, in order, so no message,
  key or value can break or forge a line.
\<close>

theorem json_lines_framing:
  "complete_lines [] (concat (map to_json_lines_record events)) = map to_json_event events"
proof -
  have "map to_json_lines_record events = map (\<lambda>l. l @ [newline]) (map to_json_event events)"
    by (simp add: to_json_lines_record_def)
  moreover have "\<forall>l \<in> set (map to_json_event events). newline \<notin> set l"
    by (auto simp: to_json_event_text newline_not_in_json_text)
  ultimately show ?thesis by (metis complete_lines_concat)
qed

end
