(* ===== verification/Mdc.thy ===== *)
theory Mdc
  imports Event
begin

text \<open>
  The mapped diagnostic context: \<^verbatim>\<open>include/logspine/mdc.hpp\<close> and \<^verbatim>\<open>src/mdc.cpp\<close>. The
  thread-local vector is a list of fields; every operation acts on the calling thread's list.
  The locale \<open>keyed_context\<close> is the contract of such a context, interpreted here on the code's
  operations; scoped entries are its client.
\<close>

section \<open>Operations\<close>

text \<open>The loop of \<^verbatim>\<open>mdc::put\<close>: overwrite the first field with the key, else append.\<close>

fun mdc_put :: "bytes \<Rightarrow> field_value \<Rightarrow> field list \<Rightarrow> field list" where
  "mdc_put key v [] = [mk_field key v]"
| "mdc_put key v (f # fs) = (if fkey f = key then mk_field key v # fs else f # mdc_put key v fs)"

text \<open>\<^verbatim>\<open>std::remove_if\<close> followed by \<^verbatim>\<open>erase\<close> of the tail.\<close>

definition mdc_remove :: "bytes \<Rightarrow> field list \<Rightarrow> field list" where
  "mdc_remove key fs = filter (\<lambda>f. fkey f \<noteq> key) fs"

definition mdc_clear :: "field list \<Rightarrow> field list" where
  "mdc_clear fs = []"

definition mdc_get_all :: "field list \<Rightarrow> field list" where
  "mdc_get_all fs = fs"

text \<open>Constructor and destructor of \<^verbatim>\<open>scoped_mdc\<close>.\<close>

definition scoped_mdc_enter :: "bytes \<Rightarrow> field_value \<Rightarrow> field list \<Rightarrow> field list" where
  "scoped_mdc_enter key v fs = mdc_put key v fs"

definition scoped_mdc_exit :: "bytes \<Rightarrow> field list \<Rightarrow> field list" where
  "scoped_mdc_exit key fs = mdc_remove key fs"

text \<open>The context as a finite map, and its invariant: one field per key.\<close>

definition mdc_lookup :: "field list \<Rightarrow> bytes \<Rightarrow> field_value option" where
  "mdc_lookup fs = map_of (map (\<lambda>f. (fkey f, fvalue f)) fs)"

definition mdc_inv :: "field list \<Rightarrow> bool" where
  "mdc_inv fs \<longleftrightarrow> distinct (map fkey fs)"

section \<open>The contract of a keyed context\<close>

locale keyed_context =
  fixes empty :: "'c"
    and put :: "'k \<Rightarrow> 'v \<Rightarrow> 'c \<Rightarrow> 'c"
    and remove :: "'k \<Rightarrow> 'c \<Rightarrow> 'c"
    and lookup :: "'c \<Rightarrow> 'k \<Rightarrow> 'v option"
    and inv :: "'c \<Rightarrow> bool"
  assumes lookup_empty: "lookup empty = (\<lambda>_. None)"
    and lookup_put: "inv c \<Longrightarrow> lookup (put k v c) = (lookup c)(k \<mapsto> v)"
    and lookup_remove: "inv c \<Longrightarrow> lookup (remove k c) = (lookup c)(k := None)"
    and inv_empty: "inv empty"
    and inv_put: "inv c \<Longrightarrow> inv (put k v c)"
    and inv_remove: "inv c \<Longrightarrow> inv (remove k c)"
begin

text \<open>A scope sets a key for its extent and removes it at its end.\<close>

lemma scope_effect:
  "inv c \<Longrightarrow> lookup (remove k (put k v c)) = (lookup c)(k := None)"
  by (simp add: lookup_put lookup_remove inv_put)

lemma scope_restores:
  "inv c \<Longrightarrow> lookup c k = None \<Longrightarrow> lookup (remove k (put k v c)) = lookup c"
  by (simp add: scope_effect fun_upd_idem)

lemma put_shadows: "inv c \<Longrightarrow> lookup (put k w (put k v c)) = lookup (put k w c)"
  by (simp add: lookup_put inv_put)

lemma put_commutes:
  "inv c \<Longrightarrow> k \<noteq> l \<Longrightarrow> lookup (put k v (put l w c)) = lookup (put l w (put k v c))"
  by (simp add: lookup_put inv_put fun_upd_twist)

end

lemma fkey_mdc_put:
  "map fkey (mdc_put k v fs) = (if k \<in> fkey ` set fs then map fkey fs else map fkey fs @ [k])"
  by (induction fs) auto

lemma mdc_lookup_put: "mdc_lookup (mdc_put k v fs) = (mdc_lookup fs)(k \<mapsto> v)"
  by (induction fs) (auto simp: mdc_lookup_def fun_eq_iff)

lemma mdc_lookup_remove: "mdc_lookup (mdc_remove k fs) = (mdc_lookup fs)(k := None)"
  by (induction fs) (auto simp: mdc_lookup_def mdc_remove_def fun_eq_iff)

lemma mdc_inv_remove: "mdc_inv fs \<Longrightarrow> mdc_inv (mdc_remove k fs)"
  by (induction fs) (auto simp: mdc_inv_def mdc_remove_def)

interpretation mdc: keyed_context "[]" mdc_put mdc_remove mdc_lookup mdc_inv
proof unfold_locales
  show "mdc_lookup [] = (\<lambda>_. None)" by (simp add: mdc_lookup_def fun_eq_iff)
  show "mdc_inv []" by (simp add: mdc_inv_def)
  fix c k v
  assume "mdc_inv c"
  then show "mdc_inv (mdc_put k v c)" by (auto simp: mdc_inv_def fkey_mdc_put)
  from \<open>mdc_inv c\<close> show "mdc_inv (mdc_remove k c)" by (rule mdc_inv_remove)
qed (simp_all add: mdc_lookup_put mdc_lookup_remove)

section \<open>Programs over the context\<close>

text \<open>
  What one thread does to its context: direct calls, and blocks that open with a
  \<^verbatim>\<open>scoped_mdc\<close>. The result is the context after the block and the snapshots that
  \<^verbatim>\<open>get_all\<close> returned along the way.
\<close>

datatype mdc_command =
    Put bytes field_value
  | Remove bytes
  | Clear
  | Get_all
  | Scoped bytes field_value "mdc_command list"

fun run_command :: "mdc_command \<Rightarrow> field list \<Rightarrow> field list \<times> field list list"
  and run_commands :: "mdc_command list \<Rightarrow> field list \<Rightarrow> field list \<times> field list list" where
  "run_command (Put k v) fs = (mdc_put k v fs, [])"
| "run_command (Remove k) fs = (mdc_remove k fs, [])"
| "run_command Clear fs = (mdc_clear fs, [])"
| "run_command Get_all fs = (fs, [mdc_get_all fs])"
| "run_command (Scoped k v cs) fs =
     (case run_commands cs (scoped_mdc_enter k v fs) of
        (fs', snaps) \<Rightarrow> (scoped_mdc_exit k fs', snaps))"
| "run_commands [] fs = (fs, [])"
| "run_commands (c # cs) fs =
     (case run_command c fs of (fs', snaps) \<Rightarrow>
        (case run_commands cs fs' of (fs'', snaps') \<Rightarrow> (fs'', snaps @ snaps')))"

text \<open>
  Programs that only read and open scopes, each over a key that is free where it opens.
\<close>

fun scoped_fresh :: "bytes set \<Rightarrow> mdc_command \<Rightarrow> bool" where
  "scoped_fresh ks Get_all = True"
| "scoped_fresh ks (Scoped k v cs) = (k \<notin> ks \<and> (\<forall>c \<in> set cs. scoped_fresh (insert k ks) c))"
| "scoped_fresh ks _ = False"

section \<open>Properties\<close>

lemma mdc_put_fresh: "k \<notin> fkey ` set fs \<Longrightarrow> mdc_put k v fs = fs @ [mk_field k v]"
  by (induction fs) auto

lemma mdc_remove_fresh: "k \<notin> fkey ` set fs \<Longrightarrow> mdc_remove k (fs @ [mk_field k v]) = fs"
  by (auto simp: mdc_remove_def filter_id_conv)

lemma scoped_restores_aux:
  "scoped_fresh (fkey ` set fs) c \<Longrightarrow> fst (run_command c fs) = fs"
  "\<forall>c \<in> set cs. scoped_fresh (fkey ` set fs) c \<Longrightarrow> fst (run_commands cs fs) = fs"
proof (induction c fs and cs fs rule: run_command_run_commands.induct)
  case (5 k v cs fs)
  then have k: "k \<notin> fkey ` set fs" by simp
  have "fst (run_commands cs (fs @ [mk_field k v])) = fs @ [mk_field k v]"
    using "5.IH" "5.prems" k by (simp add: scoped_mdc_enter_def mdc_put_fresh)
  with k show ?case
    by (simp add: scoped_mdc_enter_def scoped_mdc_exit_def mdc_put_fresh mdc_remove_fresh
        case_prod_unfold)
next
  case (7 c cs fs)
  then show ?case by (auto split: prod.splits)
qed simp_all

text \<open>
  C33. Scoped entries are balanced: a block that only reads the context and opens scopes on keys
  that are free where they open, nested to any depth, leaves the thread's context exactly as it
  found it, in content and in order.
\<close>

theorem scoped_mdc_balanced:
  assumes "\<forall>c \<in> set cs. scoped_fresh (fkey ` set fs) c"
  shows "fst (run_commands cs fs) = fs"
  using assms by (rule scoped_restores_aux(2))

theorem scoped_mdc_balanced_witness:
  "fst (run_commands
     [Scoped ''request'' (VUInt 7) [Get_all, Scoped ''user'' VNull [Get_all]], Get_all]
     [mk_field ''host'' (VBool True)]) = [mk_field ''host'' (VBool True)]"
  by (rule scoped_mdc_balanced) simp

text \<open>
  The context is a map with one field per key: after any program, the keys are distinct
  when they were before, and a put is seen by the next lookup of its key and of no other.
\<close>

lemma run_command_inv:
  "mdc_inv fs \<Longrightarrow> mdc_inv (fst (run_command c fs))"
  "mdc_inv fs \<Longrightarrow> mdc_inv (fst (run_commands cs fs))"
proof (induction c fs and cs fs rule: run_command_run_commands.induct)
  case (5 k v cs fs)
  then show ?case
    by (auto simp: scoped_mdc_enter_def scoped_mdc_exit_def mdc.inv_put mdc.inv_remove
        split: prod.splits)
qed (auto simp: mdc.inv_put mdc.inv_remove mdc.inv_empty mdc_clear_def split: prod.splits)

theorem mdc_program_is_map:
  assumes "mdc_inv fs" and "run_commands cs fs = (fs', snaps)"
  shows "mdc_inv fs' \<and> mdc_lookup (mdc_put k v fs') l = (if l = k then Some v else mdc_lookup fs' l)"
proof -
  from assms have inv: "mdc_inv fs'" using run_command_inv(2) [of fs cs] by simp
  then show ?thesis by (simp add: mdc.lookup_put)
qed

theorem mdc_program_is_map_witness:
  "mdc_inv [mk_field ''a'' VNull] \<and>
   mdc_lookup (mdc_put ''b'' (VBool True) [mk_field ''a'' VNull]) ''a'' = Some VNull"
  using mdc_program_is_map [of "[]" "[Put ''a'' VNull]" "[mk_field ''a'' VNull]" "[]"
      "''b''" "VBool True" "''a''"]
  by (simp add: mdc_inv_def mdc_lookup_def)

text \<open>
  A scope on a key the context already holds does not restore the outer value: when it
  ends, the key is gone. Only the outer field with that key is affected.
\<close>

theorem scoped_mdc_shadow_loses_outer:
  assumes "mdc_inv fs" and "mdc_lookup fs k = Some w"
  shows "mdc_lookup (fst (run_command (Scoped k v []) fs)) = (mdc_lookup fs)(k := None)"
  using assms mdc.scope_effect by (simp add: scoped_mdc_enter_def scoped_mdc_exit_def)

theorem scoped_mdc_shadow_loses_outer_witness:
  "mdc_lookup [mk_field ''id'' (VUInt 1)] ''id'' = Some (VUInt 1) \<and>
   mdc_lookup (fst (run_command (Scoped ''id'' (VUInt 2) []) [mk_field ''id'' (VUInt 1)])) ''id'' = None"
proof -
  have h: "mdc_inv [mk_field ''id'' (VUInt 1)]"
    "mdc_lookup [mk_field ''id'' (VUInt 1)] ''id'' = Some (VUInt 1)"
    by (simp_all add: mdc_inv_def mdc_lookup_def)
  show ?thesis using h(2) scoped_mdc_shadow_loses_outer [OF h, of "VUInt 2"] by simp
qed

end
