(* ===== verification/Logger.thy ===== *)
theory Logger
  imports Mdc
begin

text \<open>
  The facade: \<^verbatim>\<open>include/logspine/logger.hpp\<close>, \<^verbatim>\<open>src/logger.cpp\<close> and the macros of
  \<^verbatim>\<open>include/logspine/logspine.hpp\<close>. A logger forwards to a shared dispatcher, whose state is
  the type variable \<open>'d\<close> and whose virtual \<^verbatim>\<open>dispatch\<close> is the function \<open>disp\<close>. The calling
  thread contributes its diagnostic context, its id and the clock reading, the record \<open>caller\<close>.
\<close>

record logger =
  lg_name :: bytes
  lg_minimum_level :: level

record caller =
  call_mdc :: "field list"
  call_thread :: u64
  call_now :: int

definition new_logger :: "bytes \<Rightarrow> level \<Rightarrow> logger" where
  "new_logger name minimum_level = \<lparr>lg_name = name, lg_minimum_level = minimum_level\<rparr>"

lemma new_logger_fields [simp]:
  "lg_name (new_logger name v) = name" "lg_minimum_level (new_logger name v) = v"
  by (simp_all add: new_logger_def)

definition logger_name_of :: "logger \<Rightarrow> bytes" where
  "logger_name_of lg = lg_name lg"

definition logger_minimum_level :: "logger \<Rightarrow> level" where
  "logger_minimum_level lg = lg_minimum_level lg"

definition logger_enabled :: "logger \<Rightarrow> level \<Rightarrow> bool" where
  "logger_enabled lg v = is_enabled_for (lg_minimum_level lg) v"

definition logger_set_level :: "level \<Rightarrow> logger \<Rightarrow> logger" where
  "logger_set_level v lg = lg\<lparr>lg_minimum_level := v\<rparr>"

text \<open>\<^verbatim>\<open>flush\<close> is the dispatcher's, given as \<open>fl\<close>.\<close>

definition logger_flush :: "('d \<Rightarrow> 'd) \<Rightarrow> logger \<Rightarrow> 'd \<Rightarrow> 'd" where
  "logger_flush fl lg d = fl d"

section \<open>Building and dispatching an event\<close>

definition max_message_length :: nat where "max_message_length = 32768"
definition max_fields_count :: nat where "max_fields_count = 64"

definition truncate_message :: "bytes \<Rightarrow> bytes" where
  "truncate_message m =
     (if length m > max_message_length then take max_message_length m @ ''... [truncated]'' else m)"

definition limit_fields :: "field list \<Rightarrow> field list" where
  "limit_fields fs =
     (if length fs > max_fields_count
      then take max_fields_count fs @ [kv ''_truncated_fields'' (Arg_bool True)] else fs)"

definition build_event ::
  "logger \<Rightarrow> caller \<Rightarrow> level \<Rightarrow> bytes \<Rightarrow> field list \<Rightarrow> source_location \<Rightarrow> log_event" where
  "build_event lg c sev msg fs loc =
     (let event = default_event (call_now c) (call_thread c);
          event = event\<lparr>severity := sev, logger_name := lg_name lg\<rparr>;
          event = event\<lparr>message := truncate_message msg\<rparr>;
          mdc_fields = mdc_get_all (call_mdc c);
          fs = (if mdc_fields \<noteq> [] then fs @ mdc_fields else fs);
          event = event\<lparr>event_fields := limit_fields fs\<rparr>
      in event\<lparr>timestamp := call_now c, thread_id := call_thread c, location := Some loc\<rparr>)"

definition logger_dispatch ::
  "(log_event \<Rightarrow> 'd \<Rightarrow> 'd) \<Rightarrow> logger \<Rightarrow> caller \<Rightarrow> level \<Rightarrow> bytes \<Rightarrow> field list \<Rightarrow> source_location
     \<Rightarrow> 'd \<Rightarrow> 'd" where
  "logger_dispatch disp lg c sev msg fs loc d = disp (build_event lg c sev msg fs loc) d"

text \<open>The three overloads of \<^verbatim>\<open>log\<close>; the last two differ only in how the fields are passed.\<close>

definition logger_log ::
  "(log_event \<Rightarrow> 'd \<Rightarrow> 'd) \<Rightarrow> logger \<Rightarrow> caller \<Rightarrow> level \<Rightarrow> bytes \<Rightarrow> source_location \<Rightarrow> 'd \<Rightarrow> 'd"
where
  "logger_log disp lg c sev msg loc d =
     (if \<not> logger_enabled lg sev then d else logger_dispatch disp lg c sev msg [] loc d)"

definition logger_log_fields ::
  "(log_event \<Rightarrow> 'd \<Rightarrow> 'd) \<Rightarrow> logger \<Rightarrow> caller \<Rightarrow> level \<Rightarrow> bytes \<Rightarrow> field list \<Rightarrow> source_location
     \<Rightarrow> 'd \<Rightarrow> 'd" where
  "logger_log_fields disp lg c sev msg fs loc d =
     (if \<not> logger_enabled lg sev then d else logger_dispatch disp lg c sev msg fs loc d)"

text \<open>\<^verbatim>\<open>trace\<close> to \<^verbatim>\<open>fatal\<close>, with and without fields.\<close>

definition log_trace where "log_trace disp lg c = logger_log disp lg c Trace"
definition log_debug where "log_debug disp lg c = logger_log disp lg c Debug"
definition log_info where "log_info disp lg c = logger_log disp lg c Info"
definition log_warn where "log_warn disp lg c = logger_log disp lg c Warn"
definition log_error where "log_error disp lg c = logger_log disp lg c Error"
definition log_fatal where "log_fatal disp lg c = logger_log disp lg c Fatal"

definition log_trace_fields where "log_trace_fields disp lg c = logger_log_fields disp lg c Trace"
definition log_debug_fields where "log_debug_fields disp lg c = logger_log_fields disp lg c Debug"
definition log_info_fields where "log_info_fields disp lg c = logger_log_fields disp lg c Info"
definition log_warn_fields where "log_warn_fields disp lg c = logger_log_fields disp lg c Warn"
definition log_error_fields where "log_error_fields disp lg c = logger_log_fields disp lg c Error"
definition log_fatal_fields where "log_fatal_fields disp lg c = logger_log_fields disp lg c Fatal"

section \<open>The macros\<close>

text \<open>
  The arguments of a logging macro are expressions of the caller, evaluated in its own state
  \<open>'a\<close> with their side effects. They are a plain message, fields after a message, or arguments
  of a format string, whose text \<^verbatim>\<open>std::format\<close> computes.
\<close>

datatype 'a macro_args =
    Args_none
  | Args_fields "'a \<Rightarrow> field list \<times> 'a"
  | Args_format "'a \<Rightarrow> bytes \<times> 'a"

definition log_macro_dispatch ::
  "(log_event \<Rightarrow> 'd \<Rightarrow> 'd) \<Rightarrow> logger \<Rightarrow> caller \<Rightarrow> level \<Rightarrow> source_location \<Rightarrow> bytes
     \<Rightarrow> bytes + field list \<Rightarrow> 'd \<Rightarrow> 'd" where
  "log_macro_dispatch disp lg c sev loc msg args d =
     (if logger_enabled lg sev
      then (case args of
              Inl formatted \<Rightarrow> logger_dispatch disp lg c sev formatted [] loc d
            | Inr fs \<Rightarrow> logger_dispatch disp lg c sev msg fs loc d)
      else d)"

text \<open>\<^verbatim>\<open>LOGSPINE_DETAIL_LOG\<close>: the arguments are evaluated under the level check.\<close>

definition logspine_detail_log ::
  "(log_event \<Rightarrow> 'd \<Rightarrow> 'd) \<Rightarrow> logger \<Rightarrow> caller \<Rightarrow> level \<Rightarrow> source_location \<Rightarrow> bytes
     \<Rightarrow> 'a macro_args \<Rightarrow> 'a \<times> 'd \<Rightarrow> 'a \<times> 'd" where
  "logspine_detail_log disp lg c sev loc msg args st =
     (case st of (a, d) \<Rightarrow>
        if logger_enabled lg sev
        then (case args of
                Args_none \<Rightarrow> (a, log_macro_dispatch disp lg c sev loc msg (Inr []) d)
              | Args_fields ev \<Rightarrow>
                  (case ev a of (fs, a') \<Rightarrow> (a', log_macro_dispatch disp lg c sev loc msg (Inr fs) d))
              | Args_format ev \<Rightarrow>
                  (case ev a of (t, a') \<Rightarrow> (a', log_macro_dispatch disp lg c sev loc msg (Inl t) d)))
        else (a, d))"

text \<open>The macros of the six levels.\<close>

definition logspine_trace where "logspine_trace disp lg c = logspine_detail_log disp lg c Trace"
definition logspine_debug where "logspine_debug disp lg c = logspine_detail_log disp lg c Debug"
definition logspine_info where "logspine_info disp lg c = logspine_detail_log disp lg c Info"
definition logspine_warn where "logspine_warn disp lg c = logspine_detail_log disp lg c Warn"
definition logspine_error where "logspine_error disp lg c = logspine_detail_log disp lg c Error"
definition logspine_fatal where "logspine_fatal disp lg c = logspine_detail_log disp lg c Fatal"

section \<open>Properties\<close>

lemma length_truncate_message: "length (truncate_message m) \<le> max_message_length + 15"
  by (simp add: truncate_message_def)

lemma length_limit_fields: "length (limit_fields fs) \<le> max_fields_count + 1"
  by (simp add: limit_fields_def)

lemma build_event_fields:
  "event_fields (build_event lg c sev msg fs loc) = limit_fields (fs @ call_mdc c)"
  "message (build_event lg c sev msg fs loc) = truncate_message msg"
  "severity (build_event lg c sev msg fs loc) = sev"
  "logger_name (build_event lg c sev msg fs loc) = lg_name lg"
  "location (build_event lg c sev msg fs loc) = Some loc"
  "timestamp (build_event lg c sev msg fs loc) = call_now c"
  "thread_id (build_event lg c sev msg fs loc) = call_thread c"
  by (simp_all add: build_event_def default_event_def mdc_get_all_def Let_def)

lemma logger_enabled_iff:
  "logger_enabled lg v \<longleftrightarrow> lg_minimum_level lg \<noteq> Off \<and> v \<noteq> Off \<and> lg_minimum_level lg \<le> v"
  by (auto simp: logger_enabled_def is_enabled_for_def less_eq_level_def)

text \<open>
  C26. What a logger hands to its dispatcher is bounded whatever the caller passes: a message of
  at most 32768 bytes plus a marker, at most 64 fields plus a marker. Within the limits nothing
  is changed: the message is the caller's, the fields are the caller's followed by the thread's
  diagnostic context; beyond them the kept part is the leading part.
\<close>

theorem build_event_bounded:
  "let event = build_event lg c sev msg fs loc in
     length (message event) \<le> 32783 \<and> length (event_fields event) \<le> 65 \<and>
     take 32768 (message event) = take 32768 msg \<and>
     take 64 (event_fields event) = take 64 (fs @ call_mdc c) \<and>
     (if length msg \<le> 32768 then message event = msg else length (message event) = 32783) \<and>
     (if length fs + length (call_mdc c) \<le> 64 then event_fields event = fs @ call_mdc c
      else last (event_fields event) = kv ''_truncated_fields'' (Arg_bool True))"
  using length_truncate_message [of msg] length_limit_fields [of "fs @ call_mdc c"]
  by (simp add: build_event_fields truncate_message_def limit_fields_def min_def
      max_message_length_def max_fields_count_def Let_def)

text \<open>
  A disabled level costs nothing: the macro evaluates none of its arguments and the
  dispatcher is not touched; an enabled one evaluates them once and dispatches one event.
\<close>

theorem macro_gating:
  "logspine_detail_log disp lg c sev loc msg (Args_fields ev) (a, d) =
     (if lg_minimum_level lg \<noteq> Off \<and> sev \<noteq> Off \<and> lg_minimum_level lg \<le> sev
      then (snd (ev a), disp (build_event lg c sev msg (fst (ev a)) loc) d)
      else (a, d))"
  by (simp add: logspine_detail_log_def log_macro_dispatch_def logger_dispatch_def
      logger_enabled_iff case_prod_unfold)

end
