(* ===== verification/Registry.thy ===== *)
theory Registry
  imports Logger
begin

text \<open>
  The registry: \<^verbatim>\<open>include/logspine/registry.hpp\<close> and \<^verbatim>\<open>src/registry.cpp\<close>. Loggers are shared
  objects: they live in a heap, a list indexed by address, and the registry's table maps names
  to addresses, so that two lookups return the same object exactly when they return the same
  address. \<^verbatim>\<open>set_level\<close> is two atomic actions, the store of the threshold and the locked update
  of the loggers, and the last section interleaves the calls of several threads.
\<close>

record registry =
  reg_minimum_level :: level
  loggers_table :: "(bytes \<times> nat) list"
  logger_heap :: "logger list"

definition new_registry :: "level \<Rightarrow> registry" where
  "new_registry l = \<lparr>reg_minimum_level = l, loggers_table = [], logger_heap = []\<rparr>"

definition registry_get :: "bytes \<Rightarrow> registry \<Rightarrow> nat \<times> registry" where
  "registry_get name r =
     (case map_of (loggers_table r) name of
        Some a \<Rightarrow> (a, r)
      | None \<Rightarrow>
          (let created = new_logger name (reg_minimum_level r);
               a = length (logger_heap r)
           in (a, r\<lparr>loggers_table := (name, a) # loggers_table r,
                    logger_heap := logger_heap r @ [created]\<rparr>)))"

text \<open>The first action of \<^verbatim>\<open>set_level\<close>, the loop of the second, and the whole call.\<close>

definition store_level :: "level \<Rightarrow> registry \<Rightarrow> registry" where
  "store_level v r = r\<lparr>reg_minimum_level := v\<rparr>"

definition propagate_level :: "level \<Rightarrow> registry \<Rightarrow> registry" where
  "propagate_level v r =
     r\<lparr>logger_heap :=
         fold (\<lambda>(name, a) h. h[a := logger_set_level v (h ! a)]) (loggers_table r) (logger_heap r)\<rparr>"

definition registry_set_level :: "level \<Rightarrow> registry \<Rightarrow> registry" where
  "registry_set_level v r = propagate_level v (store_level v r)"

definition registry_flush :: "('d \<Rightarrow> 'd) \<Rightarrow> registry \<Rightarrow> 'd \<Rightarrow> 'd" where
  "registry_flush fl r d = fl d"

definition level_threshold :: "registry \<Rightarrow> level" where
  "level_threshold r = reg_minimum_level r"

text \<open>A client's direct call of \<^verbatim>\<open>logger::set_level\<close> on an object it holds.\<close>

definition set_logger_level :: "nat \<Rightarrow> level \<Rightarrow> registry \<Rightarrow> registry" where
  "set_logger_level a v r = r\<lparr>logger_heap := (logger_heap r)[a := logger_set_level v (logger_heap r ! a)]\<rparr>"

text \<open>
  Well-formedness: one entry per name, each to its own object, which carries that name; every
  object is in the table.
\<close>

definition reg_inv :: "registry \<Rightarrow> bool" where
  "reg_inv r \<longleftrightarrow>
     distinct (map fst (loggers_table r)) \<and>
     distinct (map snd (loggers_table r)) \<and>
     set (map snd (loggers_table r)) = {..< length (logger_heap r)} \<and>
     (\<forall>(name, a) \<in> set (loggers_table r). lg_name (logger_heap r ! a) = name)"

definition coherent :: "registry \<Rightarrow> bool" where
  "coherent r \<longleftrightarrow> (\<forall>lg \<in> set (logger_heap r). lg_minimum_level lg = reg_minimum_level r)"

section \<open>Single operations\<close>

datatype reg_op = Get bytes | Set_level level | Set_logger_level nat level

fun reg_step :: "reg_op \<Rightarrow> registry \<Rightarrow> registry" where
  "reg_step (Get name) r = snd (registry_get name r)"
| "reg_step (Set_level v) r = registry_set_level v r"
| "reg_step (Set_logger_level a v) r = (if a < length (logger_heap r) then set_logger_level a v r else r)"

lemma fold_update_length:
  "length (fold (\<lambda>(n, a) h. h[a := f (h ! a)]) t h) = length h"
  by (induction t arbitrary: h) auto

lemma fold_update_nth:
  assumes "distinct (map snd t)" and "i < length h"
  shows "fold (\<lambda>(n, a) h. h[a := f (h ! a)]) t h ! i = (if i \<in> snd ` set t then f (h ! i) else h ! i)"
  using assms
proof (induction t arbitrary: h)
  case (Cons e t)
  obtain n a where e: "e = (n, a)" by (cases e)
  with Cons.prems have "a \<notin> snd ` set t" by simp
  with e Cons.prems Cons.IH [of "h[a := f (h ! a)]"] show ?case
    by (cases "i = a") simp_all
qed simp

lemma propagate_heap:
  assumes "reg_inv r"
  shows "logger_heap (propagate_level v r) = map (logger_set_level v) (logger_heap r)"
proof (rule nth_equalityI)
  show "length (logger_heap (propagate_level v r)) = length (map (logger_set_level v) (logger_heap r))"
    by (simp add: propagate_level_def fold_update_length)
  fix i
  assume "i < length (logger_heap (propagate_level v r))"
  then have i: "i < length (logger_heap r)" by (simp add: propagate_level_def fold_update_length)
  moreover from i assms have "i \<in> snd ` set (loggers_table r)" by (auto simp: reg_inv_def)
  ultimately show "logger_heap (propagate_level v r) ! i = map (logger_set_level v) (logger_heap r) ! i"
    using assms by (simp add: propagate_level_def fold_update_nth reg_inv_def)
qed

lemma reg_inv_new: "reg_inv (new_registry l)"
  by (simp add: reg_inv_def new_registry_def)

lemma reg_inv_store: "reg_inv (store_level v r) \<longleftrightarrow> reg_inv r"
  by (simp add: reg_inv_def store_level_def)

lemma reg_inv_heap_map:
  assumes "reg_inv r" and "length h = length (logger_heap r)"
    and "\<And>i. i < length h \<Longrightarrow> lg_name (h ! i) = lg_name (logger_heap r ! i)"
  shows "reg_inv (r\<lparr>logger_heap := h\<rparr>)"
proof -
  have "\<And>n a. (n, a) \<in> set (loggers_table r) \<Longrightarrow> a < length (logger_heap r)"
    using assms(1) by (force simp: reg_inv_def)
  with assms show ?thesis by (auto simp: reg_inv_def)
qed

lemma reg_inv_propagate: "reg_inv r \<Longrightarrow> reg_inv (propagate_level v r)"
proof -
  assume r: "reg_inv r"
  have "propagate_level v r = r\<lparr>logger_heap := map (logger_set_level v) (logger_heap r)\<rparr>"
    using propagate_heap [OF r, of v] by (simp add: propagate_level_def)
  moreover have "reg_inv (r\<lparr>logger_heap := map (logger_set_level v) (logger_heap r)\<rparr>)"
    by (rule reg_inv_heap_map [OF r]) (simp_all add: logger_set_level_def)
  ultimately show ?thesis by simp
qed

lemma reg_inv_get:
  assumes "reg_inv r"
  shows "reg_inv (snd (registry_get name r))"
proof (cases "map_of (loggers_table r) name")
  case None
  have lt: "\<And>n a. (n, a) \<in> set (loggers_table r) \<Longrightarrow> a < length (logger_heap r)"
    using assms by (force simp: reg_inv_def)
  from None have "name \<notin> fst ` set (loggers_table r)" by (simp add: map_of_eq_None_iff)
  with None assms lt show ?thesis
    by (force simp: registry_get_def reg_inv_def Let_def nth_append)
qed (use assms in \<open>simp add: registry_get_def\<close>)

lemma reg_inv_step: "reg_inv r \<Longrightarrow> reg_inv (reg_step op r)"
  by (cases op)
    (auto simp: reg_inv_get registry_set_level_def reg_inv_propagate reg_inv_store
      set_logger_level_def logger_set_level_def nth_list_update intro!: reg_inv_heap_map)

lemma reg_inv_run: "reg_inv r \<Longrightarrow> reg_inv (fold reg_step ops r)"
  by (induction ops arbitrary: r) (simp_all add: reg_inv_step)

lemma table_step: "map_of (loggers_table r) name = Some a \<Longrightarrow>
    map_of (loggers_table (reg_step op r)) name = Some a"
  by (cases op) (auto simp: registry_get_def registry_set_level_def propagate_level_def
      store_level_def set_logger_level_def Let_def split: option.splits)

lemma table_run: "map_of (loggers_table r) name = Some a \<Longrightarrow>
    map_of (loggers_table (fold reg_step ops r)) name = Some a"
  by (induction ops arbitrary: r) (simp_all add: table_step)

lemma get_in_table: "map_of (loggers_table (snd (registry_get name r))) name
    = Some (fst (registry_get name r))"
  by (auto simp: registry_get_def Let_def split: option.splits)

section \<open>Properties\<close>

text \<open>
  Loggers are stable and unique per name: after any operations, looking a name up again
  gives the object it gave before, an object with that name, and a different name gives a
  different object.
\<close>

theorem registry_identity:
  assumes "r = fold reg_step before (new_registry l)"
    and "(a, r1) = registry_get name r"
    and "r2 = fold reg_step later r1"
    and "(b, r3) = registry_get other r2"
  shows "fst (registry_get name r3) = a \<and> lg_name (logger_heap r3 ! a) = name \<and>
    a < length (logger_heap r3) \<and> (a = b \<longleftrightarrow> name = other)"
proof -
  have inv: "reg_inv r3"
    using assms reg_inv_run [OF reg_inv_new [of l], of before] reg_inv_get [of r name]
      reg_inv_run [of r1 later] reg_inv_get [of r2 other] by (metis snd_conv)
  have "map_of (loggers_table r1) name = Some a"
    using get_in_table [of name r] assms(2) by (metis fst_conv snd_conv)
  then have "map_of (loggers_table r2) name = Some a" unfolding assms(3) by (rule table_run)
  then have n: "map_of (loggers_table r3) name = Some a"
    using table_step [of r2 name a "Get other"] assms(4) by (metis reg_step.simps(1) snd_conv)
  have o: "map_of (loggers_table r3) other = Some b"
    using get_in_table [of other r2] assms(4) by (metis fst_conv snd_conv)
  from n o have mem: "(name, a) \<in> set (loggers_table r3)" "(other, b) \<in> set (loggers_table r3)"
    by (auto dest: map_of_SomeD)
  have named: "\<And>n i. (n, i) \<in> set (loggers_table r3) \<Longrightarrow> lg_name (logger_heap r3 ! i) = n"
    using inv by (auto simp: reg_inv_def)
  have "a = b \<Longrightarrow> name = other" using named [OF mem(1)] named [OF mem(2)] by simp
  moreover have "name = other \<Longrightarrow> a = b" using n o by simp
  moreover have "a \<in> set (map snd (loggers_table r3))" using mem(1) by force
  then have "a < length (logger_heap r3)" using inv unfolding reg_inv_def by blast
  moreover have "lg_name (logger_heap r3 ! a) = name" by (rule named [OF mem(1)])
  ultimately show ?thesis using n by (auto simp: registry_get_def)
qed

theorem registry_identity_witness:
  "fst (registry_get ''a'' (snd (registry_get ''b'' (snd (registry_get ''a'' (new_registry Info)))))) = 0"
  using registry_identity [of "new_registry Info" "[]" Info 0 "snd (registry_get ''a'' (new_registry Info))"
      "''a''" "snd (registry_get ''a'' (new_registry Info))" "[]" 1
      "snd (registry_get ''b'' (snd (registry_get ''a'' (new_registry Info))))" "''b''"]
  by (simp add: registry_get_def new_registry_def Let_def)

section \<open>Concurrent calls\<close>

text \<open>
  Interleavings: a \<^verbatim>\<open>get\<close> holds the mutex throughout; a \<^verbatim>\<open>set_level\<close> by thread \<open>t\<close> stores the
  threshold first and later, having taken the mutex, updates the loggers. \<open>pending\<close> maps the
  threads between the two to the level they are setting.
\<close>

type_synonym reg_state = "registry \<times> (nat \<rightharpoonup> level)"

inductive reg_conc :: "reg_state \<Rightarrow> reg_state \<Rightarrow> bool" where
  conc_get: "reg_conc (r, p) (snd (registry_get name r), p)"
| conc_store: "p t = None \<Longrightarrow> reg_conc (r, p) (store_level v r, p(t \<mapsto> v))"
| conc_propagate: "p t = Some v \<Longrightarrow> reg_conc (r, p) (propagate_level v r, p(t := None))"

inductive_cases reg_concE: "reg_conc s s'"

inductive reg_reach :: "(nat \<Rightarrow> bool) \<Rightarrow> reg_state \<Rightarrow> bool" for writers where
  reach_start: "reg_reach writers (new_registry l, Map.empty)"
| reach_step: "reg_reach writers s \<Longrightarrow> reg_conc s s' \<Longrightarrow> dom (snd s') \<subseteq> Collect writers \<Longrightarrow>
    reg_reach writers s'"

lemma coherent_propagate: "reg_inv r \<Longrightarrow> v = reg_minimum_level r \<Longrightarrow> coherent (propagate_level v r)"
  using propagate_heap [of r v] by (auto simp: coherent_def logger_set_level_def propagate_level_def)

lemma coherent_get: "coherent r \<Longrightarrow> coherent (snd (registry_get name r))"
  by (auto simp: coherent_def registry_get_def Let_def split: option.splits)

lemma get_minimum [simp]: "reg_minimum_level (snd (registry_get name r)) = reg_minimum_level r"
  by (auto simp: registry_get_def Let_def split: option.splits)

lemma store_minimum [simp]: "reg_minimum_level (store_level v r) = v"
  by (simp add: store_level_def)

lemma propagate_minimum [simp]: "reg_minimum_level (propagate_level v r) = reg_minimum_level r"
  by (simp add: propagate_level_def)

lemma reg_reach_inv:
  assumes "reg_reach (\<lambda>t. t = w) s"
  shows "reg_inv (fst s) \<and> dom (snd s) \<subseteq> {w} \<and>
    (case snd s w of None \<Rightarrow> coherent (fst s) | Some v \<Rightarrow> v = reg_minimum_level (fst s))"
  using assms
proof (induction rule: reg_reach.induct)
  case (reach_start l)
  then show ?case by (simp add: reg_inv_new) (simp add: coherent_def new_registry_def)
next
  case (reach_step s s')
  from reach_step.hyps(2) show ?case
  proof cases
    case (conc_get r p name)
    with reach_step.IH show ?thesis
      by (auto simp: reg_inv_get coherent_get split: option.splits)
  next
    case (conc_store p t r v)
    with reach_step.hyps(3) have "t = w" by auto
    with conc_store reach_step.IH show ?thesis
      by (auto simp: reg_inv_store dom_def split: if_splits)
  next
    case (conc_propagate p t v r)
    with reach_step.IH have "t = w" by auto
    with conc_propagate reach_step.IH show ?thesis
      by (auto simp: reg_inv_propagate coherent_propagate dom_def split: if_splits)
  qed
qed

text \<open>
  C27. With one thread setting levels, whatever lookups interleave with it: whenever no
  \<^verbatim>\<open>set_level\<close> is in progress every logger of the registry has the registry's level, also the
  loggers created while the change was under way.
\<close>

theorem set_level_reaches_all:
  assumes "reg_reach (\<lambda>t. t = w) (r, p)" and "p w = None"
  shows "coherent r"
  using reg_reach_inv [OF assms(1)] assms(2) by simp

theorem set_level_reaches_all_witness:
  "\<exists>r. map lg_minimum_level (logger_heap r) = [Debug, Debug] \<and> coherent r"
proof -
  let ?w = "\<lambda>t. t = (0 :: nat)"
  let ?r1 = "snd (registry_get ''a'' (new_registry Info))"
  let ?r2 = "store_level Debug ?r1"
  let ?r3 = "snd (registry_get ''b'' ?r2)"
  let ?r4 = "propagate_level Debug ?r3"
  have "reg_reach ?w (?r1, Map.empty)"
    by (rule reach_step [OF reach_start conc_get]) simp
  then have "reg_reach ?w (?r2, [0 \<mapsto> Debug])"
    by (rule reach_step) (use conc_store [of Map.empty 0] in simp_all)
  then have "reg_reach ?w (?r3, [0 \<mapsto> Debug])"
    by (rule reach_step [OF _ conc_get]) simp
  then have "reg_reach ?w (?r4, Map.empty)"
    by (rule reach_step) (use conc_propagate [of "[0 \<mapsto> Debug]" 0 Debug ?r3] in simp_all)
  then have "coherent ?r4" by (rule set_level_reaches_all) simp
  then show ?thesis
    by (intro exI [of _ ?r4] conjI)
      (simp_all add: propagate_level_def store_level_def registry_get_def new_registry_def
        logger_set_level_def Let_def)
qed

text \<open>
  Two threads setting levels at once can leave the registry incoherent for good: the
  threshold of one and the loggers of the other.
\<close>

theorem set_level_race:
  "\<exists>r. reg_reach (\<lambda>_. True) (r, Map.empty) \<and> level_threshold r = Error \<and>
     map lg_minimum_level (logger_heap r) = [Debug]"
proof -
  let ?r0 = "new_registry Info"
  let ?r1 = "snd (registry_get ''app'' ?r0)"
  let ?r2 = "store_level Debug ?r1"
  let ?r3 = "store_level Error ?r2"
  let ?r4 = "propagate_level Error ?r3"
  let ?r5 = "propagate_level Debug ?r4"
  have "reg_reach (\<lambda>_. True) (?r1, Map.empty)"
    by (rule reach_step [OF reach_start conc_get]) simp
  then have "reg_reach (\<lambda>_. True) (?r2, [0 \<mapsto> Debug])"
    by (rule reach_step) (use conc_store [of Map.empty 0] in simp_all)
  then have "reg_reach (\<lambda>_. True) (?r3, [0 \<mapsto> Debug, 1 \<mapsto> Error])"
    by (rule reach_step) (use conc_store [of "[0 \<mapsto> Debug]" 1 ?r2 Error] in simp_all)
  then have "reg_reach (\<lambda>_. True) (?r4, [0 \<mapsto> Debug])"
    by (rule reach_step)
      (use conc_propagate [of "[0 \<mapsto> Debug, 1 \<mapsto> Error]" 1 Error ?r3] in \<open>simp_all add: fun_upd_twist\<close>)
  then have "reg_reach (\<lambda>_. True) (?r5, Map.empty)"
    by (rule reach_step) (use conc_propagate [of "[0 \<mapsto> Debug]" 0 Debug ?r4] in simp_all)
  then show ?thesis
    by (intro exI [of _ ?r5] conjI)
      (simp_all add: level_threshold_def propagate_level_def store_level_def registry_get_def
        new_registry_def logger_set_level_def Let_def)
qed

end
