(* ===== verification/Mpsc_Queue.thy ===== *)
theory Mpsc_Queue
  imports Prelude
begin

text \<open>
  \<^verbatim>\<open>include/logspine/detail/mpsc_queue.hpp\<close>, executed by one thread at a time: a ring of slots
  with sequence numbers, at the width of \<^verbatim>\<open>std::size_t\<close>, so that the counters wrap. A sequence
  number is compared with a position by subtracting their signed values, which C++ defines only while
  the difference fits \<^verbatim>\<open>std::intptr_t\<close> (\<open>dif_defined\<close>). The retry loops are partial functions: \<open>None\<close> means
  no defined result, either not returning or the undefined subtraction. The
  locale \<open>bounded_queue\<close> is the contract the dispatcher relies on, interpreted on this code.
\<close>

unbundle bit_operations_syntax

section \<open>Capacity\<close>

definition round_up_to_power_of_2 :: "u64 \<Rightarrow> u64" where
  "round_up_to_power_of_2 n0 =
     (if n0 \<le> 1 then 2
      else let n = n0 - 1;
               n = n OR drop_bit 1 n;
               n = n OR drop_bit 2 n;
               n = n OR drop_bit 4 n;
               n = n OR drop_bit 8 n;
               n = n OR drop_bit 16 n;
               n = n OR drop_bit 32 n
           in n + 1)"

text \<open>Each step of the smearing doubles the reach of a set bit.\<close>

definition smeared :: "nat \<Rightarrow> u64 \<Rightarrow> u64 \<Rightarrow> bool" where
  "smeared k m w \<longleftrightarrow> (\<forall>i. bit w i \<longleftrightarrow> (\<exists>j<k. bit m (i + j)))"

lemma smear_double:
  assumes "smeared k m w"
  shows "smeared (2 * k) m (w OR drop_bit k w)"
  unfolding smeared_def
proof
  fix i
  have "bit (w OR drop_bit k w) i \<longleftrightarrow> (\<exists>j<k. bit m (i + j)) \<or> (\<exists>j<k. bit m (i + (k + j)))"
    using assms by (simp add: smeared_def bit_or_iff bit_drop_bit_eq ac_simps)
  also have "\<dots> \<longleftrightarrow> (\<exists>j<2 * k. bit m (i + j))"
  proof
    assume "\<exists>j<2 * k. bit m (i + j)"
    then obtain j where j: "j < 2 * k" "bit m (i + j)" by blast
    show "(\<exists>j<k. bit m (i + j)) \<or> (\<exists>j<k. bit m (i + (k + j)))"
    proof (cases "j < k")
      case False
      with j have "j - k < k \<and> bit m (i + (k + (j - k)))" by simp
      then show ?thesis by blast
    qed (use j in blast)
  qed (elim disjE; force)
  finally show "bit (w OR drop_bit k w) i \<longleftrightarrow> (\<exists>j<2 * k. bit m (i + j))" .
qed

lemma top_bit:
  fixes m :: u64
  assumes "m \<noteq> 0"
  obtains p where "p < 64" "bit m p" "\<And>j. p < j \<Longrightarrow> \<not> bit m j"
proof -
  have fin: "finite {i. bit m i}"
    by (rule finite_subset [of _ "{..<64}"]) (auto dest: bit_imp_le_length)
  have ne: "{i. bit m i} \<noteq> {}" using assms by (auto simp: bit_eq_iff)
  show thesis
  proof (rule that)
    show "bit m (Max {i. bit m i})" using Max_in [OF fin ne] by simp
    then show "Max {i. bit m i} < 64" by (auto dest: bit_imp_le_length)
    show "\<not> bit m j" if "Max {i. bit m i} < j" for j
    proof
      assume "bit m j"
      then have "j \<le> Max {i. bit m i}" by (intro Max_ge [OF fin]) simp
      with that show False by simp
    qed
  qed
qed

lemma unat_two_power:
  assumes "k < 64"
  shows "unat (2 ^ k :: u64) = 2 ^ k"
proof -
  have "(2 ^ k :: u64) = of_nat (2 ^ k)" by simp
  moreover have "(2::nat) ^ k < 2 ^ 64" using assms by (intro power_strict_increasing) auto
  ultimately show ?thesis using assms by (simp only: unsigned_of_nat) (simp add: take_bit_nat_eq_self del: power_numeral)
qed

lemma unat_between:
  fixes m :: u64
  assumes "p < 64" "bit m p" "\<And>j. p < j \<Longrightarrow> \<not> bit m j"
  shows "2 ^ p \<le> unat m" and "unat m < 2 ^ Suc p"
proof -
  have "bit (unat m) p" using assms(2) by (simp add: bit_unsigned_iff)
  then have "odd (unat m div 2 ^ p)" by (simp add: bit_iff_odd)
  then have "unat m div 2 ^ p \<noteq> 0" by (rule contrapos_pn) simp
  then show "2 ^ p \<le> unat m" by (simp add: div_eq_0_iff)
  have "take_bit (Suc p) (unat m) = unat m"
    using assms(3) by (intro bit_eqI) (auto simp: bit_take_bit_iff bit_unsigned_iff dest: le_less_trans not_less_eq [THEN iffD1])
  then show "unat m < 2 ^ Suc p" by (simp add: take_bit_nat_eq_self_iff)
qed

lemma smeared_mask:
  assumes "smeared 64 m w" "p < 64" "bit m p" "\<And>j. p < j \<Longrightarrow> \<not> bit m j"
  shows "w + 1 = 2 ^ Suc p"
proof -
  have "bit w i \<longleftrightarrow> i < Suc p" for i
  proof -
    have "bit w i \<longleftrightarrow> (\<exists>j<64. bit m (i + j))" using assms(1) by (simp add: smeared_def)
    also have "\<dots> \<longleftrightarrow> i \<le> p"
    proof
      assume "\<exists>j<64. bit m (i + j)"
      then obtain j where "bit m (i + j)" by blast
      with assms(4) have "\<not> p < i + j" by blast
      then show "i \<le> p" by simp
    next
      assume "i \<le> p"
      with assms(2,3) have "p - i < 64 \<and> bit m (i + (p - i))" by simp
      then show "\<exists>j<64. bit m (i + j)" by blast
    qed
    finally show ?thesis by auto
  qed
  then have "w = mask (Suc p)"
    using assms(2) by (intro bit_word_eqI) (auto simp: bit_mask_iff)
  then show ?thesis by (simp add: mask_eq_exp_minus_1)
qed

lemma rounding_cases:
  "if unat n \<le> 1 then round_up_to_power_of_2 n = 2
   else if unat n \<le> 2 ^ 63
   then (\<exists>k. unat (round_up_to_power_of_2 n) = 2 ^ Suc k \<and> 2 ^ k < unat n \<and> unat n \<le> 2 ^ Suc k)
   else round_up_to_power_of_2 n = 0"
proof (cases "n \<le> 1")
  case True
  then show ?thesis by (simp add: round_up_to_power_of_2_def word_le_nat_alt)
next
  case False
  define m where "m = n - 1"
  define r where "r = round_up_to_power_of_2 n"
  from False have n: "1 < unat n" by (simp add: word_le_nat_alt)
  then have un: "unat m = unat n - 1"
    using unat_sub [of 1 n] by (simp add: m_def word_le_nat_alt)
  with n have "m \<noteq> 0" by auto
  then obtain p where p: "p < 64" "bit m p" "\<And>j. p < j \<Longrightarrow> \<not> bit m j"
    using top_bit by blast
  note b = unat_between [OF p]
  have "smeared 1 m m" by (simp add: smeared_def)
  note s = this smear_double [OF this]
  have "\<exists>w. smeared 64 m w \<and> r = w + 1"
    using s(2) [THEN smear_double, THEN smear_double, THEN smear_double, THEN smear_double, THEN smear_double] False
    by (auto simp: r_def round_up_to_power_of_2_def Let_def m_def)
  then have r: "r = 2 ^ Suc p" using smeared_mask [OF _ p] by blast
  show ?thesis
  proof (cases "p = 63")
    case True
    with b(1) un n have "\<not> unat n \<le> 2 ^ 63" by simp
    moreover have "r = 0" using r True by simp
    ultimately show ?thesis using n by (simp add: r_def)
  next
    case False
    with p(1) have lt: "Suc p < 64" by simp
    then have "unat r = 2 ^ Suc p" unfolding r by (rule unat_two_power)
    moreover have "unat n \<le> 2 ^ Suc p" "2 ^ p < unat n" using b un n by linarith+
    moreover have "(2::nat) ^ Suc p \<le> 2 ^ 63" using lt by (intro power_increasing) auto
    ultimately show ?thesis using n unfolding r_def [symmetric] by (auto simp del: power_Suc)
  qed
qed

section \<open>The queue\<close>

record 'a slot =
  slot_sequence :: u64
  slot_data :: 'a

record 'a mpsc_queue =
  buffer_mask :: u64
  buffer :: "'a slot list"
  q_head :: u64
  q_tail :: u64

text \<open>The constructor; slots start with a default-constructed element.\<close>

definition mpsc_new :: "'a \<Rightarrow> u64 \<Rightarrow> cpp_exception + 'a mpsc_queue" where
  "mpsc_new dflt capacity =
     (if capacity = 0 \<or> capacity AND (capacity - 1) \<noteq> 0
      then Inl (Invalid_Argument ''capacity must be a power of 2'')
      else Inr \<lparr>buffer_mask = capacity - 1,
                buffer = map (\<lambda>i. \<lparr>slot_sequence = of_nat i, slot_data = dflt\<rparr>) [0..<unat capacity],
                q_head = 0, q_tail = 0\<rparr>)"

definition cell_index :: "'a mpsc_queue \<Rightarrow> u64 \<Rightarrow> nat" where
  "cell_index q pos = unat (pos AND buffer_mask q)"

text \<open>
  \<^verbatim>\<open>static_cast<std::intptr_t>(seq) - static_cast<std::intptr_t>(pos)\<close>: the exact difference of the two
  signed values. Where it does not fit the type, the subtraction overflows and has no defined result.
\<close>

definition seq_dif :: "u64 \<Rightarrow> u64 \<Rightarrow> int" where
  "seq_dif seq pos = sint seq - sint pos"

definition dif_defined :: "u64 \<Rightarrow> u64 \<Rightarrow> bool" where
  "dif_defined seq pos \<longleftrightarrow> - (2 ^ 63) \<le> seq_dif seq pos \<and> seq_dif seq pos < 2 ^ 63"

definition cell_sequence :: "'a mpsc_queue \<Rightarrow> u64 \<Rightarrow> u64" where
  "cell_sequence q pos = slot_sequence (buffer q ! cell_index q pos)"

text \<open>The claimed cell is filled and published; the position is taken from the head.\<close>

definition fill_cell :: "'a mpsc_queue \<Rightarrow> u64 \<Rightarrow> 'a \<Rightarrow> 'a mpsc_queue" where
  "fill_cell q pos x =
     q\<lparr>q_head := pos + 1,
       buffer := (buffer q)[cell_index q pos := \<lparr>slot_sequence = pos + 1, slot_data = x\<rparr>]\<rparr>"

partial_function (option) enqueue_loop :: "'a mpsc_queue \<Rightarrow> 'a \<Rightarrow> u64 \<Rightarrow> (bool \<times> 'a mpsc_queue) option"
where
  "enqueue_loop q x pos =
     (if \<not> dif_defined (cell_sequence q pos) pos then None
      else if seq_dif (cell_sequence q pos) pos = 0
      then (if q_head q = pos then Some (True, fill_cell q pos x)
            else enqueue_loop q x (q_head q))
      else if seq_dif (cell_sequence q pos) pos < 0 then Some (False, q)
      else enqueue_loop q x (q_head q))"

definition mpsc_enqueue :: "'a mpsc_queue \<Rightarrow> 'a \<Rightarrow> (bool \<times> 'a mpsc_queue) option" where
  "mpsc_enqueue q x = enqueue_loop q x (q_head q)"

text \<open>The claimed cell is read and released for the next lap; the position is taken from the tail.\<close>

definition cell_data :: "'a mpsc_queue \<Rightarrow> u64 \<Rightarrow> 'a" where
  "cell_data q pos = slot_data (buffer q ! cell_index q pos)"

definition release_cell :: "'a mpsc_queue \<Rightarrow> u64 \<Rightarrow> 'a mpsc_queue" where
  "release_cell q pos =
     q\<lparr>q_tail := pos + 1,
       buffer := (buffer q)[cell_index q pos :=
         (buffer q ! cell_index q pos)\<lparr>slot_sequence := pos + buffer_mask q + 1\<rparr>]\<rparr>"

partial_function (option) dequeue_loop :: "'a mpsc_queue \<Rightarrow> u64 \<Rightarrow> ('a option \<times> 'a mpsc_queue) option"
where
  "dequeue_loop q pos =
     (if \<not> dif_defined (cell_sequence q pos) (pos + 1) then None
      else if seq_dif (cell_sequence q pos) (pos + 1) = 0
      then (if q_tail q = pos then Some (Some (cell_data q pos), release_cell q pos)
            else dequeue_loop q (q_tail q))
      else if seq_dif (cell_sequence q pos) (pos + 1) < 0 then Some (None, q)
      else dequeue_loop q (q_tail q))"

definition mpsc_dequeue :: "'a mpsc_queue \<Rightarrow> ('a option \<times> 'a mpsc_queue) option" where
  "mpsc_dequeue q = dequeue_loop q (q_tail q)"

section \<open>The specification: a bounded list\<close>

datatype 'a queue_op = Enqueue 'a | Dequeue
datatype 'a queue_result = Accepted | Refused | Got 'a | Empty

fun spec_op :: "nat \<Rightarrow> 'a queue_op \<Rightarrow> 'a list \<Rightarrow> 'a queue_result \<times> 'a list" where
  "spec_op c (Enqueue x) xs = (if length xs < c then (Accepted, xs @ [x]) else (Refused, xs))"
| "spec_op c Dequeue xs = (case xs of [] \<Rightarrow> (Empty, []) | y # ys \<Rightarrow> (Got y, ys))"

fun spec_run :: "nat \<Rightarrow> 'a queue_op list \<Rightarrow> 'a list \<Rightarrow> 'a queue_result list \<times> 'a list" where
  "spec_run c [] xs = ([], xs)"
| "spec_run c (op # ops) xs =
     (case spec_op c op xs of (r, ys) \<Rightarrow>
        (case spec_run c ops ys of (rs, zs) \<Rightarrow> (r # rs, zs)))"

text \<open>The same program run on an implementation.\<close>

fun queue_step :: "('q \<Rightarrow> 'a \<Rightarrow> (bool \<times> 'q) option) \<Rightarrow> ('q \<Rightarrow> ('a option \<times> 'q) option)
    \<Rightarrow> 'a queue_op \<Rightarrow> 'q \<Rightarrow> ('a queue_result \<times> 'q) option" where
  "queue_step enq deq (Enqueue x) q =
     map_option (\<lambda>(ok, q'). (if ok then Accepted else Refused, q')) (enq q x)"
| "queue_step enq deq Dequeue q =
     map_option (\<lambda>(r, q'). (case r of None \<Rightarrow> Empty | Some y \<Rightarrow> Got y, q')) (deq q)"

fun queue_run :: "('q \<Rightarrow> 'a \<Rightarrow> (bool \<times> 'q) option) \<Rightarrow> ('q \<Rightarrow> ('a option \<times> 'q) option)
    \<Rightarrow> 'a queue_op list \<Rightarrow> 'q \<Rightarrow> ('a queue_result list \<times> 'q) option" where
  "queue_run enq deq [] q = Some ([], q)"
| "queue_run enq deq (op # ops) q =
     (case queue_step enq deq op q of
        None \<Rightarrow> None
      | Some (r, q') \<Rightarrow> map_option (\<lambda>(rs, q''). (r # rs, q'')) (queue_run enq deq ops q'))"

section \<open>The contract of a bounded queue\<close>

text \<open>
  Results are optional because the operations may have none; the laws say that they return. \<open>items\<close>
  abstracts a queue to the list of its elements, oldest first; \<open>inv n\<close> is what a queue needs for \<open>n\<close>
  more operations.
\<close>

locale bounded_queue =
  fixes enq :: "'q \<Rightarrow> 'a \<Rightarrow> (bool \<times> 'q) option"
    and deq :: "'q \<Rightarrow> ('a option \<times> 'q) option"
    and items :: "'q \<Rightarrow> 'a list"
    and cap :: "'q \<Rightarrow> nat"
    and inv :: "nat \<Rightarrow> 'q \<Rightarrow> bool"
  assumes bound: "inv n q \<Longrightarrow> length (items q) \<le> cap q"
    and fewer: "inv (Suc n) q \<Longrightarrow> inv n q"
    and enq_room: "inv (Suc n) q \<Longrightarrow> length (items q) < cap q \<Longrightarrow>
      \<exists>q'. enq q x = Some (True, q') \<and> inv n q' \<and> items q' = items q @ [x] \<and> cap q' = cap q"
    and enq_full: "inv (Suc n) q \<Longrightarrow> length (items q) = cap q \<Longrightarrow> enq q x = Some (False, q)"
    and deq_some: "inv (Suc n) q \<Longrightarrow> items q = y # ys \<Longrightarrow>
      \<exists>q'. deq q = Some (Some y, q') \<and> inv n q' \<and> items q' = ys \<and> cap q' = cap q"
    and deq_none: "inv (Suc n) q \<Longrightarrow> items q = [] \<Longrightarrow> deq q = Some (None, q)"
begin

text \<open>What a result says about the queue before and after it.\<close>

lemma enq_result:
  assumes "inv (Suc n) q" and "enq q x = Some (ok, q')"
  shows "inv n q' \<and> cap q' = cap q \<and> ok = (length (items q) < cap q) \<and>
    items q' = (if ok then items q @ [x] else items q)"
proof (cases "length (items q) < cap q")
  case True
  with enq_room [OF assms(1) True, of x] assms(2) show ?thesis by auto
next
  case False
  with bound [OF assms(1)] have "length (items q) = cap q" by simp
  with enq_full [OF assms(1) this, of x] assms fewer [OF assms(1)] show ?thesis by auto
qed

lemma deq_result:
  assumes "inv (Suc n) q" and "deq q = Some (r, q')"
  shows "inv n q' \<and> cap q' = cap q \<and>
    (case r of None \<Rightarrow> items q = [] \<and> q' = q | Some y \<Rightarrow> items q = y # items q')"
proof (cases "items q")
  case Nil
  with deq_none [OF assms(1)] assms fewer [OF assms(1)] show ?thesis by auto
next
  case (Cons y ys)
  with deq_some [OF assms(1) Cons] assms(2) show ?thesis by auto
qed

lemma enq_returns: "inv (Suc n) q \<Longrightarrow> \<exists>ok q'. enq q x = Some (ok, q')"
  using bound [of "Suc n" q] enq_room [of n q x] enq_full [of n q x] by (metis le_neq_implies_less)

lemma deq_returns: "inv (Suc n) q \<Longrightarrow> \<exists>r q'. deq q = Some (r, q')"
  using deq_some [of n q] deq_none [of n q] by (cases "items q") blast+

text \<open>Every program returns, with the results of the bounded list.\<close>

lemma op_refines:
  assumes "inv (Suc n) q"
  shows "\<exists>q'. queue_step enq deq op q = Some (fst (spec_op (cap q) op (items q)), q') \<and> inv n q' \<and>
    items q' = snd (spec_op (cap q) op (items q)) \<and> cap q' = cap q"
proof (cases op)
  case (Enqueue x)
  obtain ok q' where r: "enq q x = Some (ok, q')" using enq_returns [OF assms] by blast
  with enq_result [OF assms r] Enqueue show ?thesis by auto
next
  case Dequeue
  obtain r q' where r: "deq q = Some (r, q')" using deq_returns [OF assms] by blast
  with deq_result [OF assms r] assms Dequeue show ?thesis by (cases r) auto
qed

lemma run_refines:
  assumes "inv (length ops + n) q"
  shows "\<exists>q'. queue_run enq deq ops q = Some (fst (spec_run (cap q) ops (items q)), q') \<and> inv n q' \<and>
    items q' = snd (spec_run (cap q) ops (items q)) \<and> cap q' = cap q"
  using assms
proof (induction ops arbitrary: q)
  case (Cons op ops)
  then have "inv (Suc (length ops + n)) q" by simp
  then obtain q' where 1: "queue_step enq deq op q = Some (fst (spec_op (cap q) op (items q)), q')"
    "inv (length ops + n) q'" "items q' = snd (spec_op (cap q) op (items q))" "cap q' = cap q"
    using op_refines by blast
  from Cons.IH [OF 1(2)] show ?case unfolding 1(3,4) by (auto simp: 1(1) case_prod_unfold)
qed simp

end

section \<open>The ring implements the contract\<close>

text \<open>
  \<open>q_len\<close> elements wait from the tail on; slot \<open>i\<close> after the tail carries its position plus one
  when it is filled and its position when it is free.
\<close>

definition q_len :: "'a mpsc_queue \<Rightarrow> nat" where
  "q_len q = unat (q_head q - q_tail q)"

definition slot_at :: "'a mpsc_queue \<Rightarrow> nat \<Rightarrow> 'a slot" where
  "slot_at q i = buffer q ! cell_index q (q_tail q + of_nat i)"

definition ring_shape :: "nat \<Rightarrow> 'a mpsc_queue \<Rightarrow> bool" where
  "ring_shape k q \<longleftrightarrow> k < 64 \<and> buffer_mask q = mask k \<and> length (buffer q) = 2 ^ k"

definition mpsc_inv :: "'a mpsc_queue \<Rightarrow> bool" where
  "mpsc_inv q \<longleftrightarrow>
     (\<exists>k \<ge> 1. ring_shape k q) \<and> q_len q \<le> length (buffer q) \<and>
     (\<forall>i < length (buffer q). slot_sequence (slot_at q i) =
        (if i < q_len q then q_tail q + of_nat i + 1 else q_tail q + of_nat i))"

text \<open>\<open>n\<close> more operations keep the signed value of every position below \<open>2 ^ 63\<close>.\<close>

definition room_for :: "nat \<Rightarrow> 'a mpsc_queue \<Rightarrow> bool" where
  "room_for n q \<longleftrightarrow> sint (q_tail q) + int (q_len q + n) < 2 ^ 63 - 1"

definition queue_items :: "'a mpsc_queue \<Rightarrow> 'a list" where
  "queue_items q = map (\<lambda>i. slot_data (slot_at q i)) [0..<q_len q]"

definition queue_capacity :: "'a mpsc_queue \<Rightarrow> nat" where
  "queue_capacity q = length (buffer q)"

lemma ring_shape_simps [simp]:
  "ring_shape k (q\<lparr>q_head := h\<rparr>) = ring_shape k q"
  "ring_shape k (q\<lparr>q_tail := t\<rparr>) = ring_shape k q"
  "ring_shape k (q\<lparr>buffer := (buffer q)[n := s]\<rparr>) = ring_shape k q"
  by (simp_all add: ring_shape_def)

lemma cell_index_mod:
  assumes "ring_shape k q"
  shows "cell_index q pos = unat pos mod 2 ^ k"
proof -
  have "pos AND buffer_mask q = take_bit k pos"
    using assms by (simp add: ring_shape_def take_bit_eq_mask)
  then have "cell_index q pos = take_bit k (unat pos)"
    by (simp add: cell_index_def unsigned_take_bit_eq)
  then show ?thesis by (simp add: take_bit_eq_mod)
qed

lemma cell_index_plus:
  assumes "ring_shape k q"
  shows "cell_index q (pos + of_nat i) = (unat pos + i) mod 2 ^ k"
proof -
  have "k \<le> 64" using assms by (simp add: ring_shape_def)
  then have d: "(2::nat) ^ k dvd 2 ^ 64" by (rule le_imp_power_dvd)
  have "unat (pos + of_nat i) = (unat pos + i) mod 2 ^ 64"
    by (simp add: unat_word_ariths unsigned_of_nat take_bit_eq_mod mod_simps)
  then show ?thesis by (simp only: cell_index_mod [OF assms] mod_mod_cancel [OF d])
qed

lemma cell_index_less: "ring_shape k q \<Longrightarrow> cell_index q pos < length (buffer q)"
  by (simp only: cell_index_mod) (simp add: ring_shape_def)

lemma mod_window_inject:
  assumes "i < (m::nat)" "j < m" "(n + i) mod m = (n + j) mod m"
  shows "i = j"
proof -
  have aux: "a = b" if "a \<le> b" "b < m" "(n + a) mod m = (n + b) mod m" for a b
  proof -
    have "m dvd (n + b) - (n + a)" using that mod_eq_dvd_iff_nat [of "n + a" "n + b" m] by simp
    with that show ?thesis by (auto dest: dvd_imp_le)
  qed
  show ?thesis using aux [of i j] aux [of j i] assms by (cases "i \<le> j") auto
qed

lemma cell_index_inject:
  assumes "ring_shape k q" "i < length (buffer q)" "j < length (buffer q)"
    "cell_index q (pos + of_nat i) = cell_index q (pos + of_nat j)"
  shows "i = j"
  using mod_window_inject [of i "2 ^ k" j "unat pos"] assms
  by (simp only: cell_index_plus) (simp add: ring_shape_def)

lemma cell_index_lap:
  "ring_shape k q \<Longrightarrow> cell_index q (pos + of_nat (length (buffer q))) = cell_index q pos"
  by (simp only: cell_index_plus) (simp only: cell_index_mod, simp add: ring_shape_def)


text \<open>What the two claims do to the slots seen from the new tail.\<close>

lemma slot_at_fill:
  assumes "ring_shape k q" "i < length (buffer q)" "j < length (buffer q)"
  shows "slot_at (fill_cell q (q_tail q + of_nat j) x) i =
    (if i = j then \<lparr>slot_sequence = q_tail q + of_nat j + 1, slot_data = x\<rparr> else slot_at q i)"
  using cell_index_inject [OF assms, of "q_tail q"] cell_index_less [OF assms(1)]
  by (auto simp: slot_at_def fill_cell_def cell_index_def nth_list_update)

lemma slot_at_release:
  assumes "ring_shape k q" "i < length (buffer q)"
  shows "slot_at (release_cell q (q_tail q)) i =
    (if i + 1 = length (buffer q)
     then (slot_at q 0)\<lparr>slot_sequence := q_tail q + of_nat (length (buffer q))\<rparr>
     else slot_at q (i + 1))"
proof -
  let ?N = "length (buffer q)"
  have m: "buffer_mask q + 1 = of_nat ?N"
    using assms(1) by (simp add: ring_shape_def mask_eq_exp_minus_1)
  have idx: "cell_index (release_cell q (q_tail q)) pos = cell_index q pos" for pos
    by (simp add: cell_index_def release_cell_def)
  have shift: "q_tail (release_cell q (q_tail q)) + of_nat i = q_tail q + of_nat (i + 1)"
    by (simp add: release_cell_def)
  show ?thesis
  proof (cases "i + 1 = ?N")
    case True
    then have "cell_index q (q_tail q + of_nat (i + 1)) = cell_index q (q_tail q)"
      using cell_index_lap [OF assms(1)] by simp
    with True m cell_index_less [OF assms(1)] show ?thesis
      by (simp add: slot_at_def idx shift) (simp add: release_cell_def add.assoc)
  next
    case False
    with assms have "i + 1 < ?N" by simp
    then have "cell_index q (q_tail q + of_nat (i + 1)) \<noteq> cell_index q (q_tail q + of_nat 0)"
      using cell_index_inject [OF assms(1), of "i + 1" 0 "q_tail q"] by fastforce
    with False show ?thesis
      by (simp add: slot_at_def idx shift) (simp add: release_cell_def)
  qed
qed


lemma small_word:
  assumes "ring_shape k q" "n \<le> length (buffer q)"
  shows "unat (of_nat n :: u64) = n"
proof -
  have "(2::nat) ^ k < 2 ^ 64" using assms(1) by (intro power_strict_increasing) (auto simp: ring_shape_def)
  with assms have "n < 2 ^ 64" by (simp add: ring_shape_def)
  then show ?thesis by (simp add: unsigned_of_nat take_bit_nat_eq_self)
qed

lemma q_len_fill:
  assumes "ring_shape k q" "q_len q < length (buffer q)"
  shows "q_len (fill_cell q (q_head q) x) = q_len q + 1"
proof -
  have "q_head q + 1 - q_tail q = of_nat (q_len q + 1)" by (simp add: q_len_def)
  then have "unat (q_head q + 1 - q_tail q) = unat (of_nat (q_len q + 1) :: u64)" by (simp only:)
  then have "unat (q_head q + 1 - q_tail q) = q_len q + 1"
    using small_word [OF assms(1), of "q_len q + 1"] assms(2) by linarith
  then show ?thesis
    unfolding q_len_def [of "fill_cell q (q_head q) x"] by (simp add: fill_cell_def)
qed

lemma q_len_release:
  assumes "ring_shape k q" "0 < q_len q" "q_len q \<le> length (buffer q)"
  shows "q_len (release_cell q (q_tail q)) = q_len q - 1"
proof -
  have "(of_nat (q_len q - 1) :: u64) = of_nat (q_len q) - 1"
    using assms(2) by (simp add: of_nat_diff)
  then have "q_head q - (q_tail q + 1) = of_nat (q_len q - 1)" by (simp add: q_len_def)
  with small_word [OF assms(1), of "q_len q - 1"] assms(3) show ?thesis
    unfolding q_len_def [of "release_cell q (q_tail q)"] by (simp add: release_cell_def)
qed

lemma head_of_len: "q_head q = q_tail q + of_nat (q_len q)"
  by (simp add: q_len_def)

lemma sint_small:
  assumes "- (2 ^ 63) \<le> i" "i < 2 ^ 63"
  shows "sint (of_int i :: u64) = i"
  using assms by (simp add: signed_of_int signed_take_bit_int_eq_self)

lemma sint_range: "- (2 ^ 63) \<le> sint (w :: u64)" "sint (w :: u64) < 2 ^ 63"
  using sint_ge [of w] sint_lt [of w] by simp_all

lemma sint_plus:
  assumes "sint w + int i < 2 ^ 63"
  shows "sint (w + of_nat i :: u64) = sint w + int i"
proof -
  have "w + of_nat i = of_int (sint w + int i)" by simp
  then show ?thesis using sint_small [of "sint w + int i"] sint_range [of w] assms by simp
qed

lemma dif_self [simp]: "seq_dif w w = 0" "dif_defined w w"
  by (simp_all add: seq_dif_def dif_defined_def)

lemma seq_dif_plus:
  assumes "sint w + int i < 2 ^ 63" "sint w + int j < 2 ^ 63" "i \<le> 2 ^ 63" "j \<le> 2 ^ 63" "i < 2 ^ 63"
  shows "seq_dif (w + of_nat i) (w + of_nat j) = int i - int j" "dif_defined (w + of_nat i) (w + of_nat j)"
proof -
  show d: "seq_dif (w + of_nat i) (w + of_nat j) = int i - int j"
    using assms by (simp add: seq_dif_def sint_plus)
  have "int i < 2 ^ 63" "int j \<le> 2 ^ 63" using assms(4,5) by (simp_all del: of_nat_power)
  then show "dif_defined (w + of_nat i) (w + of_nat j)" unfolding dif_defined_def d by linarith
qed

text \<open>Below \<open>2 ^ 63\<close> the subtraction is defined, and is the difference of the unsigned values.\<close>

lemma seq_dif_exact:
  assumes "unat s < 2 ^ 63" "unat p < 2 ^ 63"
  shows "seq_dif s p = int (unat s) - int (unat p)" "dif_defined s p"
proof -
  have plus: "0 + of_nat (unat w) = w" for w :: u64 by simp
  have less: "int n < 2 ^ 63" if "n < 2 ^ 63" for n using that by simp
  have "sint (0 :: u64) = 0" by simp
  from seq_dif_plus [of "0 :: u64" "unat s" "unat p", unfolded plus this, simplified] less [OF assms(1)] less [OF assms(2)] assms
  show "seq_dif s p = int (unat s) - int (unat p)" "dif_defined s p" by simp_all
qed

lemma ring_small: "ring_shape k q \<Longrightarrow> length (buffer q) \<le> 2 ^ 63"
  using power_increasing [of k 63 "2::nat"] by (simp add: ring_shape_def)

text \<open>The two tests the code makes, at the head and at the tail.\<close>

lemma head_dif:
  assumes "ring_shape k q" "room_for (Suc n) q" "q_len q \<le> length (buffer q)" "i \<le> q_len q" "i < 2 ^ 63"
  shows "seq_dif (q_tail q + of_nat i) (q_head q) = int i - int (q_len q)"
    "dif_defined (q_tail q + of_nat i) (q_head q)"
  using seq_dif_plus [of "q_tail q" i "q_len q"] assms ring_small [OF assms(1)]
  unfolding head_of_len [of q] room_for_def by simp_all

lemma tail_dif:
  assumes "room_for (Suc n) q" "i \<le> 1"
  shows "seq_dif (q_tail q + of_nat i) (q_tail q + 1) = int i - 1" "dif_defined (q_tail q + of_nat i) (q_tail q + 1)"
  using seq_dif_plus [of "q_tail q" i 1] assms unfolding room_for_def by simp_all

lemma head_sequence:
  assumes "ring_shape k q"
  shows "cell_sequence q (q_head q) =
    slot_sequence (slot_at q (if q_len q = length (buffer q) then 0 else q_len q))"
  using cell_index_lap [OF assms, of "q_tail q"]
  by (simp add: cell_sequence_def slot_at_def head_of_len [of q] cell_index_def)

lemma mpsc_enqueue_room:
  fixes q :: "'a mpsc_queue" and x :: 'a
  assumes inv: "mpsc_inv q" and more: "room_for (Suc n) q" and room: "q_len q < length (buffer q)"
  defines "q' \<equiv> fill_cell q (q_head q) x"
  shows "mpsc_enqueue q x = Some (True, q')" and "mpsc_inv q'" and "room_for n q'"
    and "queue_items q' = queue_items q @ [x]" and "queue_capacity q' = queue_capacity q"
proof -
  from inv obtain k where k: "1 \<le> k" "ring_shape k q" by (auto simp: mpsc_inv_def)
  have "cell_sequence q (q_head q) = q_head q"
    using inv room unfolding head_sequence [OF k(2)] by (simp add: mpsc_inv_def head_of_len [of q])
  then show "mpsc_enqueue q x = Some (True, q')"
    by (simp add: mpsc_enqueue_def enqueue_loop.simps q'_def)
  note slots = slot_at_fill [OF k(2) _ room, folded head_of_len, of _ x, folded q'_def]
  note len = q_len_fill [OF k(2) room, of x, folded q'_def]
  have b: "length (buffer q') = length (buffer q)" "q_tail q' = q_tail q"
    by (simp_all add: q'_def fill_cell_def)
  then show "queue_capacity q' = queue_capacity q" by (simp add: queue_capacity_def)
  show "room_for n q'" using more by (simp add: room_for_def b len)
  have "ring_shape k q'" using k(2) by (simp add: q'_def fill_cell_def ring_shape_def)
  with k(1) room inv show "mpsc_inv q'"
    by (auto simp: mpsc_inv_def b len slots head_of_len [of q])
  show "queue_items q' = queue_items q @ [x]"
    using room by (simp add: queue_items_def len slots)
qed


lemma mpsc_enqueue_full:
  assumes inv: "mpsc_inv q" and more: "room_for (Suc n) q" and full: "q_len q = length (buffer q)"
  shows "mpsc_enqueue q x = Some (False, q)"
proof -
  from inv obtain k where k: "1 \<le> k" "ring_shape k q" by (auto simp: mpsc_inv_def)
  have two: "2 \<le> length (buffer q)"
    using k power_increasing [of 1 k "2::nat"] by (simp add: ring_shape_def)
  have "cell_sequence q (q_head q) = q_tail q + of_nat 1"
    using inv full two unfolding head_sequence [OF k(2)] mpsc_inv_def by force
  with head_dif [OF k(2) more, of 1] full two show ?thesis
    by (simp add: mpsc_enqueue_def enqueue_loop.simps)
qed

lemma tail_sequence: "cell_sequence q (q_tail q) = slot_sequence (slot_at q 0)"
  by (simp add: cell_sequence_def slot_at_def)

lemma mpsc_dequeue_empty:
  assumes inv: "mpsc_inv q" and more: "room_for (Suc n) q" and empty: "q_len q = 0"
  shows "mpsc_dequeue q = Some (None, q)"
proof -
  from inv have "0 < length (buffer q)" by (auto simp: mpsc_inv_def ring_shape_def)
  with inv empty have "cell_sequence q (q_tail q) = q_tail q"
    unfolding tail_sequence mpsc_inv_def by force
  with tail_dif [OF more, of 0] show ?thesis by (simp add: mpsc_dequeue_def dequeue_loop.simps)
qed

lemma mpsc_dequeue_some:
  fixes q :: "'a mpsc_queue"
  assumes inv: "mpsc_inv q" and more: "room_for (Suc n) q" and ne: "0 < q_len q"
  defines "q' \<equiv> release_cell q (q_tail q)"
  shows "mpsc_dequeue q = Some (Some (hd (queue_items q)), q')" and "mpsc_inv q'" and "room_for n q'"
    and "queue_items q' = tl (queue_items q)" and "queue_capacity q' = queue_capacity q"
proof -
  let ?N = "length (buffer q)"
  from inv obtain k where k: "1 \<le> k" "ring_shape k q" by (auto simp: mpsc_inv_def)
  from inv ne have le: "q_len q \<le> ?N" and N: "0 < ?N" by (auto simp: mpsc_inv_def)
  have "cell_sequence q (q_tail q) = q_tail q + 1"
    using inv ne N unfolding tail_sequence mpsc_inv_def by force
  moreover have "hd (queue_items q) = cell_data q (q_tail q)"
    using ne by (simp add: queue_items_def slot_at_def cell_data_def hd_map)
  ultimately show "mpsc_dequeue q = Some (Some (hd (queue_items q)), q')"
    using tail_dif [OF more, of 1] by (simp add: mpsc_dequeue_def dequeue_loop.simps q'_def)
  note slots = slot_at_release [OF k(2), folded q'_def]
  note len = q_len_release [OF k(2) ne le, folded q'_def]
  have b: "length (buffer q') = ?N" "q_tail q' = q_tail q + 1"
    by (simp_all add: q'_def release_cell_def)
  then show "queue_capacity q' = queue_capacity q" by (simp add: queue_capacity_def)
  have "sint (q_tail q + of_nat 1) = sint (q_tail q) + int 1"
    using more ne by (intro sint_plus) (simp add: room_for_def)
  then show "room_for n q'" using more ne by (simp add: room_for_def b len of_nat_diff)
  have shape: "ring_shape k q'" using k(2) by (simp add: q'_def release_cell_def ring_shape_def)
  have "slot_sequence (slot_at q' i) =
      (if i < q_len q' then q_tail q' + of_nat i + 1 else q_tail q' + of_nat i)" if i: "i < ?N" for i
  proof (cases "i + 1 = ?N")
    case True
    then have "of_nat ?N = (of_nat i + 1 :: u64)" by (metis of_nat_Suc Suc_eq_plus1 add.commute)
    with True le show ?thesis by (simp add: slots [OF i] b len)
  next
    case False
    with i have "i + 1 < ?N" by simp
    with inv ne False show ?thesis
      by (auto simp: slots [OF i] b len mpsc_inv_def add.assoc)
  qed
  then show "mpsc_inv q'" using shape k(1) le len by (auto simp: mpsc_inv_def b)
  have "queue_items q' = map (\<lambda>i. slot_data (slot_at q (Suc i))) [0..<q_len q - 1]"
    unfolding queue_items_def len using le by (intro map_cong) (auto simp: slots)
  also have "\<dots> = tl (queue_items q)"
    by (rule nth_equalityI) (auto simp: queue_items_def nth_tl)
  finally show "queue_items q' = tl (queue_items q)" .
qed

interpretation mq: bounded_queue mpsc_enqueue mpsc_dequeue queue_items queue_capacity "\<lambda>n q. mpsc_inv q \<and> room_for n q"
proof
  fix n and q :: "'a mpsc_queue" and x y :: 'a and ys :: "'a list"
  have [simp]: "length (queue_items q) = q_len q" by (simp add: queue_items_def)
  show "length (queue_items q) \<le> queue_capacity q" if "mpsc_inv q \<and> room_for n q"
    using that by (simp add: mpsc_inv_def queue_capacity_def)
  assume inv: "mpsc_inv q \<and> room_for (Suc n) q"
  then show "mpsc_inv q \<and> room_for n q" by (simp add: room_for_def)
  show "\<exists>q'. mpsc_enqueue q x = Some (True, q') \<and> (mpsc_inv q' \<and> room_for n q') \<and>
      queue_items q' = queue_items q @ [x] \<and> queue_capacity q' = queue_capacity q"
    if "length (queue_items q) < queue_capacity q"
    using mpsc_enqueue_room [OF conjunct1 [OF inv] conjunct2 [OF inv], of x] that by (simp add: queue_capacity_def)
  show "mpsc_enqueue q x = Some (False, q)" if "length (queue_items q) = queue_capacity q"
    using mpsc_enqueue_full [OF conjunct1 [OF inv] conjunct2 [OF inv]] that by (simp add: queue_capacity_def)
  show "\<exists>q'. mpsc_dequeue q = Some (Some y, q') \<and> (mpsc_inv q' \<and> room_for n q') \<and>
      queue_items q' = ys \<and> queue_capacity q' = queue_capacity q"
    if "queue_items q = y # ys"
  proof -
    have "0 < q_len q" using that by (cases "q_len q = 0") (auto simp: queue_items_def)
    with mpsc_dequeue_some [OF conjunct1 [OF inv] conjunct2 [OF inv]] that show ?thesis by auto
  qed
  show "mpsc_dequeue q = Some (None, q)" if "queue_items q = []"
    using mpsc_dequeue_empty [OF conjunct1 [OF inv] conjunct2 [OF inv]] that by (simp add: queue_items_def)
qed

lemma power_of_2_test:
  fixes c :: u64
  shows "c \<noteq> 0 \<and> c AND (c - 1) = 0 \<longleftrightarrow> (\<exists>k<64. c = 2 ^ k)"
proof (intro iffI conjI)
  assume c: "c \<noteq> 0 \<and> c AND (c - 1) = 0"
  then obtain p where p: "p < 64" "bit c p" "\<And>j. p < j \<Longrightarrow> \<not> bit c j"
    using top_bit by blast
  note b = unat_between [OF p]
  have "unat c = 2 ^ p"
  proof (rule ccontr)
    assume "unat c \<noteq> 2 ^ p"
    moreover have "unat (c - 1) = unat c - 1"
      using b(1) unat_sub [of 1 c] by (simp add: word_le_nat_alt Suc_le_eq less_le_trans [OF _ b(1)])
    ultimately have "2 ^ p \<le> unat (c - 1)" "unat (c - 1) < 2 * 2 ^ p" using b by auto
    then have "unat (c - 1) div 2 ^ p = 1" by (intro div_nat_eqI) auto
    then have "bit (unat (c - 1)) p" by (simp add: bit_iff_odd)
    then have "bit (c - 1) p" by (simp add: bit_unsigned_iff)
    with p(2) c show False by (metis bit_0_eq bit_and_iff bot_apply bot_bool_def)
  qed
  then have "c = 2 ^ p" using unat_two_power [OF p(1)] by (metis word_unat_eq_iff)
  with p(1) show "\<exists>k<64. c = 2 ^ k" by blast
next
  assume "\<exists>k<64. c = 2 ^ k"
  then obtain k where k: "k < 64" "c = 2 ^ k" by blast
  with unat_two_power [OF k(1)] show "c \<noteq> 0" by auto
  have "c - 1 = mask k" using k(2) by (simp add: mask_eq_exp_minus_1)
  with k show "c AND (c - 1) = 0"
    by (intro bit_word_eqI) (auto simp: bit_and_iff bit_exp_iff bit_mask_iff)
qed

lemma mpsc_new_inv:
  fixes dflt :: 'a
  assumes k: "1 \<le> k" "k < 64"
  obtains q where "mpsc_new dflt (2 ^ k) = Inr q" "mpsc_inv q" "queue_items q = []"
    "queue_capacity q = 2 ^ k"
proof -
  define q where "q = \<lparr>buffer_mask = 2 ^ k - 1,
    buffer = map (\<lambda>i. \<lparr>slot_sequence = of_nat i, slot_data = dflt\<rparr>) [0..<2 ^ k],
    q_head = 0, q_tail = 0\<rparr>"
  have new: "mpsc_new dflt (2 ^ k) = Inr q"
    using power_of_2_test [of "2 ^ k"] k(2)
    by (auto simp: mpsc_new_def q_def unat_two_power)
  have shape: "ring_shape k q" using k(2) by (simp add: q_def ring_shape_def mask_eq_exp_minus_1)
  have len: "length (buffer q) = 2 ^ k" by (simp add: q_def)
  have "slot_at q i = \<lparr>slot_sequence = of_nat i, slot_data = dflt\<rparr>" if "i < length (buffer q)" for i
  proof -
    have "cell_index q (q_tail q + of_nat i) = i"
      using that by (simp only: cell_index_plus [OF shape]) (simp add: q_def)
    with that show ?thesis by (simp add: slot_at_def) (simp add: q_def)
  qed
  moreover have "q_len q = 0" by (simp add: q_def q_len_def)
  ultimately have "mpsc_inv q" using k(1) shape by (auto simp: mpsc_inv_def q_def)
  with new len \<open>q_len q = 0\<close> show thesis
    by (intro that [of q]) (simp_all add: queue_items_def queue_capacity_def)
qed

lemma rounded_power:
  assumes "unat n \<le> 2 ^ 63"
  obtains k where "1 \<le> k" "k < 64" "round_up_to_power_of_2 n = 2 ^ k" "unat n \<le> 2 ^ k"
proof (cases "unat n \<le> 1")
  case True
  with rounding_cases [of n] show thesis by (intro that [of 1]) auto
next
  case False
  with assms rounding_cases [of n] obtain k where
    k: "unat (round_up_to_power_of_2 n) = 2 ^ Suc k" "2 ^ k < unat n" "unat n \<le> 2 ^ Suc k"
    by auto
  with assms have "(2::nat) ^ k < 2 ^ 63" by (meson less_le_trans)
  then have "Suc k < 64" by (simp only: power_strict_increasing_iff)
  with k unat_two_power [of "Suc k"] show thesis
    by (intro that [of "Suc k"]) (auto simp: word_unat_eq_iff simp del: power_Suc)
qed

text \<open>With one slot, filled and free carry the same number and the reader retries for ever.\<close>

lemma capacity_one_spins:
  fixes y :: 'a
  defines "q \<equiv> \<lparr>buffer_mask = 0, buffer = [\<lparr>slot_sequence = 2, slot_data = y\<rparr>],
    q_head = 2, q_tail = 0\<rparr>"
  shows "dequeue_loop q 0 = None"
proof (rule ccontr)
  assume "dequeue_loop q 0 \<noteq> None"
  then obtain r where r: "dequeue_loop q 0 = Some r" by blast
  have "\<not> (q' = q \<and> pos = 0)" if "dequeue_loop q' pos = Some r" for q' :: "'a mpsc_queue" and pos r
    using that
    by (rule dequeue_loop.raw_induct [rotated])
      (auto simp: q_def cell_sequence_def cell_index_def seq_dif_def split: if_splits; blast)
  from this [OF r] show False by simp
qed

section \<open>Properties\<close>

text \<open>
  Requested capacities are rounded to the least power of two that holds them and is at least 2;
  beyond \<open>2 ^ 63\<close> the result wraps to 0.
\<close>

theorem round_up_least:
  "if unat n \<le> 1 then round_up_to_power_of_2 n = 2
   else if unat n \<le> 2 ^ 63
   then (\<exists>k. unat (round_up_to_power_of_2 n) = 2 ^ Suc k \<and> 2 ^ k < unat n \<and> unat n \<le> 2 ^ Suc k)
   else round_up_to_power_of_2 n = 0"
  by (rule rounding_cases)

text \<open>
  The constructor accepts exactly the powers of two that fit \<^verbatim>\<open>std::size_t\<close>; zero and every other
  value is refused with \<^verbatim>\<open>std::invalid_argument\<close>.
\<close>

theorem mpsc_new_accepts:
  "(mpsc_new dflt c = Inl (Invalid_Argument ''capacity must be a power of 2'')) \<noteq> (\<exists>k<64. c = 2 ^ k)
   \<and> (isl (mpsc_new dflt c)) \<noteq> (\<exists>k<64. c = 2 ^ k)"
  using power_of_2_test [of c] by (auto simp: mpsc_new_def)

text \<open>
  C10. Every sequence of enqueues and dequeues on a well-formed queue returns, and gives the results
  a list bounded by the capacity gives: accepted elements come out once, in order, an enqueue is
  refused exactly when the queue is full. It holds wherever the 64-bit counters are, their wrap-around to
  0 included, as long as no position the operations reach has a signed value of \<open>2 ^ 63 - 1\<close> or more: there the
  code's signed subtraction overflows (\<open>counter_boundary_undefined\<close>). From a new queue that is after
  more than \<open>9 * 10 ^ 18\<close> operations.
\<close>

theorem mpsc_refines_bounded_list:
  assumes "mpsc_inv q" "sint (q_tail q) + int (length (queue_items q)) + int (length ops) < 2 ^ 63 - 1"
  shows "\<exists>q'. queue_run mpsc_enqueue mpsc_dequeue ops q =
      Some (fst (spec_run (queue_capacity q) ops (queue_items q)), q') \<and>
    mpsc_inv q' \<and> queue_items q' = snd (spec_run (queue_capacity q) ops (queue_items q)) \<and>
    queue_capacity q' = queue_capacity q"
proof -
  have "mpsc_inv q \<and> room_for (length ops + 0) q"
    using assms by (simp add: room_for_def queue_items_def)
  from mq.run_refines [OF this] show ?thesis by blast
qed

text \<open>An instance whose counters wrap between the first and the second enqueue.\<close>

definition wrapping_queue :: "nat mpsc_queue" where
  "wrapping_queue =
     \<lparr>buffer_mask = 1, buffer = [\<lparr>slot_sequence = 0, slot_data = 0\<rparr>, \<lparr>slot_sequence = - 1, slot_data = 0\<rparr>],
      q_head = - 1, q_tail = - 1\<rparr>"

lemma wrapping_queue_inv:
  "mpsc_inv wrapping_queue" "queue_items wrapping_queue = []" "queue_capacity wrapping_queue = 2"
proof -
  have "ring_shape 1 wrapping_queue" by (simp add: ring_shape_def wrapping_queue_def)
  moreover have "slot_sequence (slot_at wrapping_queue i) = q_tail wrapping_queue + of_nat i"
    if "i < 2" for i
  proof -
    have "i = 0 \<or> i = 1" using that by linarith
    then show ?thesis by (auto simp: slot_at_def cell_index_def wrapping_queue_def)
  qed
  ultimately show "mpsc_inv wrapping_queue"
    by (auto simp: mpsc_inv_def q_len_def) (auto simp: wrapping_queue_def)
qed (simp_all add: queue_items_def queue_capacity_def q_len_def wrapping_queue_def)

theorem mpsc_refines_bounded_list_witness:
  "\<exists>q'. queue_run mpsc_enqueue mpsc_dequeue
      [Enqueue 7, Enqueue 8, Enqueue 9, Dequeue, Dequeue, Dequeue] wrapping_queue =
    Some ([Accepted, Accepted, Refused, Got 7, Got 8, Empty], q') \<and> queue_items q' = []"
proof -
  have "sint (q_tail wrapping_queue) = - 1" by (simp add: wrapping_queue_def)
  then show ?thesis
    using mpsc_refines_bounded_list [OF wrapping_queue_inv(1),
        of "[Enqueue 7, Enqueue 8, Enqueue 9, Dequeue, Dequeue, Dequeue]"]
    by (auto simp: wrapping_queue_inv simp del: queue_run.simps)
qed

text \<open>
  At the position \<open>2 ^ 63 - 1\<close> the test for an empty queue subtracts the least signed value from the
  greatest: the behaviour of the code is undefined.
\<close>

definition boundary_queue :: "nat mpsc_queue" where
  "boundary_queue =
     \<lparr>buffer_mask = 1, buffer = [\<lparr>slot_sequence = 2 ^ 63, slot_data = 0\<rparr>, \<lparr>slot_sequence = 2 ^ 63 - 1, slot_data = 0\<rparr>],
      q_head = 2 ^ 63 - 1, q_tail = 2 ^ 63 - 1\<rparr>"

theorem counter_boundary_undefined:
  "mpsc_inv boundary_queue \<and> queue_items boundary_queue = [] \<and> mpsc_dequeue boundary_queue = None"
proof (intro conjI)
  have "ring_shape 1 boundary_queue" by (simp add: ring_shape_def boundary_queue_def)
  moreover have "slot_sequence (slot_at boundary_queue i) = q_tail boundary_queue + of_nat i" if "i < 2" for i
  proof -
    have "i = 0 \<or> i = 1" using that by linarith
    then show ?thesis by (auto simp: slot_at_def cell_index_def boundary_queue_def)
  qed
  ultimately show "mpsc_inv boundary_queue"
    by (auto simp: mpsc_inv_def q_len_def) (auto simp: boundary_queue_def)
  show "queue_items boundary_queue = []" by (simp add: queue_items_def q_len_def boundary_queue_def)
  show "mpsc_dequeue boundary_queue = None"
    by (simp add: mpsc_dequeue_def dequeue_loop.simps boundary_queue_def cell_sequence_def cell_index_def
        dif_defined_def seq_dif_def)
qed

text \<open>
  A queue built at the rounded capacity of a request is well formed, empty, and of exactly that
  capacity, which holds at least what was requested.
\<close>

theorem rounded_queue_ready:
  assumes "unat n \<le> 2 ^ 63"
  shows "\<exists>q. mpsc_new dflt (round_up_to_power_of_2 n) = Inr q \<and> mpsc_inv q \<and> queue_items q = [] \<and>
    queue_capacity q = unat (round_up_to_power_of_2 n) \<and> unat n \<le> queue_capacity q"
proof -
  obtain k where k: "1 \<le> k" "k < 64" "round_up_to_power_of_2 n = 2 ^ k" "unat n \<le> 2 ^ k"
    using rounded_power [OF assms] by blast
  with mpsc_new_inv [OF k(1,2), of dflt] show ?thesis by (metis unat_two_power)
qed

theorem rounded_queue_ready_witness:
  "\<exists>q. mpsc_new (0::nat) (round_up_to_power_of_2 1000) = Inr q \<and> mpsc_inv q \<and>
    queue_items q = [] \<and> queue_capacity q = 1024"
proof -
  have "round_up_to_power_of_2 1000 = 1024"
    by (simp add: round_up_to_power_of_2_def word_le_nat_alt)
  with rounded_queue_ready [of 1000 "0::nat"] show ?thesis by auto
qed

text \<open>
  Capacity 1 passes the constructor's check, but then the sequence number of a filled slot is
  also the one that means free for the next lap: a second enqueue succeeds although the queue is
  full, overwrites the first element, and every later dequeue spins without returning.
\<close>

theorem capacity_one_broken:
  fixes a x y :: 'a
  shows "\<exists>q0 q1 q2. mpsc_new a 1 = Inr q0 \<and> mpsc_enqueue q0 x = Some (True, q1) \<and>
     mpsc_enqueue q1 y = Some (True, q2) \<and> mpsc_dequeue q2 = None"
proof -
  define q where "q = (\<lambda>n :: u64. \<lambda>d :: 'a. \<lparr>buffer_mask = 0,
    buffer = [\<lparr>slot_sequence = n, slot_data = d\<rparr>], q_head = n, q_tail = 0\<rparr>)"
  have "mpsc_new a 1 = Inr (q 0 a)" by (simp add: mpsc_new_def q_def)
  moreover have "mpsc_enqueue (q n d) z = Some (True, q (n + 1) z)" for n d z
    by (simp add: mpsc_enqueue_def enqueue_loop.simps q_def cell_sequence_def cell_index_def
        seq_dif_def fill_cell_def)
  moreover have "mpsc_dequeue (q (0 + 1 + 1) y) = None"
    using capacity_one_spins [of y] by (simp add: mpsc_dequeue_def q_def)
  ultimately show ?thesis by blast
qed

end
