(* ===== verification/Mpsc_Concurrent.thy ===== *)
theory Mpsc_Concurrent
  imports Mpsc_Queue
begin

text \<open>
  \<^verbatim>\<open>include/logspine/detail/mpsc_queue.hpp\<close> under concurrency: any number of threads inside
  \<^verbatim>\<open>enqueue\<close> and \<^verbatim>\<open>dequeue\<close>, one step per access to shared memory, interleaved in any order
  (sequentially consistent here, with the memory orders of the code in \<open>Mpsc_Orders\<close>;
  \<^verbatim>\<open>compare_exchange_weak\<close> may also fail spuriously). Tickets are the
  values of the head and tail counters; the invariant covers the first \<open>2 ^ 62\<close> of them, far below
  the wrap-around of the counters and in the range where the signed subtraction of the tests is defined
  (\<open>cq_load_dif\<close> in \<open>Ticket_Queue\<close>). The queue is shown to behave as the ticket queue \<open>tq_step\<close>, on
  which the dispatcher is modelled.
\<close>

unbundle bit_operations_syntax

section \<open>Threads and shared memory\<close>

text \<open>
  Where a thread is: in \<open>E_load\<close> and \<open>D_load\<close> it has read a position and is about to load the
  sequence number of its cell; from a successful compare-and-exchange on, in \<open>E_write\<close>,
  \<open>E_publish\<close>, \<open>D_take\<close> and \<open>D_release\<close>, it holds the ticket.
\<close>

datatype 'a qpc =
    Q_idle
  | E_load 'a u64
  | E_cas 'a u64
  | E_reload 'a
  | E_write 'a u64
  | E_publish u64
  | D_load u64
  | D_cas u64
  | D_reload
  | D_take u64
  | D_release u64 'a

text \<open>\<open>cq_hist\<close> and \<open>cq_got\<close> are history: the elements by enqueue ticket, and what was read for which
  dequeue ticket.\<close>

record 'a cqueue =
  cq_mask :: u64
  cq_seq :: "nat \<Rightarrow> u64"
  cq_data :: "nat \<Rightarrow> 'a"
  cq_head :: u64
  cq_tail :: u64
  cq_pc :: "nat \<Rightarrow> 'a qpc"
  cq_hist :: "'a list"
  cq_got :: "(nat \<times> 'a) list"

definition cq_init :: "'a \<Rightarrow> nat \<Rightarrow> 'a cqueue" where
  "cq_init dflt k =
     \<lparr>cq_mask = 2 ^ k - 1, cq_seq = of_nat, cq_data = (\<lambda>i. dflt), cq_head = 0, cq_tail = 0,
      cq_pc = (\<lambda>t. Q_idle), cq_hist = [], cq_got = []\<rparr>"

definition cq_index :: "'a cqueue \<Rightarrow> u64 \<Rightarrow> nat" where
  "cq_index s pos = unat (pos AND cq_mask s)"

definition cq_goto :: "nat \<Rightarrow> 'a qpc \<Rightarrow> 'a cqueue \<Rightarrow> 'a cqueue" where
  "cq_goto t pc s = s\<lparr>cq_pc := (cq_pc s)(t := pc)\<rparr>"

datatype 'a qlabel =
    Tau
  | Claim 'a
  | Publish u64
  | Refuse
  | Take u64
  | Nothing
  | Release u64

inductive cq_step :: "nat \<Rightarrow> 'a qlabel \<Rightarrow> 'a cqueue \<Rightarrow> 'a cqueue \<Rightarrow> bool" where
  enq_start: "cq_pc s t = Q_idle \<Longrightarrow> cq_step t Tau s (cq_goto t (E_load x (cq_head s)) s)"
| enq_equal: "cq_pc s t = E_load x pos \<Longrightarrow> seq_dif (cq_seq s (cq_index s pos)) pos = 0 \<Longrightarrow>
    cq_step t Tau s (cq_goto t (E_cas x pos) s)"
| enq_full: "cq_pc s t = E_load x pos \<Longrightarrow> seq_dif (cq_seq s (cq_index s pos)) pos < 0 \<Longrightarrow>
    cq_step t Refuse s (cq_goto t Q_idle s)"
| enq_behind: "cq_pc s t = E_load x pos \<Longrightarrow> seq_dif (cq_seq s (cq_index s pos)) pos > 0 \<Longrightarrow>
    cq_step t Tau s (cq_goto t (E_reload x) s)"
| enq_reload: "cq_pc s t = E_reload x \<Longrightarrow> cq_step t Tau s (cq_goto t (E_load x (cq_head s)) s)"
| enq_cas: "cq_pc s t = E_cas x pos \<Longrightarrow> cq_head s = pos \<Longrightarrow>
    cq_step t (Claim x) s
      (cq_goto t (E_write x pos) (s\<lparr>cq_head := pos + 1, cq_hist := cq_hist s @ [x]\<rparr>))"
| enq_cas_fail: "cq_pc s t = E_cas x pos \<Longrightarrow> cq_step t Tau s (cq_goto t (E_load x (cq_head s)) s)"
| enq_write: "cq_pc s t = E_write x pos \<Longrightarrow>
    cq_step t Tau s
      (cq_goto t (E_publish pos) (s\<lparr>cq_data := (cq_data s)(cq_index s pos := x)\<rparr>))"
| enq_publish: "cq_pc s t = E_publish pos \<Longrightarrow>
    cq_step t (Publish pos) s
      (cq_goto t Q_idle (s\<lparr>cq_seq := (cq_seq s)(cq_index s pos := pos + 1)\<rparr>))"
| deq_start: "cq_pc s t = Q_idle \<Longrightarrow> cq_step t Tau s (cq_goto t (D_load (cq_tail s)) s)"
| deq_equal: "cq_pc s t = D_load pos \<Longrightarrow> seq_dif (cq_seq s (cq_index s pos)) (pos + 1) = 0 \<Longrightarrow>
    cq_step t Tau s (cq_goto t (D_cas pos) s)"
| deq_empty: "cq_pc s t = D_load pos \<Longrightarrow> seq_dif (cq_seq s (cq_index s pos)) (pos + 1) < 0 \<Longrightarrow>
    cq_step t Nothing s (cq_goto t Q_idle s)"
| deq_behind: "cq_pc s t = D_load pos \<Longrightarrow> seq_dif (cq_seq s (cq_index s pos)) (pos + 1) > 0 \<Longrightarrow>
    cq_step t Tau s (cq_goto t D_reload s)"
| deq_reload: "cq_pc s t = D_reload \<Longrightarrow> cq_step t Tau s (cq_goto t (D_load (cq_tail s)) s)"
| deq_cas: "cq_pc s t = D_cas pos \<Longrightarrow> cq_tail s = pos \<Longrightarrow>
    cq_step t (Take pos) s (cq_goto t (D_take pos) (s\<lparr>cq_tail := pos + 1\<rparr>))"
| deq_cas_fail: "cq_pc s t = D_cas pos \<Longrightarrow> cq_step t Tau s (cq_goto t (D_load (cq_tail s)) s)"
| deq_take: "cq_pc s t = D_take pos \<Longrightarrow>
    cq_step t Tau s
      (cq_goto t (D_release pos (cq_data s (cq_index s pos)))
        (s\<lparr>cq_got := cq_got s @ [(unat pos, cq_data s (cq_index s pos))]\<rparr>))"
| deq_release: "cq_pc s t = D_release pos x \<Longrightarrow>
    cq_step t (Release pos) s
      (cq_goto t Q_idle
        (s\<lparr>cq_seq := (cq_seq s)(cq_index s pos := pos + cq_mask s + 1)\<rparr>))"

inductive_cases cq_stepE: "cq_step t l s s'"

inductive cq_reach :: "nat \<Rightarrow> 'a cqueue \<Rightarrow> bool" for k where
  cq_reach_init: "cq_reach k (cq_init dflt k)"
| cq_reach_step: "cq_reach k s \<Longrightarrow> cq_step t l s s' \<Longrightarrow> cq_reach k s'"

section \<open>The invariant\<close>

text \<open>Ticket \<open>p\<close> lives in cell \<open>p mod 2 ^ k\<close>.\<close>

definition ticket_seq :: "nat \<Rightarrow> 'a cqueue \<Rightarrow> nat \<Rightarrow> nat" where
  "ticket_seq k s p = unat (cq_seq s (p mod 2 ^ k))"

definition ticket_data :: "nat \<Rightarrow> 'a cqueue \<Rightarrow> nat \<Rightarrow> 'a" where
  "ticket_data k s p = cq_data s (p mod 2 ^ k)"

fun pc_writes :: "'a qpc \<Rightarrow> nat \<Rightarrow> bool" where
  "pc_writes (E_write x pos) p \<longleftrightarrow> unat pos = p"
| "pc_writes (E_publish pos) p \<longleftrightarrow> unat pos = p"
| "pc_writes _ p \<longleftrightarrow> False"

fun pc_reads :: "'a qpc \<Rightarrow> nat \<Rightarrow> bool" where
  "pc_reads (D_take pos) p \<longleftrightarrow> unat pos = p"
| "pc_reads (D_release pos x) p \<longleftrightarrow> unat pos = p"
| "pc_reads _ p \<longleftrightarrow> False"

text \<open>
  A ticket in the window is claimed and being written, or published, or free, or its cell is still
  being read for the previous lap.
\<close>

definition cell_ok :: "nat \<Rightarrow> 'a cqueue \<Rightarrow> nat \<Rightarrow> bool" where
  "cell_ok k s p \<longleftrightarrow>
     (if p < length (cq_hist s)
      then (ticket_seq k s p = p \<and> (\<exists>t. pc_writes (cq_pc s t) p)) \<or>
           (ticket_seq k s p = p + 1 \<and> ticket_data k s p = cq_hist s ! p)
      else ticket_seq k s p = p \<or>
           (2 ^ k \<le> p \<and> ticket_seq k s p = p - 2 ^ k + 1 \<and> (\<exists>t. pc_reads (cq_pc s t) (p - 2 ^ k))))"

fun pc_ok :: "nat \<Rightarrow> 'a cqueue \<Rightarrow> 'a qpc \<Rightarrow> bool" where
  "pc_ok k s (E_load x pos) \<longleftrightarrow> unat pos \<le> length (cq_hist s)"
| "pc_ok k s (E_cas x pos) \<longleftrightarrow> unat pos \<le> length (cq_hist s) \<and> unat pos \<le> ticket_seq k s (unat pos)"
| "pc_ok k s (E_write x pos) \<longleftrightarrow> unat (cq_tail s) \<le> unat pos \<and> unat pos < length (cq_hist s) \<and>
     ticket_seq k s (unat pos) = unat pos \<and> x = cq_hist s ! unat pos"
| "pc_ok k s (E_publish pos) \<longleftrightarrow> unat (cq_tail s) \<le> unat pos \<and> unat pos < length (cq_hist s) \<and>
     ticket_seq k s (unat pos) = unat pos \<and> ticket_data k s (unat pos) = cq_hist s ! unat pos"
| "pc_ok k s (D_load pos) \<longleftrightarrow> unat pos \<le> unat (cq_tail s)"
| "pc_ok k s (D_cas pos) \<longleftrightarrow> unat pos \<le> unat (cq_tail s) \<and> unat pos < ticket_seq k s (unat pos)"
| "pc_ok k s (D_take pos) \<longleftrightarrow> unat pos < unat (cq_tail s) \<and> length (cq_hist s) \<le> unat pos + 2 ^ k \<and>
     ticket_seq k s (unat pos) = unat pos + 1 \<and> ticket_data k s (unat pos) = cq_hist s ! unat pos \<and>
     unat pos \<notin> fst ` set (cq_got s)"
| "pc_ok k s (D_release pos x) \<longleftrightarrow> unat pos < unat (cq_tail s) \<and> length (cq_hist s) \<le> unat pos + 2 ^ k \<and>
     ticket_seq k s (unat pos) = unat pos + 1 \<and> x = cq_hist s ! unat pos"
| "pc_ok k s _ \<longleftrightarrow> True"

definition cq_shape :: "nat \<Rightarrow> 'a cqueue \<Rightarrow> bool" where
  "cq_shape k s \<longleftrightarrow> 1 \<le> k \<and> k \<le> 61 \<and> cq_mask s = mask k \<and>
     length (cq_hist s) \<le> 2 ^ 62 \<and> unat (cq_head s) = length (cq_hist s) \<and>
     unat (cq_tail s) \<le> length (cq_hist s) \<and> length (cq_hist s) \<le> unat (cq_tail s) + 2 ^ k"

definition cq_holders :: "'a cqueue \<Rightarrow> bool" where
  "cq_holders s \<longleftrightarrow> (\<forall>t u p. pc_writes (cq_pc s t) p \<longrightarrow> pc_writes (cq_pc s u) p \<longrightarrow> t = u) \<and>
     (\<forall>t u p. pc_reads (cq_pc s t) p \<longrightarrow> pc_reads (cq_pc s u) p \<longrightarrow> t = u)"

definition cq_got_ok :: "'a cqueue \<Rightarrow> bool" where
  "cq_got_ok s \<longleftrightarrow> distinct (map fst (cq_got s)) \<and>
     (\<forall>(n, v) \<in> set (cq_got s). n < unat (cq_tail s) \<and> v = cq_hist s ! n)"

definition cq_inv :: "nat \<Rightarrow> 'a cqueue \<Rightarrow> bool" where
  "cq_inv k s \<longleftrightarrow> cq_shape k s \<and> cq_holders s \<and> cq_got_ok s \<and>
     (\<forall>p. unat (cq_tail s) \<le> p \<longrightarrow> p < unat (cq_tail s) + 2 ^ k \<longrightarrow> cell_ok k s p) \<and>
     (\<forall>t. pc_ok k s (cq_pc s t))"


section \<open>Arithmetic of tickets\<close>

lemma same_cell_window:
  fixes a :: nat
  assumes "a \<le> p" "p < a + m" "a \<le> q" "q < a + m" "p mod m = q mod m"
  shows "p = q"
proof -
  have "p - a = q - a" using mod_window_inject [of "p - a" m "q - a" a] assms by simp
  with assms show ?thesis by linarith
qed

lemma cell_Suc_neq: "1 \<le> k \<Longrightarrow> Suc p mod 2 ^ k \<noteq> p mod 2 ^ k"
  using same_cell_window [of p "Suc p" "2 ^ k" p] power_increasing [of 1 k "2::nat"] by auto

lemma cq_index_mod: "cq_shape k s \<Longrightarrow> cq_index s pos = unat pos mod 2 ^ k"
proof -
  assume "cq_shape k s"
  then have "cq_index s pos = take_bit k (unat pos)"
    by (simp add: cq_index_def cq_shape_def take_bit_eq_mask [symmetric] unsigned_take_bit_eq)
  then show ?thesis by (simp add: take_bit_eq_mod)
qed

lemma cq_size:
  assumes "cq_shape k s"
  shows "2 \<le> (2::nat) ^ k" and "(2::nat) ^ k \<le> 2 ^ 61"
  using assms power_increasing [of 1 k "2::nat"] power_increasing [of k 61 "2::nat"]
  by (simp_all add: cq_shape_def)

lemma cq_release_seq:
  assumes "cq_shape k s" "unat pos \<le> 2 ^ 62"
  shows "unat (pos + cq_mask s + 1) = unat pos + 2 ^ k"
proof -
  have "pos + cq_mask s + 1 = pos + of_nat (2 ^ k)"
    using assms(1) by (simp add: cq_shape_def mask_eq_exp_minus_1)
  moreover have "unat (of_nat (2 ^ k) :: u64) = 2 ^ k"
    using unat_two_power [of k] assms(1) by (simp add: cq_shape_def)
  moreover have "unat (pos + w) = unat pos + 2 ^ k" if "unat w = 2 ^ k" for w :: u64
    using that cq_size [OF assms(1)] assms(2) by (simp add: unat_word_ariths)
  ultimately show ?thesis by (simp only:)
qed

lemma cq_next: "unat (pos :: u64) \<le> 2 ^ 62 \<Longrightarrow> unat (pos + 1) = unat pos + 1"
  using unat_bump [of pos] by simp

section \<open>Steps that keep the shared memory\<close>

lemma cq_goto_simps [simp]:
  "cq_mask (cq_goto t pc s) = cq_mask s" "cq_seq (cq_goto t pc s) = cq_seq s"
  "cq_data (cq_goto t pc s) = cq_data s" "cq_head (cq_goto t pc s) = cq_head s"
  "cq_tail (cq_goto t pc s) = cq_tail s" "cq_hist (cq_goto t pc s) = cq_hist s"
  "cq_got (cq_goto t pc s) = cq_got s" "cq_pc (cq_goto t pc s) u = (if u = t then pc else cq_pc s u)"
  by (simp_all add: cq_goto_def)

lemma ticket_simps [simp]:
  "ticket_seq k (cq_goto t pc s) = ticket_seq k s"
  "ticket_data k (cq_goto t pc s) = ticket_data k s"
  "ticket_seq k (s\<lparr>cq_head := h\<rparr>) = ticket_seq k s"
  "ticket_seq k (s\<lparr>cq_hist := hs\<rparr>) = ticket_seq k s"
  "ticket_seq k (s\<lparr>cq_tail := l\<rparr>) = ticket_seq k s"
  "ticket_seq k (s\<lparr>cq_got := g\<rparr>) = ticket_seq k s"
  "ticket_seq k (s\<lparr>cq_data := d\<rparr>) = ticket_seq k s"
  "ticket_data k (s\<lparr>cq_head := h\<rparr>) = ticket_data k s"
  "ticket_data k (s\<lparr>cq_hist := hs\<rparr>) = ticket_data k s"
  "ticket_data k (s\<lparr>cq_tail := l\<rparr>) = ticket_data k s"
  "ticket_data k (s\<lparr>cq_got := g\<rparr>) = ticket_data k s"
  "ticket_data k (s\<lparr>cq_seq := q\<rparr>) = ticket_data k s"
  by (auto simp: ticket_seq_def ticket_data_def)

lemma pc_ok_goto [simp]: "pc_ok k (cq_goto t pc s) = pc_ok k s"
proof
  show "pc_ok k (cq_goto t pc s) q = pc_ok k s q" for q by (cases q) simp_all
qed

lemma cq_invD:
  assumes "cq_inv k s"
  shows "cq_shape k s" and "cq_holders s" and "cq_got_ok s" and "pc_ok k s (cq_pc s t)"
    and "unat (cq_tail s) \<le> p \<Longrightarrow> p < unat (cq_tail s) + 2 ^ k \<Longrightarrow> cell_ok k s p"
  using assms by (simp_all add: cq_inv_def)

lemma writer_facts:
  assumes "cq_inv k s" "pc_writes (cq_pc s t) p"
  shows "unat (cq_tail s) \<le> p" and "p < length (cq_hist s)" and "ticket_seq k s p = p"
  using assms(2) cq_invD(4) [OF assms(1), of t] by (cases "cq_pc s t"; simp)+

lemma reader_facts:
  assumes "cq_inv k s" "pc_reads (cq_pc s t) p"
  shows "p < unat (cq_tail s)" and "length (cq_hist s) \<le> p + 2 ^ k" and "ticket_seq k s p = p + 1"
  using assms(2) cq_invD(4) [OF assms(1), of t] by (cases "cq_pc s t"; simp)+

lemma inv_goto:
  assumes inv: "cq_inv k s"
    and old: "\<And>p. \<not> pc_writes (cq_pc s t) p" "\<And>p. \<not> pc_reads (cq_pc s t) p"
    and new: "\<And>p. \<not> pc_writes pc p" "\<And>p. \<not> pc_reads pc p" "pc_ok k s pc"
  shows "cq_inv k (cq_goto t pc s)"
proof -
  have "cell_ok k s p \<Longrightarrow> cell_ok k (cq_goto t pc s) p" for p
    using old by (auto simp: cell_ok_def split: if_splits) metis+
  with inv new show ?thesis
    by (auto simp: cq_inv_def cq_shape_def cq_holders_def cq_got_ok_def)
qed

lemma pc_okD:
  assumes "cq_inv k s" "cq_pc s t = pc"
  shows "pc_ok k s pc"
  using cq_invD(4) [OF assms(1), of t] assms(2) by simp

lemma cell_ok_transfer:
  assumes "cell_ok k s p" "ticket_seq k s' p = ticket_seq k s p" "ticket_data k s' p = ticket_data k s p"
    "p < length (cq_hist s') \<longleftrightarrow> p < length (cq_hist s)"
    "p < length (cq_hist s) \<Longrightarrow> cq_hist s' ! p = cq_hist s ! p"
    "\<And>u. pc_writes (cq_pc s u) p \<Longrightarrow> \<exists>v. pc_writes (cq_pc s' v) p"
    "\<And>u. 2 ^ k \<le> p \<Longrightarrow> pc_reads (cq_pc s u) (p - 2 ^ k) \<Longrightarrow> \<exists>v. pc_reads (cq_pc s' v) (p - 2 ^ k)"
  shows "cell_ok k s' p"
proof (cases "p < length (cq_hist s)")
  case True
  with assms show ?thesis by (auto simp: cell_ok_def)
next
  case False
  with assms show ?thesis by (auto simp: cell_ok_def)
qed

text \<open>Holders other than the thread that moves stay holders.\<close>

lemma other_holder:
  assumes "\<And>u. u \<noteq> t \<Longrightarrow> cq_pc s' u = cq_pc s u"
  shows "\<not> pc_writes (cq_pc s t) p \<Longrightarrow> pc_writes (cq_pc s u) p \<Longrightarrow> \<exists>v. pc_writes (cq_pc s' v) p"
    and "\<not> pc_reads (cq_pc s t) p \<Longrightarrow> pc_reads (cq_pc s u) p \<Longrightarrow> \<exists>v. pc_reads (cq_pc s' v) p"
  using assms by metis+

section \<open>Claiming and filling\<close>

lemma claim_facts:
  assumes inv: "cq_inv k s" and pc: "cq_pc s t = E_cas x (cq_head s)"
  shows "length (cq_hist s) < unat (cq_tail s) + 2 ^ k"
    and "ticket_seq k s (length (cq_hist s)) = length (cq_hist s)"
proof -
  let ?H = "length (cq_hist s)" and ?T = "unat (cq_tail s)"
  note shape = cq_invD(1) [OF inv]
  then have sh: "?T \<le> ?H" "?H \<le> ?T + 2 ^ k" "unat (cq_head s) = ?H" by (simp_all add: cq_shape_def)
  have low: "?H \<le> ticket_seq k s ?H" using pc_okD [OF inv pc] sh by simp
  show lt: "?H < ?T + 2 ^ k"
  proof (rule ccontr)
    assume "\<not> ?H < ?T + 2 ^ k"
    with sh have H: "?H = ?T + 2 ^ k" by simp
    with cq_size [OF shape] have "?T < ?H" by linarith
    with cq_invD(5) [OF inv, of ?T] have "ticket_seq k s ?T \<le> ?T + 1" by (auto simp: cell_ok_def)
    moreover have "ticket_seq k s ?H = ticket_seq k s ?T" using H by (simp add: ticket_seq_def)
    ultimately show False using low H cq_size [OF shape] by linarith
  qed
  have "cell_ok k s ?H" using cq_invD(5) [OF inv] sh lt by simp
  with low cq_size [OF shape] show "ticket_seq k s ?H = ?H" by (auto simp: cell_ok_def)
qed

lemma inv_claim:
  assumes inv: "cq_inv k s" and pc: "cq_pc s t = E_cas x (cq_head s)"
    and bound: "length (cq_hist s) < 2 ^ 62"
  shows "cq_inv k (cq_goto t (E_write x (cq_head s))
    (s\<lparr>cq_head := cq_head s + 1, cq_hist := cq_hist s @ [x]\<rparr>))"
proof -
  let ?H = "length (cq_hist s)" and ?T = "unat (cq_tail s)"
  define s' where "s' = cq_goto t (E_write x (cq_head s))
    (s\<lparr>cq_head := cq_head s + 1, cq_hist := cq_hist s @ [x]\<rparr>)"
  note shape = cq_invD(1) [OF inv]
  note facts = claim_facts [OF inv pc]
  from shape have sh: "?T \<le> ?H" "unat (cq_head s) = ?H" by (simp_all add: cq_shape_def)
  have sel: "cq_seq s' = cq_seq s" "cq_data s' = cq_data s" "cq_tail s' = cq_tail s"
    "cq_hist s' = cq_hist s @ [x]" "cq_got s' = cq_got s" "cq_mask s' = cq_mask s"
    "\<And>u. cq_pc s' u = (if u = t then E_write x (cq_head s) else cq_pc s u)"
    by (simp_all add: s'_def)
  have tick: "ticket_seq k s' = ticket_seq k s" "ticket_data k s' = ticket_data k s"
    by (simp_all add: s'_def)
  have "unat (cq_head s + 1) = ?H + 1" using cq_next [of "cq_head s"] sh bound by simp
  with shape facts(1) bound have "cq_shape k s'" by (simp add: cq_shape_def s'_def)
  moreover have "cq_holders s'"
    using cq_invD(2) [OF inv] writer_facts(2) [OF inv] sh by (fastforce simp: cq_holders_def sel)
  moreover have "cq_got_ok s'"
    using cq_invD(3) [OF inv] sh by (auto simp: cq_got_ok_def sel nth_append)
  moreover have "cell_ok k s' p" if p: "?T \<le> p" "p < ?T + 2 ^ k" for p
  proof (cases "p = ?H")
    case True
    with facts(2) sh show ?thesis by (auto simp: cell_ok_def sel tick intro!: exI [of _ t])
  next
    case False
    then show ?thesis
      by (intro cell_ok_transfer [OF cq_invD(5) [OF inv p]])
        (use other_holder [of t s' s] pc in \<open>auto simp: sel tick nth_append\<close>)
  qed
  moreover have "pc_ok k s' (cq_pc s' u)" for u
  proof (cases "u = t")
    case True
    then show ?thesis using facts sh by (simp add: sel tick)
  next
    case False
    have "length (cq_hist s) \<noteq> p + 2 ^ k" if "ticket_seq k s p = Suc p" for p
    proof
      assume "?H = p + 2 ^ k"
      then have "ticket_seq k s ?H = ticket_seq k s p" by (simp add: ticket_seq_def)
      with that facts(2) \<open>?H = p + 2 ^ k\<close> cq_size [OF shape] show False by simp
    qed
    with cq_invD(4) [OF inv, of u] sh False show ?thesis
      by (cases "cq_pc s u") (force simp: sel tick nth_append)+
  qed
  ultimately show ?thesis unfolding cq_inv_def s'_def [symmetric] sel by blast
qed


text \<open>Holders of tickets in one cell: two writers are the same, a writer and a reader exclude each other.\<close>

lemma writers_same_cell:
  assumes inv: "cq_inv k s" and t: "pc_writes (cq_pc s t) p" and u: "pc_writes (cq_pc s u) q"
    and cell: "p mod 2 ^ k = q mod 2 ^ k"
  shows "t = u"
proof -
  have "ticket_seq k s p = ticket_seq k s q" using cell by (simp add: ticket_seq_def)
  with writer_facts(3) [OF inv t] writer_facts(3) [OF inv u] have "p = q" by linarith
  with t u cq_invD(2) [OF inv] show ?thesis unfolding cq_holders_def by blast
qed

lemma readers_same_cell:
  assumes inv: "cq_inv k s" and t: "pc_reads (cq_pc s t) p" and u: "pc_reads (cq_pc s u) q"
    and cell: "p mod 2 ^ k = q mod 2 ^ k"
  shows "t = u"
proof -
  have "ticket_seq k s p = ticket_seq k s q" using cell by (simp add: ticket_seq_def)
  with reader_facts(3) [OF inv t] reader_facts(3) [OF inv u] have "p = q" by linarith
  with t u cq_invD(2) [OF inv] show ?thesis unfolding cq_holders_def by blast
qed

lemma writer_reader_cell:
  assumes inv: "cq_inv k s" and t: "pc_writes (cq_pc s t) p" and u: "pc_reads (cq_pc s u) q"
  shows "p mod 2 ^ k \<noteq> q mod 2 ^ k"
proof
  assume cell: "p mod 2 ^ k = q mod 2 ^ k"
  then have "ticket_seq k s p = ticket_seq k s q" by (simp add: ticket_seq_def)
  with writer_facts(3) [OF inv t] reader_facts(3) [OF inv u] have "p = Suc q" by linarith
  with cell cell_Suc_neq [of k q] cq_invD(1) [OF inv] show False by (auto simp: cq_shape_def)
qed

lemma inv_write:
  assumes inv: "cq_inv k s" and pc: "cq_pc s t = E_write x pos"
  shows "cq_inv k (cq_goto t (E_publish pos)
    (s\<lparr>cq_data := (cq_data s)(cq_index s pos := x)\<rparr>))"
proof -
  define s' where "s' = cq_goto t (E_publish pos) (s\<lparr>cq_data := (cq_data s)(cq_index s pos := x)\<rparr>)"
  define p where "p = unat pos"
  note shape = cq_invD(1) [OF inv]
  have w: "pc_writes (cq_pc s t) p" by (simp add: pc p_def)
  note wf = writer_facts [OF inv w]
  have x: "x = cq_hist s ! p" using pc_okD [OF inv pc] by (simp add: p_def)
  have sel: "cq_seq s' = cq_seq s" "cq_tail s' = cq_tail s" "cq_head s' = cq_head s"
    "cq_hist s' = cq_hist s" "cq_got s' = cq_got s" "cq_mask s' = cq_mask s"
    "\<And>u. cq_pc s' u = (if u = t then E_publish pos else cq_pc s u)"
    by (simp_all add: s'_def)
  have tick: "ticket_seq k s' = ticket_seq k s"
    "\<And>q. ticket_data k s' q = (if q mod 2 ^ k = p mod 2 ^ k then x else ticket_data k s q)"
    by (simp_all add: s'_def) (simp add: ticket_data_def cq_index_mod [OF shape] p_def)
  have "cell_ok k s' q" if q: "unat (cq_tail s) \<le> q" "q < unat (cq_tail s) + 2 ^ k" for q
  proof (cases "q mod 2 ^ k = p mod 2 ^ k")
    case True
    have "p < unat (cq_tail s) + 2 ^ k" using wf shape by (simp add: cq_shape_def)
    with same_cell_window [OF q wf(1)] True have "q = p" by simp
    then show ?thesis using wf by (auto simp: cell_ok_def sel tick p_def intro!: exI [of _ t])
  next
    case False
    then have "q \<noteq> p" by auto
    with False show ?thesis
      by (intro cell_ok_transfer [OF cq_invD(5) [OF inv q]])
        (use other_holder [of t s' s] pc in \<open>auto simp: sel tick p_def\<close>)
  qed
  moreover have "pc_ok k s' (cq_pc s' u)" for u
  proof (cases "u = t")
    case True
    then show ?thesis using pc_okD [OF inv pc] by (simp add: sel tick p_def)
  next
    case False
    with cq_invD(4) [OF inv, of u] writers_same_cell [OF inv w, of u] writer_reader_cell [OF inv w, of u]
    show ?thesis by (cases "cq_pc s u") (auto simp: sel tick)
  qed
  moreover have "cq_shape k s'" using shape by (simp add: cq_shape_def s'_def)
  moreover have "cq_holders s'"
    using cq_invD(2) [OF inv] w by (fastforce simp: cq_holders_def sel p_def)
  moreover have "cq_got_ok s'" using cq_invD(3) [OF inv] by (simp add: cq_got_ok_def sel)
  ultimately show ?thesis unfolding cq_inv_def s'_def [symmetric] sel by blast
qed

lemma inv_publish:
  assumes inv: "cq_inv k s" and pc: "cq_pc s t = E_publish pos"
  shows "cq_inv k (cq_goto t Q_idle (s\<lparr>cq_seq := (cq_seq s)(cq_index s pos := pos + 1)\<rparr>))"
proof -
  define s' where "s' = cq_goto t Q_idle (s\<lparr>cq_seq := (cq_seq s)(cq_index s pos := pos + 1)\<rparr>)"
  define p where "p = unat pos"
  note shape = cq_invD(1) [OF inv]
  have w: "pc_writes (cq_pc s t) p" by (simp add: pc p_def)
  note wf = writer_facts [OF inv w]
  have d: "ticket_data k s p = cq_hist s ! p" using pc_okD [OF inv pc] by (simp add: p_def)
  have sel: "cq_data s' = cq_data s" "cq_tail s' = cq_tail s" "cq_head s' = cq_head s"
    "cq_hist s' = cq_hist s" "cq_got s' = cq_got s" "cq_mask s' = cq_mask s"
    "\<And>u. cq_pc s' u = (if u = t then Q_idle else cq_pc s u)"
    by (simp_all add: s'_def)
  have "p \<le> 2 ^ 62" using wf(2) shape by (simp add: cq_shape_def)
  then have "unat (pos + 1) = p + 1" using cq_next [of pos] by (simp add: p_def)
  then have tick: "ticket_data k s' = ticket_data k s"
    "\<And>q. ticket_seq k s' q = (if q mod 2 ^ k = p mod 2 ^ k then p + 1 else ticket_seq k s q)"
    by (simp_all add: s'_def) (simp add: ticket_seq_def cq_index_mod [OF shape] p_def)
  have old: "ticket_seq k s q = p" if "q mod 2 ^ k = p mod 2 ^ k" for q
    using wf(3) that by (simp add: ticket_seq_def)
  have "cell_ok k s' q" if q: "unat (cq_tail s) \<le> q" "q < unat (cq_tail s) + 2 ^ k" for q
  proof (cases "q mod 2 ^ k = p mod 2 ^ k")
    case True
    have "p < unat (cq_tail s) + 2 ^ k" using wf shape by (simp add: cq_shape_def)
    with same_cell_window [OF q wf(1)] True have "q = p" by simp
    then show ?thesis using wf d by (auto simp: cell_ok_def sel tick)
  next
    case False
    then have "q \<noteq> p" by auto
    with False show ?thesis
      by (intro cell_ok_transfer [OF cq_invD(5) [OF inv q]])
        (use other_holder [of t s' s] pc in \<open>auto simp: sel tick p_def\<close>)
  qed
  moreover have "pc_ok k s' (cq_pc s' u)" for u
  proof (cases "u = t")
    case True
    then show ?thesis by (simp add: sel)
  next
    case False
    with cq_invD(4) [OF inv, of u] writers_same_cell [OF inv w, of u] writer_reader_cell [OF inv w, of u] old
    show ?thesis by (cases "cq_pc s u") (fastforce simp: sel tick)+
  qed
  moreover have "cq_shape k s'" using shape by (simp add: cq_shape_def s'_def)
  moreover have "cq_holders s'"
    using cq_invD(2) [OF inv] by (fastforce simp: cq_holders_def sel)
  moreover have "cq_got_ok s'" using cq_invD(3) [OF inv] by (simp add: cq_got_ok_def sel)
  ultimately show ?thesis unfolding cq_inv_def s'_def [symmetric] sel by blast
qed

section \<open>Taking and releasing\<close>

lemma take_facts:
  assumes inv: "cq_inv k s" and pc: "cq_pc s t = D_cas (cq_tail s)"
  shows "unat (cq_tail s) < length (cq_hist s)"
    and "ticket_seq k s (unat (cq_tail s)) = unat (cq_tail s) + 1"
    and "ticket_data k s (unat (cq_tail s)) = cq_hist s ! unat (cq_tail s)"
proof -
  let ?H = "length (cq_hist s)" and ?T = "unat (cq_tail s)"
  note shape = cq_invD(1) [OF inv]
  have low: "?T < ticket_seq k s ?T" using pc_okD [OF inv pc] by simp
  have ok: "cell_ok k s ?T" using cq_invD(5) [OF inv] by simp
  show lt: "?T < ?H"
  proof (rule ccontr)
    assume "\<not> ?T < ?H"
    with ok low cq_size [OF shape] show False by (auto simp: cell_ok_def)
  qed
  with ok low show "ticket_seq k s ?T = ?T + 1" "ticket_data k s ?T = cq_hist s ! ?T"
    by (auto simp: cell_ok_def)
qed

lemma inv_take:
  assumes inv: "cq_inv k s" and pc: "cq_pc s t = D_cas (cq_tail s)"
  shows "cq_inv k (cq_goto t (D_take (cq_tail s)) (s\<lparr>cq_tail := cq_tail s + 1\<rparr>))"
proof -
  let ?H = "length (cq_hist s)" and ?T = "unat (cq_tail s)"
  define s' where "s' = cq_goto t (D_take (cq_tail s)) (s\<lparr>cq_tail := cq_tail s + 1\<rparr>)"
  note shape = cq_invD(1) [OF inv]
  note facts = take_facts [OF inv pc]
  from shape have sh: "?H \<le> ?T + 2 ^ k" "?H \<le> 2 ^ 62" by (simp_all add: cq_shape_def)
  have T': "unat (cq_tail s + 1) = ?T + 1" using cq_next [of "cq_tail s"] facts(1) sh by simp
  have sel: "cq_seq s' = cq_seq s" "cq_data s' = cq_data s" "unat (cq_tail s') = ?T + 1"
    "cq_hist s' = cq_hist s" "cq_got s' = cq_got s" "cq_mask s' = cq_mask s"
    "\<And>u. cq_pc s' u = (if u = t then D_take (cq_tail s) else cq_pc s u)"
    using T' by (simp_all add: s'_def)
  have tick: "ticket_seq k s' = ticket_seq k s" "ticket_data k s' = ticket_data k s"
    by (simp_all add: s'_def)
  have got: "?T \<notin> fst ` set (cq_got s)" using cq_invD(3) [OF inv] by (fastforce simp: cq_got_ok_def)
  have "cq_shape k s'" using shape facts(1) T' by (simp add: cq_shape_def s'_def)
  moreover have "cq_holders s'"
    using cq_invD(2) [OF inv] reader_facts(1) [OF inv]
    by (fastforce simp: cq_holders_def sel)
  moreover have "cq_got_ok s'" using cq_invD(3) [OF inv] by (force simp: cq_got_ok_def sel)
  moreover have "cell_ok k s' p" if p: "?T + 1 \<le> p" "p < ?T + 1 + 2 ^ k" for p
  proof (cases "p = ?T + 2 ^ k")
    case True
    have "ticket_seq k s p = ?T + 1" using facts(2) True by (simp add: ticket_seq_def)
    with True sh show ?thesis by (auto simp: cell_ok_def sel tick intro!: exI [of _ t])
  next
    case False
    with p have "cell_ok k s p" using cq_invD(5) [OF inv, of p] by simp
    then show ?thesis
      by (rule cell_ok_transfer)
        (use other_holder [of t s' s] pc in \<open>auto simp: sel tick\<close>)
  qed
  moreover have "pc_ok k s' (cq_pc s' u)" for u
  proof (cases "u = t")
    case True
    then show ?thesis using facts sh got by (simp add: sel tick)
  next
    case False
    have "?T < p" if "?T \<le> p" "ticket_seq k s p = p" for p
      using that facts(2) by (cases "p = ?T") auto
    with cq_invD(4) [OF inv, of u] False show ?thesis
      by (cases "cq_pc s u") (force simp: sel tick Suc_le_eq)+
  qed
  ultimately show ?thesis unfolding cq_inv_def s'_def [symmetric] sel by blast
qed

lemma inv_read:
  assumes inv: "cq_inv k s" and pc: "cq_pc s t = D_take pos"
  shows "cq_inv k (cq_goto t (D_release pos (cq_data s (cq_index s pos)))
    (s\<lparr>cq_got := cq_got s @ [(unat pos, cq_data s (cq_index s pos))]\<rparr>))"
proof -
  define x where "x = cq_data s (cq_index s pos)"
  define s' where "s' = cq_goto t (D_release pos x) (s\<lparr>cq_got := cq_got s @ [(unat pos, x)]\<rparr>)"
  note shape = cq_invD(1) [OF inv]
  have r: "pc_reads (cq_pc s t) (unat pos)" by (simp add: pc)
  note ok = pc_okD [OF inv pc]
  have x: "x = cq_hist s ! unat pos"
    using ok by (simp add: x_def ticket_data_def cq_index_mod [OF shape])
  have sel: "cq_seq s' = cq_seq s" "cq_data s' = cq_data s" "cq_tail s' = cq_tail s"
    "cq_hist s' = cq_hist s" "cq_got s' = cq_got s @ [(unat pos, x)]" "cq_mask s' = cq_mask s"
    "\<And>u. cq_pc s' u = (if u = t then D_release pos x else cq_pc s u)"
    by (simp_all add: s'_def)
  have tick: "ticket_seq k s' = ticket_seq k s" "ticket_data k s' = ticket_data k s"
    by (simp_all add: s'_def)
  have "cq_shape k s'" using shape by (simp add: cq_shape_def s'_def)
  moreover have "cq_holders s'"
    using cq_invD(2) [OF inv] r by (fastforce simp: cq_holders_def sel)
  moreover have "cq_got_ok s'" using cq_invD(3) [OF inv] ok x by (auto simp: cq_got_ok_def sel)
  moreover have "cell_ok k s' p" if p: "unat (cq_tail s) \<le> p" "p < unat (cq_tail s) + 2 ^ k" for p
  proof (rule cell_ok_transfer [OF cq_invD(5) [OF inv p]])
    show "\<exists>v. pc_reads (cq_pc s' v) (p - 2 ^ k)" if "pc_reads (cq_pc s u) (p - 2 ^ k)" for u
      using that r pc by (intro exI [of _ u]) (auto simp: sel)
  qed (use other_holder [of t s' s] pc in \<open>auto simp: sel tick\<close>)
  moreover have "pc_ok k s' (cq_pc s' u)" for u
  proof (cases "u = t")
    case True
    then show ?thesis using ok x by (simp add: sel tick)
  next
    case False
    then have "\<not> pc_reads (cq_pc s u) (unat pos)"
      using readers_same_cell [OF inv r, of u "unat pos"] by auto
    with cq_invD(4) [OF inv, of u] False show ?thesis
      by (cases "cq_pc s u") (auto simp: sel tick)
  qed
  ultimately show ?thesis unfolding cq_inv_def x_def [symmetric] s'_def [symmetric] sel by blast
qed

lemma inv_release:
  assumes inv: "cq_inv k s" and pc: "cq_pc s t = D_release pos x"
  shows "cq_inv k (cq_goto t Q_idle
    (s\<lparr>cq_seq := (cq_seq s)(cq_index s pos := pos + cq_mask s + 1)\<rparr>))"
proof -
  define s' where "s' = cq_goto t Q_idle (s\<lparr>cq_seq := (cq_seq s)(cq_index s pos := pos + cq_mask s + 1)\<rparr>)"
  define p where "p = unat pos"
  note shape = cq_invD(1) [OF inv]
  have r: "pc_reads (cq_pc s t) p" by (simp add: pc p_def)
  note rf = reader_facts [OF inv r]
  have sel: "cq_data s' = cq_data s" "cq_tail s' = cq_tail s" "cq_head s' = cq_head s"
    "cq_hist s' = cq_hist s" "cq_got s' = cq_got s" "cq_mask s' = cq_mask s"
    "\<And>u. cq_pc s' u = (if u = t then Q_idle else cq_pc s u)"
    by (simp_all add: s'_def)
  have "p \<le> 2 ^ 62" using rf(1) shape by (simp add: cq_shape_def)
  then have "unat (pos + cq_mask s + 1) = p + 2 ^ k"
    using cq_release_seq [OF shape, of pos] by (simp add: p_def)
  then have tick: "ticket_data k s' = ticket_data k s"
    "\<And>q. ticket_seq k s' q = (if q mod 2 ^ k = p mod 2 ^ k then p + 2 ^ k else ticket_seq k s q)"
    by (simp_all add: s'_def) (simp add: ticket_seq_def cq_index_mod [OF shape] p_def)
  have old: "ticket_seq k s q = p + 1" if "q mod 2 ^ k = p mod 2 ^ k" for q
    using rf(3) that by (simp add: ticket_seq_def)
  have "cell_ok k s' q" if q: "unat (cq_tail s) \<le> q" "q < unat (cq_tail s) + 2 ^ k" for q
  proof (cases "q mod 2 ^ k = p mod 2 ^ k")
    case True
    have "unat (cq_tail s) \<le> p + 2 ^ k" using rf shape by (simp add: cq_shape_def)
    with same_cell_window [OF q, of "p + 2 ^ k"] True rf(1) have "q = p + 2 ^ k" by simp
    then show ?thesis using rf by (auto simp: cell_ok_def sel tick)
  next
    case False
    have "q - 2 ^ k \<noteq> p" if "2 ^ k \<le> q" using False that le_mod_geq [of "2 ^ k" q] by auto
    moreover from False have "q \<noteq> p" by auto
    ultimately show ?thesis
      by (intro cell_ok_transfer [OF cq_invD(5) [OF inv q]])
        (use other_holder [of t s' s] pc False in \<open>auto simp: sel tick p_def\<close>)
  qed
  moreover have "pc_ok k s' (cq_pc s' u)" for u
  proof (cases "u = t")
    case True
    then show ?thesis by (simp add: sel)
  next
    case False
    with cq_invD(4) [OF inv, of u] readers_same_cell [OF inv r, of u] writer_reader_cell [OF inv _ r, of u] old
      cq_size [OF shape]
    show ?thesis by (cases "cq_pc s u") (fastforce simp: sel tick)+
  qed
  moreover have "cq_shape k s'" using shape by (simp add: cq_shape_def s'_def)
  moreover have "cq_holders s'"
    using cq_invD(2) [OF inv] by (fastforce simp: cq_holders_def sel)
  moreover have "cq_got_ok s'" using cq_invD(3) [OF inv] by (simp add: cq_got_ok_def sel)
  ultimately show ?thesis unfolding cq_inv_def s'_def [symmetric] sel by blast
qed

section \<open>Every reachable state\<close>

lemma seq_dif_zero: "seq_dif w pos = 0 \<Longrightarrow> w = pos"
  by (auto simp: seq_dif_def intro: signed_word_eqI)

lemma cq_hist_grows: "cq_step t l s s' \<Longrightarrow> length (cq_hist s) \<le> length (cq_hist s')"
  by (induction rule: cq_step.induct) simp_all

lemma inv_loads:
  assumes inv: "cq_inv k s"
  shows "pc_ok k s (E_load x (cq_head s))" and "pc_ok k s (D_load (cq_tail s))"
  using cq_invD(1) [OF inv] by (simp_all add: cq_shape_def)

lemma inv_compared:
  assumes inv: "cq_inv k s"
  shows "cq_pc s t = E_load x pos \<Longrightarrow> seq_dif (cq_seq s (cq_index s pos)) pos = 0 \<Longrightarrow>
      pc_ok k s (E_cas x pos)"
    and "cq_pc s t = D_load pos \<Longrightarrow> seq_dif (cq_seq s (cq_index s pos)) (pos + 1) = 0 \<Longrightarrow>
      pc_ok k s (D_cas pos)"
proof -
  note shape = cq_invD(1) [OF inv]
  have seq: "ticket_seq k s (unat pos) = unat (cq_seq s (cq_index s pos))"
    by (simp add: ticket_seq_def cq_index_mod [OF shape])
  show "pc_ok k s (E_cas x pos)"
    if "cq_pc s t = E_load x pos" "seq_dif (cq_seq s (cq_index s pos)) pos = 0"
    using pc_okD [OF inv that(1)] seq_dif_zero [OF that(2)] seq by simp
  show "pc_ok k s (D_cas pos)"
    if "cq_pc s t = D_load pos" "seq_dif (cq_seq s (cq_index s pos)) (pos + 1) = 0"
  proof -
    have "unat pos \<le> 2 ^ 62" using pc_okD [OF inv that(1)] shape by (simp add: cq_shape_def)
    then show ?thesis
      using pc_okD [OF inv that(1)] seq_dif_zero [OF that(2)] seq cq_next [of pos] by simp
  qed
qed

lemma inv_step:
  assumes step: "cq_step t l s s'" and inv: "cq_inv k s" and bound: "length (cq_hist s') \<le> 2 ^ 62"
  shows "cq_inv k s'"
  using step
proof cases
  case (enq_cas x pos)
  then show ?thesis using inv_claim [OF inv] bound by simp
next
  case (deq_cas pos)
  then show ?thesis using inv_take [OF inv] by simp
next
  case (enq_write x pos)
  then show ?thesis using inv_write [OF inv] by simp
next
  case (enq_publish pos)
  then show ?thesis using inv_publish [OF inv] by simp
next
  case (deq_take pos)
  then show ?thesis using inv_read [OF inv] by simp
next
  case (deq_release pos x)
  then show ?thesis using inv_release [OF inv] by simp
qed (use inv_goto [OF inv, of t] inv_loads [OF inv] inv_compared [OF inv] in auto)

lemma inv_init:
  assumes "1 \<le> k" "k \<le> 61"
  shows "cq_inv k (cq_init dflt k)"
proof -
  have "(2::nat) ^ k \<le> 2 ^ 61" using assms by (intro power_increasing) auto
  then have "ticket_seq k (cq_init dflt k) p = p" if "p < 2 ^ k" for p
    using that by (simp add: ticket_seq_def cq_init_def unsigned_of_nat take_bit_nat_eq_self)
  with assms show ?thesis
    by (auto simp: cq_inv_def cq_shape_def cq_holders_def cq_got_ok_def cell_ok_def)
      (auto simp: cq_init_def mask_eq_exp_minus_1)
qed

lemma cq_reach_inv:
  assumes "cq_reach k s" "1 \<le> k" "k \<le> 61" "length (cq_hist s) \<le> 2 ^ 62"
  shows "cq_inv k s"
  using assms
proof (induction rule: cq_reach.induct)
  case (cq_reach_init dflt)
  then show ?case by (intro inv_init)
next
  case (cq_reach_step s t l s')
  then have "cq_inv k s" using cq_hist_grows [OF cq_reach_step.hyps(2)] by simp
  with inv_step [OF cq_reach_step.hyps(2)] cq_reach_step.prems show ?case by simp
qed

section \<open>An executable scheduler\<close>

text \<open>
  The step of thread \<open>t\<close> when it runs alone: no spurious failure, and a thread that starts an
  operation enqueues \<open>Some x\<close> or dequeues.
\<close>

definition cq_exec :: "nat \<times> 'a option \<Rightarrow> 'a cqueue \<Rightarrow> 'a cqueue" where
  "cq_exec choice s =
     (case choice of (t, start) \<Rightarrow>
      (case cq_pc s t of
         Q_idle \<Rightarrow> (case start of Some x \<Rightarrow> cq_goto t (E_load x (cq_head s)) s
                    | None \<Rightarrow> cq_goto t (D_load (cq_tail s)) s)
       | E_load x pos \<Rightarrow>
           (let dif = seq_dif (cq_seq s (cq_index s pos)) pos
            in if dif = 0 then cq_goto t (E_cas x pos) s
               else if dif < 0 then cq_goto t Q_idle s else cq_goto t (E_reload x) s)
       | E_reload x \<Rightarrow> cq_goto t (E_load x (cq_head s)) s
       | E_cas x pos \<Rightarrow>
           if cq_head s = pos
           then cq_goto t (E_write x pos) (s\<lparr>cq_head := pos + 1, cq_hist := cq_hist s @ [x]\<rparr>)
           else cq_goto t (E_load x (cq_head s)) s
       | E_write x pos \<Rightarrow> cq_goto t (E_publish pos) (s\<lparr>cq_data := (cq_data s)(cq_index s pos := x)\<rparr>)
       | E_publish pos \<Rightarrow> cq_goto t Q_idle (s\<lparr>cq_seq := (cq_seq s)(cq_index s pos := pos + 1)\<rparr>)
       | D_load pos \<Rightarrow>
           (let dif = seq_dif (cq_seq s (cq_index s pos)) (pos + 1)
            in if dif = 0 then cq_goto t (D_cas pos) s
               else if dif < 0 then cq_goto t Q_idle s else cq_goto t D_reload s)
       | D_reload \<Rightarrow> cq_goto t (D_load (cq_tail s)) s
       | D_cas pos \<Rightarrow>
           if cq_tail s = pos then cq_goto t (D_take pos) (s\<lparr>cq_tail := pos + 1\<rparr>)
           else cq_goto t (D_load (cq_tail s)) s
       | D_take pos \<Rightarrow>
           cq_goto t (D_release pos (cq_data s (cq_index s pos)))
             (s\<lparr>cq_got := cq_got s @ [(unat pos, cq_data s (cq_index s pos))]\<rparr>)
       | D_release pos x \<Rightarrow>
           cq_goto t Q_idle (s\<lparr>cq_seq := (cq_seq s)(cq_index s pos := pos + cq_mask s + 1)\<rparr>)))"

lemma cq_exec_step: "\<exists>l. cq_step t l s (cq_exec (t, start) s)"
proof (cases "cq_pc s t")
  case Q_idle
  then show ?thesis by (cases start) (auto simp: cq_exec_def intro: cq_step.intros)
qed (auto simp: cq_exec_def Let_def not_less order.order_iff_strict intro: cq_step.intros)

lemma cq_reach_exec: "cq_reach k s \<Longrightarrow> cq_reach k (fold cq_exec choices s)"
proof (induction choices arbitrary: s)
  case (Cons c choices)
  obtain t start where c: "c = (t, start)" by force
  from cq_exec_step [of t s start] Cons.prems have "cq_reach k (cq_exec c s)"
    unfolding c by (blast intro: cq_reach_step)
  with Cons.IH show ?case by simp
qed simp

end
