(* ===== verification/Ticket_Queue.thy ===== *)
theory Ticket_Queue
  imports Mpsc_Concurrent
begin

text \<open>
  What the concurrent queue is to its callers: a bounded list of claimed elements, each published or
  not, and the number of dequeues that have taken an element and not yet released its cell. The
  steps of \<^verbatim>\<open>mpsc_queue\<close> simulate it; the dispatcher's model is built on it.
\<close>

section \<open>The ticket queue\<close>

record 'a tqueue =
  tq_items :: "('a \<times> bool) list"
  tq_busy :: nat

datatype 'a tq_label =
    T_internal
  | T_claim 'a
  | T_publish
  | T_refuse
  | T_take 'a
  | T_nothing
  | T_release

inductive tq_step :: "nat \<Rightarrow> 'a tq_label \<Rightarrow> 'a tqueue \<Rightarrow> 'a tqueue \<Rightarrow> bool" for cap where
  tq_internal: "tq_step cap T_internal q q"
| tq_claim: "length (tq_items q) < cap \<Longrightarrow>
    tq_step cap (T_claim x) q (q\<lparr>tq_items := tq_items q @ [(x, False)]\<rparr>)"
| tq_publish: "i < length (tq_items q) \<Longrightarrow> tq_items q ! i = (x, False) \<Longrightarrow>
    tq_step cap T_publish q (q\<lparr>tq_items := (tq_items q)[i := (x, True)]\<rparr>)"
| tq_refuse: "length (tq_items q) = cap \<or> 0 < tq_busy q \<Longrightarrow> tq_step cap T_refuse q q"
| tq_take: "tq_items q = (x, True) # rest \<Longrightarrow>
    tq_step cap (T_take x) q (q\<lparr>tq_items := rest, tq_busy := tq_busy q + 1\<rparr>)"
| tq_nothing: "tq_items q = [] \<or> \<not> snd (hd (tq_items q)) \<Longrightarrow> tq_step cap T_nothing q q"
| tq_release: "tq_busy q = n + 1 \<Longrightarrow> tq_step cap T_release q (q\<lparr>tq_busy := n\<rparr>)"

section \<open>The simulation\<close>

definition cq_readers :: "'a cqueue \<Rightarrow> nat set" where
  "cq_readers s = {p. \<exists>t. pc_reads (cq_pc s t) p}"

definition tq_abs :: "nat \<Rightarrow> 'a cqueue \<Rightarrow> 'a tqueue" where
  "tq_abs k s =
     \<lparr>tq_items = map (\<lambda>p. (cq_hist s ! p, ticket_seq k s p = p + 1))
        [unat (cq_tail s)..<length (cq_hist s)],
      tq_busy = card (cq_readers s)\<rparr>"

fun observed :: "'a cqueue \<Rightarrow> 'a qlabel \<Rightarrow> 'a tq_label" where
  "observed s Tau = T_internal"
| "observed s (Claim x) = T_claim x"
| "observed s (Publish pos) = T_publish"
| "observed s Refuse = T_refuse"
| "observed s (Take pos) = T_take (cq_hist s ! unat pos)"
| "observed s Nothing = T_nothing"
| "observed s (Release pos) = T_release"

lemma finite_readers: "cq_inv k s \<Longrightarrow> finite (cq_readers s)"
proof -
  assume inv: "cq_inv k s"
  have "cq_readers s \<subseteq> {..<unat (cq_tail s)}"
    using reader_facts(1) [OF inv] unfolding cq_readers_def by blast
  then show ?thesis by (rule finite_subset) simp
qed

lemma window_cell:
  fixes a c m :: nat
  assumes "0 < m"
  obtains p where "a \<le> p" "p < a + m" "p mod m = c mod m"
proof -
  have "(a + (c + a * (m - 1)) mod m) mod m = (a + (c + a * (m - 1))) mod m"
    by (rule mod_add_right_eq)
  also have "a + (c + a * (m - 1)) = c + a * m" using assms by (cases m) auto
  finally have "(a + (c + a * (m - 1)) mod m) mod m = c mod m" by simp
  with assms show thesis by (intro that [of "a + (c + a * (m - 1)) mod m"]) auto
qed

text \<open>The cell of any position at or before the head, by the ticket of the window in it.\<close>

lemma window_ticket:
  assumes inv: "cq_inv k s"
  obtains p where "unat (cq_tail s) \<le> p" "p < unat (cq_tail s) + 2 ^ k" "cell_ok k s p"
    "ticket_seq k s p = ticket_seq k s c" "p mod 2 ^ k = c mod 2 ^ k" "ticket_seq k s c \<le> p + 1"
proof -
  obtain p where p: "unat (cq_tail s) \<le> p" "p < unat (cq_tail s) + 2 ^ k" "p mod 2 ^ k = c mod 2 ^ k"
    by (rule window_cell [of "2 ^ k" "unat (cq_tail s)" c]) auto
  have ok: "cell_ok k s p" using cq_invD(5) [OF inv p(1,2)] .
  moreover have "ticket_seq k s p = ticket_seq k s c" using p(3) by (simp add: ticket_seq_def)
  moreover have "ticket_seq k s p \<le> p + 1" using ok by (auto simp: cell_ok_def split: if_splits)
  ultimately show thesis using p by (intro that) auto
qed

lemma mod_lap:
  fixes p c m :: nat
  assumes "p mod m = c mod m" "p < c"
  shows "p + m \<le> c"
proof -
  have "m dvd c - p" using assms mod_eq_dvd_iff_nat [of p c m] by simp
  with assms(2) have "m \<le> c - p" by (intro dvd_imp_le) auto
  with assms(2) show ?thesis by simp
qed

lemma cq_load_dif:
  assumes inv: "cq_inv k s" and pos: "unat pos \<le> length (cq_hist s)"
  shows "seq_dif (cq_seq s (cq_index s pos)) pos = int (ticket_seq k s (unat pos)) - int (unat pos)"
    and "seq_dif (cq_seq s (cq_index s pos)) (pos + 1) = int (ticket_seq k s (unat pos)) - int (unat pos + 1)"
    and "dif_defined (cq_seq s (cq_index s pos)) pos" and "dif_defined (cq_seq s (cq_index s pos)) (pos + 1)"
proof -
  note shape = cq_invD(1) [OF inv]
  obtain p where p: "p < unat (cq_tail s) + 2 ^ k" "ticket_seq k s (unat pos) \<le> p + 1"
    using window_ticket [OF inv, of "unat pos"] by blast
  have "unat (cq_tail s) \<le> 2 ^ 62" using shape by (simp add: cq_shape_def)
  then have b: "ticket_seq k s (unat pos) < 2 ^ 63" using p cq_size [OF shape] by simp
  have small: "unat pos \<le> 2 ^ 62" using pos shape by (simp add: cq_shape_def)
  have seq: "ticket_seq k s (unat pos) = unat (cq_seq s (cq_index s pos))"
    by (simp add: ticket_seq_def cq_index_mod [OF shape])
  show "seq_dif (cq_seq s (cq_index s pos)) pos = int (ticket_seq k s (unat pos)) - int (unat pos)"
    using b small by (subst seq_dif_exact) (simp_all add: seq)
  show "seq_dif (cq_seq s (cq_index s pos)) (pos + 1) = int (ticket_seq k s (unat pos)) - int (unat pos + 1)"
    using b small cq_next [OF small] by (subst seq_dif_exact) (simp_all add: seq)
  show "dif_defined (cq_seq s (cq_index s pos)) pos" "dif_defined (cq_seq s (cq_index s pos)) (pos + 1)"
    using b small cq_next [OF small] by (simp_all add: seq seq_dif_exact(2))
qed

text \<open>A refusal means a full queue or a cell still being read; nothing found means nothing published.\<close>

lemma refuse_reason:
  assumes inv: "cq_inv k s" and pc: "cq_pc s t = E_load x pos"
    and dif: "seq_dif (cq_seq s (cq_index s pos)) pos < 0"
  shows "length (cq_hist s) = unat (cq_tail s) + 2 ^ k \<or> cq_readers s \<noteq> {}"
proof -
  note shape = cq_invD(1) [OF inv]
  have pos: "unat pos \<le> length (cq_hist s)" using pc_okD [OF inv pc] by simp
  have lt: "ticket_seq k s (unat pos) < unat pos" using dif cq_load_dif(1) [OF inv pos] by linarith
  obtain p where p: "unat (cq_tail s) \<le> p" "cell_ok k s p"
    "ticket_seq k s p = ticket_seq k s (unat pos)" "p mod 2 ^ k = unat pos mod 2 ^ k"
    using window_ticket [OF inv, of "unat pos"] by blast
  show ?thesis
  proof (cases "p \<le> ticket_seq k s p")
    case True
    with p lt have "p + 2 ^ k \<le> unat pos" by (intro mod_lap) auto
    with p(1) pos shape show ?thesis by (simp add: cq_shape_def)
  next
    case False
    with p(2) show ?thesis by (auto simp: cell_ok_def cq_readers_def split: if_splits)
  qed
qed

lemma nothing_reason:
  assumes inv: "cq_inv k s" and pc: "cq_pc s t = D_load pos"
    and dif: "seq_dif (cq_seq s (cq_index s pos)) (pos + 1) < 0"
  shows "unat (cq_tail s) = length (cq_hist s) \<or>
    ticket_seq k s (unat (cq_tail s)) \<noteq> unat (cq_tail s) + 1"
proof -
  note shape = cq_invD(1) [OF inv]
  have le: "unat pos \<le> unat (cq_tail s)" using pc_okD [OF inv pc] by simp
  then have pos: "unat pos \<le> length (cq_hist s)" using shape by (simp add: cq_shape_def)
  have lt: "ticket_seq k s (unat pos) < unat pos + 1" using dif cq_load_dif(2) [OF inv pos] by linarith
  obtain p where p: "unat (cq_tail s) \<le> p" "cell_ok k s p"
    "ticket_seq k s p = ticket_seq k s (unat pos)" "p mod 2 ^ k = unat pos mod 2 ^ k"
    using window_ticket [OF inv, of "unat pos"] by blast
  have "unat pos = unat (cq_tail s)"
  proof (rule ccontr)
    assume "unat pos \<noteq> unat (cq_tail s)"
    with le p(1) have "unat pos < p" by simp
    with p(4) have far: "unat pos + 2 ^ k \<le> p" by (intro mod_lap) auto
    then have "p - 2 ^ k + 1 \<le> ticket_seq k s p"
      using p(2) cq_size [OF shape] by (auto simp: cell_ok_def split: if_splits)
    with far lt p(3) show False by linarith
  qed
  with lt show ?thesis by simp
qed


lemma abs_items_cong:
  assumes "cq_tail s' = cq_tail s" "cq_hist s' = cq_hist s" "ticket_seq k s' = ticket_seq k s"
  shows "tq_items (tq_abs k s') = tq_items (tq_abs k s)"
  using assms by (simp add: tq_abs_def)

lemma readers_goto:
  "(\<And>p. \<not> pc_reads (cq_pc s t) p) \<Longrightarrow> (\<And>p. \<not> pc_reads pc p) \<Longrightarrow>
    cq_readers (cq_goto t pc s) = cq_readers s"
  by (auto simp: cq_readers_def) metis

lemma readers_goto_reader:
  assumes "\<And>q. pc_reads pc q \<longleftrightarrow> q = p" "\<And>q. pc_reads (cq_pc s t) q \<Longrightarrow> q = p"
  shows "cq_readers (cq_goto t pc s) = insert p (cq_readers s)"
proof (rule set_eqI, rule iffI)
  fix x
  assume "x \<in> cq_readers (cq_goto t pc s)"
  then show "x \<in> insert p (cq_readers s)"
    using assms(1) by (auto simp: cq_readers_def split: if_splits)
next
  fix x
  assume "x \<in> insert p (cq_readers s)"
  then consider "x = p" | u where "pc_reads (cq_pc s u) x" "u \<noteq> t"
    using assms(2) unfolding cq_readers_def by blast
  then show "x \<in> cq_readers (cq_goto t pc s)"
    using assms(1) by cases (auto simp: cq_readers_def)
qed

lemma readers_goto_done:
  assumes "cq_holders s" "pc_reads (cq_pc s t) p" "\<And>q. pc_reads (cq_pc s t) q \<Longrightarrow> q = p"
    "\<And>q. \<not> pc_reads pc q"
  shows "cq_readers (cq_goto t pc s) = cq_readers s - {p}"
proof -
  have "u = t" if "pc_reads (cq_pc s u) p" for u
    using assms(1,2) that unfolding cq_holders_def by blast
  moreover have "u \<noteq> t" if "pc_reads (cq_pc s u) q" "q \<noteq> p" for u q
    using assms(3) that by blast
  ultimately show ?thesis using assms(4) by (auto simp: cq_readers_def split: if_splits)
qed

lemma readers_fields [simp]:
  "cq_readers (s\<lparr>cq_head := h\<rparr>) = cq_readers s" "cq_readers (s\<lparr>cq_hist := hs\<rparr>) = cq_readers s"
  "cq_readers (s\<lparr>cq_tail := l\<rparr>) = cq_readers s" "cq_readers (s\<lparr>cq_got := g\<rparr>) = cq_readers s"
  "cq_readers (s\<lparr>cq_seq := f\<rparr>) = cq_readers s" "cq_readers (s\<lparr>cq_data := d\<rparr>) = cq_readers s"
  by (simp_all add: cq_readers_def)

lemma abs_goto:
  "(\<And>p. \<not> pc_reads (cq_pc s t) p) \<Longrightarrow> (\<And>p. \<not> pc_reads pc p) \<Longrightarrow>
    tq_abs k (cq_goto t pc s) = tq_abs k s"
  by (simp add: tq_abs_def readers_goto)

lemma sim_claim:
  assumes inv: "cq_inv k s" and pc: "cq_pc s t = E_cas x (cq_head s)"
  shows "tq_step (2 ^ k) (T_claim x) (tq_abs k s)
    (tq_abs k (cq_goto t (E_write x (cq_head s)) (s\<lparr>cq_head := cq_head s + 1, cq_hist := cq_hist s @ [x]\<rparr>)))"
    (is "tq_step _ _ _ (tq_abs k ?s')")
proof -
  note facts = claim_facts [OF inv pc]
  have le: "unat (cq_tail s) \<le> length (cq_hist s)" using cq_invD(1) [OF inv] by (simp add: cq_shape_def)
  have "cq_readers ?s' = cq_readers s" using pc by (subst readers_goto) auto
  then have "tq_abs k ?s' = (tq_abs k s)\<lparr>tq_items := tq_items (tq_abs k s) @ [(x, False)]\<rparr>"
    using facts(2) le by (simp add: tq_abs_def nth_append)
  moreover have "length (tq_items (tq_abs k s)) < 2 ^ k"
    using facts(1) le by (simp add: tq_abs_def less_diff_conv2)
  ultimately show ?thesis by (simp add: tq_claim)
qed

lemma sim_publish:
  assumes inv: "cq_inv k s" and pc: "cq_pc s t = E_publish pos"
  shows "tq_step (2 ^ k) T_publish (tq_abs k s)
    (tq_abs k (cq_goto t Q_idle (s\<lparr>cq_seq := (cq_seq s)(cq_index s pos := pos + 1)\<rparr>)))"
    (is "tq_step _ _ _ (tq_abs k ?s')")
proof -
  define p where "p = unat pos"
  let ?T = "unat (cq_tail s)" and ?H = "length (cq_hist s)"
  note shape = cq_invD(1) [OF inv]
  have w: "pc_writes (cq_pc s t) p" by (simp add: pc p_def)
  note wf = writer_facts [OF inv w]
  have "p \<le> 2 ^ 62" using wf(2) shape by (simp add: cq_shape_def)
  then have "unat (pos + 1) = p + 1" using cq_next [of pos] by (simp add: p_def)
  then have seq: "ticket_seq k (s\<lparr>cq_seq := (cq_seq s)(cq_index s pos := pos + 1)\<rparr>) q = (if q mod 2 ^ k = p mod 2 ^ k then p + 1 else ticket_seq k s q)" for q
    by (simp add: ticket_seq_def cq_index_mod [OF shape] p_def)
  have same: "q = p" if "?T \<le> q" "q < ?H" "q mod 2 ^ k = p mod 2 ^ k" for q
    using same_cell_window [OF that(1) _ wf(1) _ that(3)] that wf(2) shape by (simp add: cq_shape_def)
  have "tq_items (tq_abs k ?s') = (tq_items (tq_abs k s))[p - ?T := (cq_hist s ! p, True)]"
  proof (rule nth_equalityI)
    fix i
    assume "i < length (tq_items (tq_abs k ?s'))"
    then have i: "?T + i < ?H" by (simp add: tq_abs_def)
    show "tq_items (tq_abs k ?s') ! i = (tq_items (tq_abs k s))[p - ?T := (cq_hist s ! p, True)] ! i"
    proof (cases "i = p - ?T")
      case True
      with i wf show ?thesis by (simp add: tq_abs_def seq)
    next
      case False
      then have "(?T + i) mod 2 ^ k \<noteq> p mod 2 ^ k" using same [of "?T + i"] i by auto
      with False i show ?thesis by (simp add: tq_abs_def seq)
    qed
  qed (simp add: tq_abs_def)
  moreover have "cq_readers ?s' = cq_readers s" using pc by (subst readers_goto) auto
  ultimately have "tq_abs k ?s' = (tq_abs k s)
      \<lparr>tq_items := (tq_items (tq_abs k s))[p - ?T := (cq_hist s ! p, True)]\<rparr>"
    by (simp add: tq_abs_def)
  moreover have "p - ?T < length (tq_items (tq_abs k s))"
    "tq_items (tq_abs k s) ! (p - ?T) = (cq_hist s ! p, False)"
    using wf nth_upt [of ?T "p - ?T" ?H] by (simp_all add: tq_abs_def)
  ultimately show ?thesis using tq_publish by metis
qed

lemma sim_take:
  assumes inv: "cq_inv k s" and pc: "cq_pc s t = D_cas (cq_tail s)"
  shows "tq_step (2 ^ k) (T_take (cq_hist s ! unat (cq_tail s))) (tq_abs k s)
    (tq_abs k (cq_goto t (D_take (cq_tail s)) (s\<lparr>cq_tail := cq_tail s + 1\<rparr>)))"
    (is "tq_step _ _ _ (tq_abs k ?s')")
proof -
  let ?T = "unat (cq_tail s)"
  note facts = take_facts [OF inv pc]
  have "unat (cq_tail s + 1) = ?T + 1"
    using cq_next [of "cq_tail s"] facts(1) cq_invD(1) [OF inv] by (simp add: cq_shape_def)
  then have T': "unat (cq_tail ?s') = Suc ?T" by simp
  have "cq_readers ?s' = insert ?T (cq_readers s)"
    using pc by (subst readers_goto_reader [of _ ?T]; auto)
  moreover have "?T \<notin> cq_readers s" using reader_facts(1) [OF inv] by (auto simp: cq_readers_def)
  ultimately have "card (cq_readers ?s') = Suc (card (cq_readers s))"
    using finite_readers [OF inv] by simp
  then have "tq_abs k ?s' = (tq_abs k s)\<lparr>tq_items := tl (tq_items (tq_abs k s)),
      tq_busy := tq_busy (tq_abs k s) + 1\<rparr>"
    using facts(1) by (simp add: tq_abs_def T' upt_conv_Cons del: cq_goto_simps(5))
  moreover have "tq_items (tq_abs k s) = (cq_hist s ! ?T, True) # tl (tq_items (tq_abs k s))"
    using facts by (simp add: tq_abs_def upt_conv_Cons)
  ultimately show ?thesis using tq_take by metis
qed

lemma sim_release:
  assumes inv: "cq_inv k s" and pc: "cq_pc s t = D_release pos x"
  shows "tq_step (2 ^ k) T_release (tq_abs k s)
    (tq_abs k (cq_goto t Q_idle (s\<lparr>cq_seq := (cq_seq s)(cq_index s pos := pos + cq_mask s + 1)\<rparr>)))"
    (is "tq_step _ _ _ (tq_abs k ?s')")
proof -
  define p where "p = unat pos"
  let ?T = "unat (cq_tail s)" and ?H = "length (cq_hist s)"
  note shape = cq_invD(1) [OF inv]
  have r: "pc_reads (cq_pc s t) p" by (simp add: pc p_def)
  note rf = reader_facts [OF inv r]
  have seq: "ticket_seq k (s\<lparr>cq_seq := (cq_seq s)(cq_index s pos := pos + cq_mask s + 1)\<rparr>) q = ticket_seq k s q" if "?T \<le> q" "q < ?H" for q
  proof -
    have "q mod 2 ^ k \<noteq> p mod 2 ^ k"
      using mod_lap [of p "2 ^ k" q] that rf by auto
    then show ?thesis by (simp add: ticket_seq_def cq_index_mod [OF shape] p_def)
  qed
  have "cq_readers ?s' = cq_readers s - {p}"
    using readers_goto_done [of "s\<lparr>cq_seq := (cq_seq s)(cq_index s pos := pos + cq_mask s + 1)\<rparr>" t p Q_idle]
      r cq_invD(2) [OF inv] pc by (simp add: cq_holders_def p_def)
  moreover have "p \<in> cq_readers s" using r by (auto simp: cq_readers_def)
  ultimately have "card (cq_readers s) = Suc (card (cq_readers ?s'))"
    using card_Suc_Diff1 [OF finite_readers [OF inv], of p] by (simp only:)
  then have "tq_busy (tq_abs k s) = card (cq_readers ?s') + 1" by (simp add: tq_abs_def)
  moreover have "tq_abs k ?s' = (tq_abs k s)\<lparr>tq_busy := card (cq_readers ?s')\<rparr>"
    using seq by (simp add: tq_abs_def)
  ultimately show ?thesis by (metis tq_release)
qed

lemma cq_simulates:
  assumes step: "cq_step t l s s'" and inv: "cq_inv k s"
  shows "tq_step (2 ^ k) (observed s l) (tq_abs k s) (tq_abs k s')"
  using step
proof cases
  case (enq_cas x pos)
  then show ?thesis using sim_claim [OF inv] by simp
next
  case (deq_cas pos)
  then show ?thesis using sim_take [OF inv] by simp
next
  case (enq_write x pos)
  then have "tq_abs k s' = tq_abs k s" by (simp add: abs_goto) (simp add: tq_abs_def)
  with enq_write show ?thesis by (simp add: tq_internal)
next
  case (enq_publish pos)
  then show ?thesis using sim_publish [OF inv] by simp
next
  case (deq_take pos)
  then have "cq_readers s' = insert (unat pos) (cq_readers s)"
    unfolding deq_take(2) by (subst readers_goto_reader [of _ "unat pos"]) (use deq_take(3) in auto)
  moreover have "unat pos \<in> cq_readers s"
    using deq_take(3) by (auto simp: cq_readers_def intro!: exI [of _ t])
  ultimately have "cq_readers s' = cq_readers s" by auto
  then have "tq_abs k s' = tq_abs k s" using deq_take by (simp add: tq_abs_def)
  with deq_take show ?thesis by (simp add: tq_internal)
next
  case (deq_release pos x)
  then show ?thesis using sim_release [OF inv] by simp
next
  case (enq_full x pos)
  have "cq_readers s = {} \<or> 0 < tq_busy (tq_abs k s)"
    using finite_readers [OF inv] by (auto simp: tq_abs_def card_gt_0_iff)
  with refuse_reason [OF inv enq_full(3,4)] have
    "length (tq_items (tq_abs k s)) = 2 ^ k \<or> 0 < tq_busy (tq_abs k s)" by (auto simp: tq_abs_def)
  with enq_full show ?thesis by (simp add: tq_refuse abs_goto)
next
  case (deq_empty pos)
  have "unat (cq_tail s) \<le> length (cq_hist s)" using cq_invD(1) [OF inv] by (simp add: cq_shape_def)
  with nothing_reason [OF inv deq_empty(3,4)] have
    "tq_items (tq_abs k s) = [] \<or> \<not> snd (hd (tq_items (tq_abs k s)))"
    by (auto simp: tq_abs_def hd_map)
  with deq_empty show ?thesis by (simp add: tq_nothing abs_goto)
qed (simp_all add: tq_internal abs_goto)

section \<open>Properties\<close>

text \<open>
  Two producers interleaved with a consumer on two cells: both claim, the second publishes first,
  the consumer takes the first element.
\<close>

definition interleaving :: "(nat \<times> nat option) list" where
  "interleaving =
     [(0, Some 5), (1, Some 6), (0, None), (1, None), (0, None), (1, None), (1, None), (1, None),
      (1, None), (1, None), (0, None), (0, None), (2, None), (2, None), (2, None), (2, None)]"

definition interleaved :: "nat cqueue" where
  "interleaved = fold cq_exec interleaving (cq_init 0 1)"

lemma interleaved_eval:
  "cq_hist interleaved = [5, 6]" "cq_got interleaved = [(0, 5)]" "cq_pc interleaved 2 = D_release 0 5"
  "cq_pc interleaved 1 = Q_idle"
  by (simp_all add: interleaved_def interleaving_def cq_exec_def cq_init_def cq_goto_def cq_index_def
      seq_dif_def Let_def)

lemma interleaved_reach: "cq_reach 1 interleaved"
  unfolding interleaved_def by (intro cq_reach_exec cq_reach_init)

text \<open>
  C3. Concurrent queue, whatever the interleaving of any number of producers and consumers: an
  element is read at most once, and the reader with dequeue ticket \<open>n\<close> gets exactly the element
  that was enqueued with ticket \<open>n\<close>: nothing is lost, duplicated, torn or reordered.
\<close>

theorem concurrent_fifo:
  assumes "cq_reach k s" "1 \<le> k" "k \<le> 61" "length (cq_hist s) \<le> 2 ^ 62"
  shows "distinct (map fst (cq_got s)) \<and>
    (\<forall>(n, v) \<in> set (cq_got s). n < unat (cq_tail s) \<and> unat (cq_tail s) \<le> length (cq_hist s) \<and>
       v = cq_hist s ! n)"
  using cq_invD(1,3) [OF cq_reach_inv [OF assms]] by (auto simp: cq_got_ok_def cq_shape_def)

theorem concurrent_fifo_witness:
  "cq_got interleaved = [(0, 5)] \<and> cq_hist interleaved ! 0 = 5"
  using concurrent_fifo [OF interleaved_reach] by (simp add: interleaved_eval)

text \<open>
  No data race on the slots: two threads are never both between claiming a ticket and giving
  up its cell, reader or writer, on the same cell, so the plain accesses to \<^verbatim>\<open>data\<close> of different
  threads never overlap.
\<close>

theorem concurrent_no_race:
  assumes "cq_reach k s" "1 \<le> k" "k \<le> 61" "length (cq_hist s) \<le> 2 ^ 62" "t \<noteq> u"
    "pc_writes (cq_pc s t) p \<or> pc_reads (cq_pc s t) p"
    "pc_writes (cq_pc s u) q \<or> pc_reads (cq_pc s u) q"
  shows "p mod 2 ^ k \<noteq> q mod 2 ^ k"
proof -
  note inv = cq_reach_inv [OF assms(1-4)]
  from assms(5-7) show ?thesis
    using writers_same_cell [OF inv] readers_same_cell [OF inv] writer_reader_cell [OF inv]
    by (metis (no_types, lifting))
qed

definition two_writers :: "nat cqueue" where
  "two_writers = fold cq_exec (take 8 interleaving) (cq_init 0 1)"

theorem concurrent_no_race_witness:
  "cq_pc two_writers 0 = E_write 5 0 \<and> cq_pc two_writers 1 = E_write 6 1 \<and> (0::nat) mod 2 ^ 1 \<noteq> 1 mod 2 ^ 1"
proof -
  have pcs: "cq_pc two_writers 0 = E_write 5 0" "cq_pc two_writers 1 = E_write 6 1"
    "cq_hist two_writers = [5, 6]"
    by (simp_all add: two_writers_def interleaving_def cq_exec_def cq_init_def cq_goto_def
        cq_index_def seq_dif_def Let_def)
  have "cq_reach 1 two_writers"
    unfolding two_writers_def by (intro cq_reach_exec cq_reach_init)
  from concurrent_no_race [OF this, of 0 1 0 1] pcs show ?thesis by simp
qed

text \<open>
  C5. The concurrent queue refines the ticket queue of its callers: a claim needs room, a refusal
  means that all cells are occupied or one is still being read by a dequeue in progress, a take
  gives the oldest element, and nothing is found only when no element is there or the oldest is
  still being written.
\<close>

theorem concurrent_refines:
  assumes "cq_reach k s" "1 \<le> k" "k \<le> 61" "length (cq_hist s) \<le> 2 ^ 62" "cq_step t l s s'"
  shows "tq_step (2 ^ k) (observed s l) (tq_abs k s) (tq_abs k s')"
  using assms(5) cq_reach_inv [OF assms(1-4)] by (rule cq_simulates)

theorem concurrent_refines_witness:
  "tq_step 2 T_release (tq_abs 1 interleaved) (tq_abs 1 (cq_exec (2, None) interleaved))"
proof -
  have "cq_step 2 (Release 0) interleaved (cq_exec (2, None) interleaved)"
    using deq_release [OF interleaved_eval(3)] by (simp add: cq_exec_def interleaved_eval)
  from concurrent_refines [OF interleaved_reach _ _ _ this] show ?thesis
    by (simp add: interleaved_eval)
qed

end
