(* ===== verification/Mpsc_Orders.thy ===== *)
theory Mpsc_Orders
  imports Ticket_Queue
begin

text \<open>
  \<^verbatim>\<open>mpsc_queue.hpp\<close> with the memory orders it names. A location is the list of the values stored to
  it, in modification order; a thread has a view, the oldest entry of each location it may still read.
  A \<^verbatim>\<open>memory_order_relaxed\<close> load returns any entry the view allows; a \<^verbatim>\<open>memory_order_release\<close> store
  records the view of its thread, and a \<^verbatim>\<open>memory_order_acquire\<close> load joins the view of the entry it
  reads. The plain accesses to \<^verbatim>\<open>data\<close> are counted in the views: one thread's access happens before
  another's exactly when the other's view holds it. What is left out of C++ are reads of values that
  are stored only later (cycles of program order and reads-from).
\<close>

section \<open>Views\<close>

datatype mem_loc = Head | Tail | Seq nat | Wrote nat | Read nat

type_synonym view = "mem_loc \<Rightarrow> nat"

text \<open>\<open>cqueue\<close> holds the newest entries; the older ones and the views are here.\<close>

record weak =
  wk_heads :: "u64 list"
  wk_tails :: "u64 list"
  wk_seqs :: "nat \<Rightarrow> (u64 \<times> view) list"
  wk_writes :: "nat \<Rightarrow> nat"
  wk_reads :: "nat \<Rightarrow> nat"
  wk_view :: "nat \<Rightarrow> view"

type_synonym 'a weak_queue = "'a cqueue \<times> weak"

text \<open>The constructor's stores happen before everything else.\<close>

definition weak_init :: "'a \<Rightarrow> nat \<Rightarrow> 'a weak_queue" where
  "weak_init dflt k =
     (cq_init dflt k,
      \<lparr>wk_heads = [0], wk_tails = [0], wk_seqs = (\<lambda>c. [(of_nat c, \<lambda>l. 0)]), wk_writes = (\<lambda>c. 0),
       wk_reads = (\<lambda>c. 0), wk_view = (\<lambda>t l. 0)\<rparr>)"

definition see :: "nat \<Rightarrow> mem_loc \<Rightarrow> nat \<Rightarrow> weak \<Rightarrow> weak" where
  "see t l i w = w\<lparr>wk_view := (wk_view w)(t := (wk_view w t)(l := i))\<rparr>"

definition learn :: "nat \<Rightarrow> view \<Rightarrow> weak \<Rightarrow> weak" where
  "learn t v w = w\<lparr>wk_view := (wk_view w)(t := sup (wk_view w t) v)\<rparr>"

text \<open>A relaxed load, an acquire load and a release store.\<close>

definition load_relaxed :: "nat \<Rightarrow> mem_loc \<Rightarrow> u64 list \<Rightarrow> weak \<Rightarrow> u64 \<Rightarrow> weak \<Rightarrow> bool" where
  "load_relaxed t l entries w v w' \<longleftrightarrow>
     (\<exists>i. wk_view w t l \<le> i \<and> i < length entries \<and> v = entries ! i \<and> w' = see t l i w)"

definition load_acquire :: "nat \<Rightarrow> nat \<Rightarrow> weak \<Rightarrow> u64 \<Rightarrow> weak \<Rightarrow> bool" where
  "load_acquire t c w v w' \<longleftrightarrow>
     (\<exists>i. wk_view w t (Seq c) \<le> i \<and> i < length (wk_seqs w c) \<and> v = fst (wk_seqs w c ! i) \<and>
        w' = learn t (snd (wk_seqs w c ! i)) (see t (Seq c) i w))"

definition store_release :: "nat \<Rightarrow> nat \<Rightarrow> u64 \<Rightarrow> weak \<Rightarrow> weak" where
  "store_release t c v w =
     (let w = see t (Seq c) (length (wk_seqs w c)) w
      in w\<lparr>wk_seqs := (wk_seqs w)(c := wk_seqs w c @ [(v, wk_view w t)])\<rparr>)"

text \<open>A compare-and-exchange that succeeds reads the newest entry: each entry has one successor.\<close>

definition bump_head :: "nat \<Rightarrow> u64 \<Rightarrow> weak \<Rightarrow> weak" where
  "bump_head t v w = see t Head (length (wk_heads w)) (w\<lparr>wk_heads := wk_heads w @ [v]\<rparr>)"

definition bump_tail :: "nat \<Rightarrow> u64 \<Rightarrow> weak \<Rightarrow> weak" where
  "bump_tail t v w = see t Tail (length (wk_tails w)) (w\<lparr>wk_tails := wk_tails w @ [v]\<rparr>)"

definition note_write :: "nat \<Rightarrow> nat \<Rightarrow> weak \<Rightarrow> weak" where
  "note_write t c w =
     see t (Wrote c) (wk_writes w c + 1) (w\<lparr>wk_writes := (wk_writes w)(c := wk_writes w c + 1)\<rparr>)"

definition note_read :: "nat \<Rightarrow> nat \<Rightarrow> weak \<Rightarrow> weak" where
  "note_read t c w =
     see t (Read c) (wk_reads w c + 1) (w\<lparr>wk_reads := (wk_reads w)(c := wk_reads w c + 1)\<rparr>)"

section \<open>Steps\<close>

text \<open>
  The steps of \<open>cq_step\<close>, with loads that may be stale. In \<open>wk_sync\<close> a thread learns what another
  knows by any other synchronisation of the program: a mutex, a thread's start or its join.
\<close>

inductive wk_step :: "nat \<Rightarrow> 'a qlabel \<Rightarrow> 'a weak_queue \<Rightarrow> 'a weak_queue \<Rightarrow> bool" where
  wk_sync: "wk_step t Tau (q, w) (q, learn t (wk_view w u) w)"
| wk_enq_start: "cq_pc q t = Q_idle \<Longrightarrow> load_relaxed t Head (wk_heads w) w pos w' \<Longrightarrow>
    wk_step t Tau (q, w) (cq_goto t (E_load x pos) q, w')"
| wk_enq_equal: "cq_pc q t = E_load x pos \<Longrightarrow> load_acquire t (cq_index q pos) w v w' \<Longrightarrow> seq_dif v pos = 0 \<Longrightarrow>
    wk_step t Tau (q, w) (cq_goto t (E_cas x pos) q, w')"
| wk_enq_full: "cq_pc q t = E_load x pos \<Longrightarrow> load_acquire t (cq_index q pos) w v w' \<Longrightarrow> seq_dif v pos < 0 \<Longrightarrow>
    wk_step t Refuse (q, w) (cq_goto t Q_idle q, w')"
| wk_enq_behind: "cq_pc q t = E_load x pos \<Longrightarrow> load_acquire t (cq_index q pos) w v w' \<Longrightarrow> seq_dif v pos > 0 \<Longrightarrow>
    wk_step t Tau (q, w) (cq_goto t (E_reload x) q, w')"
| wk_enq_reload: "cq_pc q t = E_reload x \<Longrightarrow> load_relaxed t Head (wk_heads w) w pos w' \<Longrightarrow>
    wk_step t Tau (q, w) (cq_goto t (E_load x pos) q, w')"
| wk_enq_cas: "cq_pc q t = E_cas x pos \<Longrightarrow> last (wk_heads w) = pos \<Longrightarrow>
    wk_step t (Claim x) (q, w)
      (cq_goto t (E_write x pos) (q\<lparr>cq_head := pos + 1, cq_hist := cq_hist q @ [x]\<rparr>), bump_head t (pos + 1) w)"
| wk_enq_cas_fail: "cq_pc q t = E_cas x pos \<Longrightarrow> load_relaxed t Head (wk_heads w) w now w' \<Longrightarrow>
    wk_step t Tau (q, w) (cq_goto t (E_load x now) q, w')"
| wk_enq_write: "cq_pc q t = E_write x pos \<Longrightarrow>
    wk_step t Tau (q, w)
      (cq_goto t (E_publish pos) (q\<lparr>cq_data := (cq_data q)(cq_index q pos := x)\<rparr>), note_write t (cq_index q pos) w)"
| wk_enq_publish: "cq_pc q t = E_publish pos \<Longrightarrow>
    wk_step t (Publish pos) (q, w)
      (cq_goto t Q_idle (q\<lparr>cq_seq := (cq_seq q)(cq_index q pos := pos + 1)\<rparr>),
       store_release t (cq_index q pos) (pos + 1) w)"
| wk_deq_start: "cq_pc q t = Q_idle \<Longrightarrow> load_relaxed t Tail (wk_tails w) w pos w' \<Longrightarrow>
    wk_step t Tau (q, w) (cq_goto t (D_load pos) q, w')"
| wk_deq_equal: "cq_pc q t = D_load pos \<Longrightarrow> load_acquire t (cq_index q pos) w v w' \<Longrightarrow> seq_dif v (pos + 1) = 0 \<Longrightarrow>
    wk_step t Tau (q, w) (cq_goto t (D_cas pos) q, w')"
| wk_deq_empty: "cq_pc q t = D_load pos \<Longrightarrow> load_acquire t (cq_index q pos) w v w' \<Longrightarrow> seq_dif v (pos + 1) < 0 \<Longrightarrow>
    wk_step t Nothing (q, w) (cq_goto t Q_idle q, w')"
| wk_deq_behind: "cq_pc q t = D_load pos \<Longrightarrow> load_acquire t (cq_index q pos) w v w' \<Longrightarrow> seq_dif v (pos + 1) > 0 \<Longrightarrow>
    wk_step t Tau (q, w) (cq_goto t D_reload q, w')"
| wk_deq_reload: "cq_pc q t = D_reload \<Longrightarrow> load_relaxed t Tail (wk_tails w) w pos w' \<Longrightarrow>
    wk_step t Tau (q, w) (cq_goto t (D_load pos) q, w')"
| wk_deq_cas: "cq_pc q t = D_cas pos \<Longrightarrow> last (wk_tails w) = pos \<Longrightarrow>
    wk_step t (Take pos) (q, w)
      (cq_goto t (D_take pos) (q\<lparr>cq_tail := pos + 1\<rparr>), bump_tail t (pos + 1) w)"
| wk_deq_cas_fail: "cq_pc q t = D_cas pos \<Longrightarrow> load_relaxed t Tail (wk_tails w) w now w' \<Longrightarrow>
    wk_step t Tau (q, w) (cq_goto t (D_load now) q, w')"
| wk_deq_take: "cq_pc q t = D_take pos \<Longrightarrow>
    wk_step t Tau (q, w)
      (cq_goto t (D_release pos (cq_data q (cq_index q pos)))
        (q\<lparr>cq_got := cq_got q @ [(unat pos, cq_data q (cq_index q pos))]\<rparr>), note_read t (cq_index q pos) w)"
| wk_deq_release: "cq_pc q t = D_release pos x \<Longrightarrow>
    wk_step t (Release pos) (q, w)
      (cq_goto t Q_idle (q\<lparr>cq_seq := (cq_seq q)(cq_index q pos := pos + cq_mask q + 1)\<rparr>),
       store_release t (cq_index q pos) (pos + cq_mask q + 1) w)"

inductive wk_reach :: "nat \<Rightarrow> 'a weak_queue \<Rightarrow> bool" for k where
  wk_reach_init: "wk_reach k (weak_init dflt k)"
| wk_reach_step: "wk_reach k s \<Longrightarrow> wk_step t l s s' \<Longrightarrow> wk_reach k s'"

section \<open>The invariant\<close>

definition increasing :: "(u64 \<times> view) list \<Rightarrow> bool" where
  "increasing es \<longleftrightarrow> sorted_wrt (\<lambda>m n. unat (fst m) < unat (fst n)) es"

text \<open>A view that holds every access to the data of a cell so far.\<close>

definition full_view :: "weak \<Rightarrow> nat \<Rightarrow> view \<Rightarrow> bool" where
  "full_view w c v \<longleftrightarrow> v (Wrote c) = wk_writes w c \<and> v (Read c) = wk_reads w c"

fun newest :: "weak \<Rightarrow> view" where
  "newest w Head = length (wk_heads w) - 1"
| "newest w Tail = length (wk_tails w) - 1"
| "newest w (Seq c) = length (wk_seqs w c) - 1"
| "newest w (Wrote c) = wk_writes w c"
| "newest w (Read c) = wk_reads w c"

text \<open>\<open>v\<close> has acquired the entry of cell \<open>c\<close> that holds \<open>n\<close>.\<close>

definition acquired :: "weak \<Rightarrow> nat \<Rightarrow> nat \<Rightarrow> view \<Rightarrow> bool" where
  "acquired w c n v \<longleftrightarrow>
     (\<exists>i < length (wk_seqs w c). unat (fst (wk_seqs w c ! i)) = n \<and> snd (wk_seqs w c ! i) \<le> v \<and> i \<le> v (Seq c))"

definition holds_cell :: "weak \<Rightarrow> nat \<Rightarrow> view \<Rightarrow> bool" where
  "holds_cell w c v \<longleftrightarrow> full_view w c v \<and> v (Seq c) = length (wk_seqs w c) - 1"

definition holder_of :: "'a qpc \<Rightarrow> nat \<Rightarrow> bool" where
  "holder_of pc p \<longleftrightarrow> pc_writes pc p \<or> pc_reads pc p"

fun pc_knows :: "nat \<Rightarrow> weak \<Rightarrow> view \<Rightarrow> 'a qpc \<Rightarrow> bool" where
  "pc_knows k w v (E_cas x pos) \<longleftrightarrow> acquired w (unat pos mod 2 ^ k) (unat pos) v"
| "pc_knows k w v (D_cas pos) \<longleftrightarrow> acquired w (unat pos mod 2 ^ k) (unat pos + 1) v"
| "pc_knows k w v pc \<longleftrightarrow> (\<forall>p. holder_of pc p \<longrightarrow> holds_cell w (p mod 2 ^ k) v)"

definition entries_ok :: "'a cqueue \<Rightarrow> weak \<Rightarrow> bool" where
  "entries_ok q w \<longleftrightarrow> wk_heads w = map of_nat [0..<Suc (length (cq_hist q))] \<and>
     wk_tails w = map of_nat [0..<Suc (unat (cq_tail q))] \<and>
     (\<forall>c. wk_seqs w c \<noteq> [] \<and> fst (last (wk_seqs w c)) = cq_seq q c \<and> increasing (wk_seqs w c))"

definition views_ok :: "weak \<Rightarrow> bool" where
  "views_ok w \<longleftrightarrow> (\<forall>t. wk_view w t \<le> newest w) \<and> (\<forall>c. \<forall>m \<in> set (wk_seqs w c). snd m \<le> newest w)"

text \<open>A cell nobody holds is described in full by the view of its newest entry.\<close>

definition cells_known :: "nat \<Rightarrow> 'a cqueue \<Rightarrow> weak \<Rightarrow> bool" where
  "cells_known k q w \<longleftrightarrow>
     (\<forall>c < 2 ^ k. (\<exists>t p. holder_of (cq_pc q t) p \<and> p mod 2 ^ k = c) \<or> full_view w c (snd (last (wk_seqs w c))))"

definition wk_inv :: "nat \<Rightarrow> 'a cqueue \<Rightarrow> weak \<Rightarrow> bool" where
  "wk_inv k q w \<longleftrightarrow> cq_inv k q \<and> entries_ok q w \<and> views_ok w \<and> cells_known k q w \<and>
     (\<forall>t. pc_knows k w (wk_view w t) (cq_pc q t))"

lemma wk_invD:
  assumes "wk_inv k q w"
  shows "cq_inv k q" "entries_ok q w" "views_ok w" "cells_known k q w" "pc_knows k w (wk_view w t) (cq_pc q t)"
  using assms by (simp_all add: wk_inv_def)

lemma increasing_nth: "increasing es \<Longrightarrow> i < j \<Longrightarrow> j < length es \<Longrightarrow> unat (fst (es ! i)) < unat (fst (es ! j))"
  unfolding increasing_def by (auto dest: sorted_wrt_nth_less)

lemma increasing_last:
  assumes "increasing es" "i < length es"
  shows "unat (fst (es ! i)) \<le> unat (fst (last es))"
    and "unat (fst (es ! i)) = unat (fst (last es)) \<Longrightarrow> i = length es - 1"
proof -
  have last: "last es = es ! (length es - 1)" using assms(2) by (intro last_conv_nth) auto
  have "i < length es - 1 \<Longrightarrow> unat (fst (es ! i)) < unat (fst (last es))"
    unfolding last using increasing_nth [OF assms(1)] assms(2) by simp
  then show "unat (fst (es ! i)) \<le> unat (fst (last es))"
    "unat (fst (es ! i)) = unat (fst (last es)) \<Longrightarrow> i = length es - 1"
    using assms(2) unfolding last by (cases "i = length es - 1"; fastforce)+
qed

text \<open>Moving views up keeps everything; \<open>v\<close> is the new view of \<open>t\<close>.\<close>

definition with_view :: "nat \<Rightarrow> view \<Rightarrow> weak \<Rightarrow> weak" where
  "with_view t v w = w\<lparr>wk_view := (wk_view w)(t := v)\<rparr>"

lemma see_view: "see t l i w = with_view t ((wk_view w t)(l := i)) w"
  by (simp add: see_def with_view_def)

lemma learn_view: "learn t v w = with_view t (sup (wk_view w t) v) w"
  by (simp add: learn_def with_view_def)

lemma with_view_simps [simp]:
  "wk_heads (with_view t v w) = wk_heads w" "wk_tails (with_view t v w) = wk_tails w"
  "wk_seqs (with_view t v w) = wk_seqs w" "wk_writes (with_view t v w) = wk_writes w"
  "wk_reads (with_view t v w) = wk_reads w" "wk_view (with_view t v w) u = (if u = t then v else wk_view w u)"
  "newest (with_view t v w) = newest w" "full_view (with_view t v w) = full_view w"
  "acquired (with_view t v w) = acquired w" "holds_cell (with_view t v w) = holds_cell w"
  "with_view t v (with_view t v' w) = with_view t v w"
proof -
  show "newest (with_view t v w) = newest w"
    by (rule ext, rename_tac l, case_tac l) (simp_all add: with_view_def)
qed (auto simp: with_view_def full_view_def acquired_def holds_cell_def fun_eq_iff)

lemma pc_knows_with_view [simp]: "pc_knows k (with_view t v w) u = (pc_knows k w u :: 'a qpc \<Rightarrow> bool)"
proof
  show "pc_knows k (with_view t v w) u pc = pc_knows k w u pc" for pc :: "'a qpc"
    by (cases pc) simp_all
qed

lemma acquired_mono: "acquired w c n v \<Longrightarrow> v \<le> v' \<Longrightarrow> acquired w c n v'"
  unfolding acquired_def by (metis le_funD order_trans)

lemma holds_mono: "holds_cell w c v \<Longrightarrow> v \<le> v' \<Longrightarrow> v' \<le> newest w \<Longrightarrow> holds_cell w c v'"
  unfolding holds_cell_def full_view_def by (metis le_funD newest.simps(3-5) order_antisym)

lemma knows_mono: "pc_knows k w v pc \<Longrightarrow> v \<le> v' \<Longrightarrow> v' \<le> newest w \<Longrightarrow> pc_knows k w v' pc"
  by (cases pc) (auto intro: acquired_mono holds_mono)

section \<open>Loads\<close>

lemma holder_simps [simp]:
  "\<not> holder_of Q_idle p" "\<not> holder_of (E_load x pos) p" "\<not> holder_of (E_cas x pos) p" "\<not> holder_of (E_reload x) p"
  "\<not> holder_of (D_load pos) p" "\<not> holder_of (D_cas pos) p" "\<not> holder_of D_reload p"
  "holder_of (E_write x pos) p \<longleftrightarrow> unat pos = p" "holder_of (E_publish pos) p \<longleftrightarrow> unat pos = p"
  "holder_of (D_take pos) p \<longleftrightarrow> unat pos = p" "holder_of (D_release pos x) p \<longleftrightarrow> unat pos = p"
  by (simp_all add: holder_of_def)

lemma wk_goto:
  assumes inv: "wk_inv k q w" and old: "\<And>p. \<not> holder_of (cq_pc q t) p" and new: "\<And>p. \<not> holder_of pc p"
    and pc: "pc_ok k q pc" "pc_knows k w v pc" and v: "wk_view w t \<le> v" "v \<le> newest w"
  shows "wk_inv k (cq_goto t pc q) (with_view t v w)"
proof -
  note i = wk_invD [OF inv]
  have "cq_inv k (cq_goto t pc q)"
    using old new pc(1) by (intro inv_goto [OF i(1)]) (auto simp: holder_of_def)
  moreover have "entries_ok (cq_goto t pc q) (with_view t v w)" using i(2) by (simp add: entries_ok_def)
  moreover have "views_ok (with_view t v w)" using i(3) v(2) by (simp add: views_ok_def)
  moreover have "cells_known k (cq_goto t pc q) (with_view t v w)"
    using i(4) old unfolding cells_known_def by (metis cq_goto_simps(8) with_view_simps(3,8))
  moreover have "pc_knows k (with_view t v w) (wk_view (with_view t v w) u) (cq_pc (cq_goto t pc q) u)" for u
    using i(5) [of u] pc(2) by simp
  ultimately show ?thesis by (simp add: wk_inv_def)
qed

lemma view_below_newest: "wk_inv k q w \<Longrightarrow> wk_view w t \<le> newest w"
  by (simp add: wk_inv_def views_ok_def)

lemma seen_above:
  assumes "wk_inv k q w" "wk_view w t l \<le> i" "i \<le> newest w l"
  shows "wk_view w t \<le> (wk_view w t)(l := i)" "(wk_view w t)(l := i) \<le> newest w"
  using assms(2,3) view_below_newest [OF assms(1), of t] by (auto simp: le_fun_def)

lemma hist_small: "cq_inv k q \<Longrightarrow> length (cq_hist q) \<le> 2 ^ 62" "cq_inv k q \<Longrightarrow> unat (cq_tail q) \<le> length (cq_hist q)"
  by (simp_all add: cq_inv_def cq_shape_def)

lemma load_head:
  assumes inv: "wk_inv k q w" and ld: "load_relaxed t Head (wk_heads w) w pos w'"
  obtains v where "w' = with_view t v w" "wk_view w t \<le> v" "v \<le> newest w" "unat pos \<le> length (cq_hist q)"
proof -
  from ld obtain i where i: "wk_view w t Head \<le> i" "i < length (wk_heads w)" "pos = wk_heads w ! i" "w' = see t Head i w"
    by (auto simp: load_relaxed_def)
  have h: "wk_heads w = map of_nat [0..<Suc (length (cq_hist q))]" using wk_invD(2) [OF inv] by (simp add: entries_ok_def)
  with i(2) have "i \<le> length (cq_hist q)" by simp
  with hist_small(1) [OF wk_invD(1) [OF inv]] have "unat pos \<le> length (cq_hist q)"
    unfolding i(3) h by (simp add: nth_append unat_of_nat del: upt_Suc)
  moreover have "i \<le> newest w Head" using i(2) by simp
  ultimately show thesis using that seen_above [OF inv i(1)] i(4) by (metis see_view)
qed

lemma load_tail:
  assumes inv: "wk_inv k q w" and ld: "load_relaxed t Tail (wk_tails w) w pos w'"
  obtains v where "w' = with_view t v w" "wk_view w t \<le> v" "v \<le> newest w" "unat pos \<le> unat (cq_tail q)"
proof -
  from ld obtain i where i: "wk_view w t Tail \<le> i" "i < length (wk_tails w)" "pos = wk_tails w ! i" "w' = see t Tail i w"
    by (auto simp: load_relaxed_def)
  have h: "wk_tails w = map of_nat [0..<Suc (unat (cq_tail q))]" using wk_invD(2) [OF inv] by (simp add: entries_ok_def)
  with i(2) have "i \<le> unat (cq_tail q)" by simp
  with hist_small [OF wk_invD(1) [OF inv]] have "unat pos \<le> unat (cq_tail q)"
    unfolding i(3) h by (simp add: nth_append unat_of_nat del: upt_Suc)
  moreover have "i \<le> newest w Tail" using i(2) by simp
  ultimately show thesis using that seen_above [OF inv i(1)] i(4) by (metis see_view)
qed

lemma load_seq:
  assumes inv: "wk_inv k q w" and ld: "load_acquire t c w n w'"
  obtains v where "w' = with_view t v w" "wk_view w t \<le> v" "v \<le> newest w" "acquired w c (unat n) v"
    "unat n \<le> unat (cq_seq q c)"
proof -
  from ld obtain i where i: "wk_view w t (Seq c) \<le> i" "i < length (wk_seqs w c)" "n = fst (wk_seqs w c ! i)"
    "w' = learn t (snd (wk_seqs w c ! i)) (see t (Seq c) i w)"
    by (auto simp: load_acquire_def)
  let ?v = "sup ((wk_view w t)(Seq c := i)) (snd (wk_seqs w c ! i))"
  have e: "increasing (wk_seqs w c)" "fst (last (wk_seqs w c)) = cq_seq q c"
    using wk_invD(2) [OF inv] by (simp_all add: entries_ok_def)
  have "i \<le> newest w (Seq c)" using i(2) by simp
  note seen = seen_above [OF inv i(1) this]
  have "snd (wk_seqs w c ! i) \<le> newest w"
    using wk_invD(3) [OF inv] nth_mem [OF i(2)] unfolding views_ok_def by blast
  with seen have v: "wk_view w t \<le> ?v" "?v \<le> newest w" by (auto intro: le_supI1)
  have "i \<le> ?v (Seq c)" by simp
  then have "acquired w c (unat n) ?v" using i(2,3) unfolding acquired_def by (intro exI [of _ i]) simp
  moreover have "w' = with_view t ?v w" by (simp add: i(4) see_view learn_view)
  moreover have "unat n \<le> unat (cq_seq q c)" using increasing_last(1) [OF e(1) i(2)] by (simp add: i(3) e(2))
  ultimately show thesis using that v by blast
qed

text \<open>
  The newest entry of a ticket's cell holds a number that only grows, so a stale entry that equals the
  ticket is the newest one.
\<close>

lemma acquired_newest:
  assumes "entries_ok q w" "acquired w c n v" "n = unat (cq_seq q c)" "v \<le> newest w"
  shows "snd (last (wk_seqs w c)) \<le> v" "v (Seq c) = length (wk_seqs w c) - 1"
proof -
  have e: "increasing (wk_seqs w c)" "fst (last (wk_seqs w c)) = cq_seq q c" "wk_seqs w c \<noteq> []"
    using assms(1) by (simp_all add: entries_ok_def)
  from assms(2) obtain i where i: "i < length (wk_seqs w c)" "unat (fst (wk_seqs w c ! i)) = n"
    "snd (wk_seqs w c ! i) \<le> v" "i \<le> v (Seq c)" unfolding acquired_def by blast
  have "i = length (wk_seqs w c) - 1" using increasing_last(2) [OF e(1) i(1)] i(2) assms(3) by (simp add: e(2))
  with i(3,4) e(3) le_funD [OF assms(4), of "Seq c"]
  show "snd (last (wk_seqs w c)) \<le> v" "v (Seq c) = length (wk_seqs w c) - 1"
    by (simp_all add: last_conv_nth)
qed

section \<open>Taking hold of a cell\<close>

lemma holders_exclude:
  assumes "cq_inv k q" "t \<noteq> u" "holder_of (cq_pc q t) m" "holder_of (cq_pc q u) n"
  shows "m mod 2 ^ k \<noteq> n mod 2 ^ k"
  using assms writers_same_cell [OF assms(1)] readers_same_cell [OF assms(1)] writer_reader_cell [OF assms(1)]
  unfolding holder_of_def by (metis (no_types, lifting))

text \<open>The number in a held cell tells the ticket that holds it.\<close>

lemma holder_seq:
  assumes "cq_inv k q" "holder_of (cq_pc q u) m"
  shows "ticket_seq k q m = m \<and> unat (cq_tail q) \<le> m \<and> m < length (cq_hist q) \<or>
    ticket_seq k q m = m + 1 \<and> m < unat (cq_tail q)"
  using assms(2) writer_facts [OF assms(1), of u m] reader_facts [OF assms(1), of u m] by (auto simp: holder_of_def)

lemma cell_not_held:
  assumes inv: "cq_inv k q" and seq: "ticket_seq k q n = n \<and> n = length (cq_hist q) \<or>
      ticket_seq k q n = n + 1 \<and> n = unat (cq_tail q)"
    and h: "holder_of (cq_pc q u) m"
  shows "m mod 2 ^ k \<noteq> n mod 2 ^ k"
proof
  assume eq: "m mod 2 ^ k = n mod 2 ^ k"
  then have same: "ticket_seq k q m = ticket_seq k q n" by (simp add: ticket_seq_def)
  have neq: "Suc a mod 2 ^ k \<noteq> a mod 2 ^ k" for a
    using cell_Suc_neq [of k a] cq_invD(1) [OF inv] by (simp add: cq_shape_def)
  from holder_seq [OF inv h] seq same eq neq [of m] neq [of n] show False by fastforce
qed

lemma hold_free_cell:
  assumes inv: "wk_inv k q w" and free: "\<And>u m. holder_of (cq_pc q u) m \<Longrightarrow> m mod 2 ^ k \<noteq> c" "c < 2 ^ k"
    and a: "acquired w c (unat (cq_seq q c)) v" and v: "v \<le> newest w"
  shows "holds_cell w c v"
proof -
  note last = acquired_newest [OF wk_invD(2) [OF inv] a refl v]
  have "full_view w c (snd (last (wk_seqs w c)))"
    using wk_invD(4) [OF inv] free unfolding cells_known_def by blast
  with last(1) v have "full_view w c v"
    unfolding full_view_def by (metis le_funD newest.simps(4,5) order_antisym)
  with last(2) show ?thesis by (simp add: holds_cell_def)
qed

lemma bumped [simp]:
  "full_view (w\<lparr>wk_heads := h\<rparr>) = full_view w" "full_view (w\<lparr>wk_tails := h\<rparr>) = full_view w"
  "acquired (w\<lparr>wk_heads := h\<rparr>) = acquired w" "acquired (w\<lparr>wk_tails := h\<rparr>) = acquired w"
  "holds_cell (w\<lparr>wk_heads := h\<rparr>) = holds_cell w" "holds_cell (w\<lparr>wk_tails := h\<rparr>) = holds_cell w"
  by (simp_all add: full_view_def acquired_def holds_cell_def fun_eq_iff)

lemma pc_knows_bumped [simp]:
  "pc_knows k (w\<lparr>wk_heads := h\<rparr>) v = (pc_knows k w v :: 'a qpc \<Rightarrow> bool)"
  "pc_knows k (w\<lparr>wk_tails := h\<rparr>) v = (pc_knows k w v :: 'a qpc \<Rightarrow> bool)"
proof -
  show "pc_knows k (w\<lparr>wk_heads := h\<rparr>) v = (pc_knows k w v :: 'a qpc \<Rightarrow> bool)"
    by (rule ext, rename_tac pc, case_tac pc) simp_all
  show "pc_knows k (w\<lparr>wk_tails := h\<rparr>) v = (pc_knows k w v :: 'a qpc \<Rightarrow> bool)"
    by (rule ext, rename_tac pc, case_tac pc) simp_all
qed

lemma newest_bumped:
  "newest (w\<lparr>wk_heads := h\<rparr>) = (newest w)(Head := length h - 1)"
  "newest (w\<lparr>wk_tails := h\<rparr>) = (newest w)(Tail := length h - 1)"
proof -
  show "newest (w\<lparr>wk_heads := h\<rparr>) = (newest w)(Head := length h - 1)"
    by (rule ext, rename_tac l, case_tac l) simp_all
  show "newest (w\<lparr>wk_tails := h\<rparr>) = (newest w)(Tail := length h - 1)"
    by (rule ext, rename_tac l, case_tac l) simp_all
qed

lemma holds_fields:
  "holds_cell w c (v(Head := i)) = holds_cell w c v" "holds_cell w c (v(Tail := i)) = holds_cell w c v"
  by (simp_all add: holds_cell_def full_view_def)

lemma newest_heads:
  "entries_ok q w \<Longrightarrow> newest w Head = length (cq_hist q)" "entries_ok q w \<Longrightarrow> newest w Tail = unat (cq_tail q)"
  by (simp_all add: entries_ok_def)

lemma views_grow:
  assumes "views_ok w" "newest w \<le> newest w'" "wk_seqs w' = wk_seqs w" "wk_view w' t \<le> newest w'"
    "\<And>u. u \<noteq> t \<Longrightarrow> wk_view w' u = wk_view w u"
  shows "views_ok w'"
  using assms unfolding views_ok_def by (metis order_trans)

lemma wk_claim:
  assumes inv: "wk_inv k q w" and pc: "cq_pc q t = E_cas x pos" and cas: "last (wk_heads w) = pos"
    and bound: "length (cq_hist q) < 2 ^ 62"
  shows "wk_inv k (cq_goto t (E_write x pos) (q\<lparr>cq_head := pos + 1, cq_hist := cq_hist q @ [x]\<rparr>))
    (bump_head t (pos + 1) w)"
proof -
  note i = wk_invD [OF inv]
  let ?H = "length (cq_hist q)" and ?c = "unat pos mod 2 ^ k"
  let ?q = "cq_goto t (E_write x pos) (q\<lparr>cq_head := pos + 1, cq_hist := cq_hist q @ [x]\<rparr>)"
  let ?v = "(wk_view w t)(Head := Suc ?H)"
  have heads: "wk_heads w = map of_nat [0..<Suc ?H]" using i(2) by (simp add: entries_ok_def)
  have H: "unat (cq_head q) = ?H" using cq_invD(1) [OF i(1)] by (simp add: cq_shape_def)
  have "pos = of_nat ?H" using cas by (simp add: heads)
  also have "\<dots> = cq_head q" by (simp add: H [symmetric])
  finally have pos: "pos = cq_head q" "unat pos = ?H" using H by simp_all
  note facts = claim_facts [OF i(1) pc [unfolded pos(1)]]
  have next_pos: "pos + 1 = of_nat (Suc ?H)" unfolding \<open>pos = of_nat ?H\<close> by simp
  have bump: "bump_head t (pos + 1) w = with_view t ?v (w\<lparr>wk_heads := wk_heads w @ [pos + 1]\<rparr>)"
    by (simp add: bump_head_def see_def with_view_def heads)
  have c: "?c < 2 ^ k" by simp
  have "holds_cell w ?c (wk_view w t)"
  proof (rule hold_free_cell [OF inv _ c])
    show "m mod 2 ^ k \<noteq> ?c" if "holder_of (cq_pc q u) m" for u m
      using cell_not_held [OF i(1) _ that, of ?H] facts(2) pos(2) by simp
    have "unat (cq_seq q ?c) = unat pos" using facts(2) pos(2) by (simp add: ticket_seq_def)
    then show "acquired w ?c (unat (cq_seq q ?c)) (wk_view w t)" using i(5) [of t] pc by simp
  qed (rule view_below_newest [OF inv])
  then have "pc_knows k w ?v (E_write x pos)" by (simp add: holds_fields)
  then have "pc_knows k (bump_head t (pos + 1) w) (wk_view (bump_head t (pos + 1) w) u) (cq_pc ?q u)" for u
    using i(5) [of u] by (simp add: bump)
  moreover have "cq_inv k ?q" using inv_claim [OF i(1) pc [unfolded pos(1)] bound] pos(1) by simp
  moreover have "entries_ok ?q (bump_head t (pos + 1) w)"
    using i(2) unfolding bump by (simp add: entries_ok_def next_pos)
  moreover have "views_ok (bump_head t (pos + 1) w)"
    by (rule views_grow [OF i(3), of _ t])
      (use view_below_newest [OF inv, of t] newest_heads(1) [OF i(2)] heads in
        \<open>auto simp: bump newest_bumped le_fun_def simp del: upt_Suc\<close>)
  moreover have "cells_known k ?q (bump_head t (pos + 1) w)"
    using i(4) pc unfolding cells_known_def bump
    by (simp del: upt_Suc) (metis holder_simps(3))
  ultimately show ?thesis by (simp add: wk_inv_def)
qed

lemma wk_take:
  assumes inv: "wk_inv k q w" and pc: "cq_pc q t = D_cas pos" and cas: "last (wk_tails w) = pos"
  shows "wk_inv k (cq_goto t (D_take pos) (q\<lparr>cq_tail := pos + 1\<rparr>)) (bump_tail t (pos + 1) w)"
proof -
  note i = wk_invD [OF inv]
  let ?T = "unat (cq_tail q)" and ?c = "unat pos mod 2 ^ k"
  let ?q = "cq_goto t (D_take pos) (q\<lparr>cq_tail := pos + 1\<rparr>)"
  let ?v = "(wk_view w t)(Tail := Suc ?T)"
  have tails: "wk_tails w = map of_nat [0..<Suc ?T]" using i(2) by (simp add: entries_ok_def)
  have pos: "pos = cq_tail q" using cas by (simp add: tails)
  note facts = take_facts [OF i(1) pc [unfolded pos]]
  have T': "unat (pos + 1) = Suc ?T" using cq_next [of pos] hist_small [OF i(1)] by (simp add: pos)
  have next_pos: "pos + 1 = of_nat (Suc ?T)" by (simp add: pos)
  have bump: "bump_tail t (pos + 1) w = with_view t ?v (w\<lparr>wk_tails := wk_tails w @ [pos + 1]\<rparr>)"
    by (simp add: bump_tail_def see_def with_view_def tails)
  have c: "?c < 2 ^ k" by simp
  have "holds_cell w ?c (wk_view w t)"
  proof (rule hold_free_cell [OF inv _ c])
    show "m mod 2 ^ k \<noteq> ?c" if "holder_of (cq_pc q u) m" for u m
      using cell_not_held [OF i(1) _ that, of ?T] facts(2) pos by simp
    have "unat (cq_seq q ?c) = unat pos + 1" using facts(2) pos by (simp add: ticket_seq_def)
    then show "acquired w ?c (unat (cq_seq q ?c)) (wk_view w t)" using i(5) [of t] pc by simp
  qed (rule view_below_newest [OF inv])
  then have "pc_knows k w ?v (D_take pos :: 'a qpc)" by (simp add: holds_fields)
  then have "pc_knows k (bump_tail t (pos + 1) w) (wk_view (bump_tail t (pos + 1) w) u) (cq_pc ?q u)" for u
    using i(5) [of u] by (simp add: bump)
  moreover have "cq_inv k ?q" using inv_take [OF i(1) pc [unfolded pos]] pos by simp
  moreover have "entries_ok ?q (bump_tail t (pos + 1) w)"
  proof -
    have "map of_nat [0..<Suc (unat (pos + 1))] = wk_tails w @ [pos + 1]"
      unfolding T' by (simp add: tails next_pos)
    then show ?thesis using i(2) unfolding bump by (simp add: entries_ok_def del: upt_Suc)
  qed
  moreover have "views_ok (bump_tail t (pos + 1) w)"
    by (rule views_grow [OF i(3), of _ t])
      (use view_below_newest [OF inv, of t] newest_heads(2) [OF i(2)] tails in
        \<open>auto simp: bump newest_bumped le_fun_def simp del: upt_Suc\<close>)
  moreover have "cells_known k ?q (bump_tail t (pos + 1) w)"
    using i(4) pc unfolding cells_known_def bump
    by (simp del: upt_Suc) (metis holder_simps(6))
  ultimately show ?thesis by (simp add: wk_inv_def)
qed

section \<open>Using and giving up a cell\<close>

lemma holder_unique: "holder_of pc m \<Longrightarrow> holder_of pc n \<Longrightarrow> m = n"
  by (cases pc) auto

lemma knows_held:
  "holder_of pc p \<Longrightarrow> pc_knows k w v pc \<longleftrightarrow> holds_cell w (p mod 2 ^ k) v"
  by (cases pc) auto

lemma knows_transfer:
  assumes "pc_knows k w v pc" "\<And>c n. acquired w c n v \<Longrightarrow> acquired w' c n v"
    "\<And>p. holder_of pc p \<Longrightarrow> holds_cell w (p mod 2 ^ k) v \<Longrightarrow> holds_cell w' (p mod 2 ^ k) v"
  shows "pc_knows k w' v pc"
  using assms by (cases pc) simp_all

lemma wk_accessed:
  assumes inv: "wk_inv k q w" and old: "holder_of (cq_pc q t) p" and new: "\<And>m. holder_of pc m \<longleftrightarrow> m = p"
    and q': "cq_inv k q'" "cq_hist q' = cq_hist q" "cq_tail q' = cq_tail q" "cq_seq q' = cq_seq q"
      "\<And>u. cq_pc q' u = (if u = t then pc else cq_pc q u)"
    and w': "wk_heads w' = wk_heads w" "wk_tails w' = wk_tails w" "wk_seqs w' = wk_seqs w"
      "\<And>d. d \<noteq> p mod 2 ^ k \<Longrightarrow> full_view w' d = full_view w d" "newest w \<le> newest w'"
      "\<And>u. u \<noteq> t \<Longrightarrow> wk_view w' u = wk_view w u" "wk_view w' t \<le> newest w'"
      "holds_cell w' (p mod 2 ^ k) (wk_view w' t)"
  shows "wk_inv k q' w'"
proof -
  note i = wk_invD [OF inv]
  have holds: "holds_cell w' d = holds_cell w d" if "d \<noteq> p mod 2 ^ k" for d
    using w'(4) [OF that] w'(3) by (simp add: holds_cell_def fun_eq_iff)
  have acq: "acquired w' = acquired w" by (simp add: acquired_def w'(3) fun_eq_iff)
  have "pc_knows k w' (wk_view w' u) (cq_pc q' u)" for u
  proof (cases "u = t")
    case True
    then show ?thesis using w'(8) knows_held [of pc p k w' "wk_view w' t"] new by (simp add: q'(5))
  next
    case False
    have "m mod 2 ^ k \<noteq> p mod 2 ^ k" if "holder_of (cq_pc q u) m" for m
      using holders_exclude [OF i(1) False that old] .
    with holds have "pc_knows k w' (wk_view w u) (cq_pc q u)"
      by (intro knows_transfer [OF i(5) [of u]]) (simp_all add: acq)
    with False show ?thesis by (simp add: q'(5) w'(6))
  qed
  moreover have "entries_ok q' w'" using i(2) by (simp add: entries_ok_def q'(2-4) w'(1-3))
  moreover have "views_ok w'" using views_grow [OF i(3) w'(5) w'(3) w'(7) w'(6)] .
  moreover have "cells_known k q' w'"
  proof -
    have "(\<exists>u m. holder_of (cq_pc q' u) m \<and> m mod 2 ^ k = d) \<or> full_view w' d (snd (last (wk_seqs w' d)))"
      if "d < 2 ^ k" for d
    proof (cases "d = p mod 2 ^ k")
      case True
      then show ?thesis using new q'(5) [of t] by auto
    next
      case False
      from i(4) that consider u m where "holder_of (cq_pc q u) m" "m mod 2 ^ k = d"
        | "full_view w d (snd (last (wk_seqs w d)))" unfolding cells_known_def by blast
      then show ?thesis
      proof cases
        case (1 u m)
        have "u \<noteq> t" using 1 False holder_unique [OF old] by auto
        with 1 q'(5) [of u] show ?thesis by metis
      next
        case 2
        with w'(3) w'(4) [OF False] show ?thesis by simp
      qed
    qed
    then show ?thesis by (simp add: cells_known_def)
  qed
  ultimately show ?thesis using q'(1) by (simp add: wk_inv_def)
qed

lemma counted [simp]:
  "wk_heads (note_write t c w) = wk_heads w" "wk_tails (note_write t c w) = wk_tails w"
  "wk_seqs (note_write t c w) = wk_seqs w"
  "wk_view (note_write t c w) u = (if u = t then (wk_view w t)(Wrote c := wk_writes w c + 1) else wk_view w u)"
  "wk_heads (note_read t c w) = wk_heads w" "wk_tails (note_read t c w) = wk_tails w"
  "wk_seqs (note_read t c w) = wk_seqs w"
  "wk_view (note_read t c w) u = (if u = t then (wk_view w t)(Read c := wk_reads w c + 1) else wk_view w u)"
  "wk_writes (note_write t c w) = (wk_writes w)(c := wk_writes w c + 1)"
  "wk_reads (note_write t c w) = wk_reads w" "wk_writes (note_read t c w) = wk_writes w"
  "wk_reads (note_read t c w) = (wk_reads w)(c := wk_reads w c + 1)"
  "newest (note_write t c w) = (newest w)(Wrote c := wk_writes w c + 1)"
  "newest (note_read t c w) = (newest w)(Read c := wk_reads w c + 1)"
proof -
  show "newest (note_write t c w) = (newest w)(Wrote c := wk_writes w c + 1)"
    by (rule ext, rename_tac l, case_tac l) (simp_all add: note_write_def see_def)
  show "newest (note_read t c w) = (newest w)(Read c := wk_reads w c + 1)"
    by (rule ext, rename_tac l, case_tac l) (simp_all add: note_read_def see_def)
qed (simp_all add: note_write_def note_read_def see_def)

lemma wk_wrote:
  assumes inv: "wk_inv k q w" and pc: "cq_pc q t = E_write x pos"
  shows "wk_inv k (cq_goto t (E_publish pos) (q\<lparr>cq_data := (cq_data q)(cq_index q pos := x)\<rparr>))
    (note_write t (cq_index q pos) w)"
proof -
  note i = wk_invD [OF inv]
  have c: "cq_index q pos = unat pos mod 2 ^ k" using cq_index_mod [OF cq_invD(1) [OF i(1)]] .
  have held: "holds_cell w (unat pos mod 2 ^ k) (wk_view w t)" using i(5) [of t] pc by simp
  show ?thesis
  proof (rule wk_accessed [OF inv, of t "unat pos" "E_publish pos"])
    show "cq_inv k (cq_goto t (E_publish pos) (q\<lparr>cq_data := (cq_data q)(cq_index q pos := x)\<rparr>))"
      by (rule inv_write [OF i(1) pc])
  qed (use held view_below_newest [OF inv, of t] pc in
      \<open>auto simp: c full_view_def holds_cell_def le_fun_def fun_eq_iff\<close>)
qed

lemma wk_took:
  assumes inv: "wk_inv k q w" and pc: "cq_pc q t = D_take pos"
  shows "wk_inv k (cq_goto t (D_release pos (cq_data q (cq_index q pos)))
      (q\<lparr>cq_got := cq_got q @ [(unat pos, cq_data q (cq_index q pos))]\<rparr>)) (note_read t (cq_index q pos) w)"
proof -
  note i = wk_invD [OF inv]
  have c: "cq_index q pos = unat pos mod 2 ^ k" using cq_index_mod [OF cq_invD(1) [OF i(1)]] .
  have held: "holds_cell w (unat pos mod 2 ^ k) (wk_view w t)" using i(5) [of t] pc by simp
  show ?thesis
  proof (rule wk_accessed [OF inv, of t "unat pos" "D_release pos (cq_data q (cq_index q pos))"])
    show "cq_inv k (cq_goto t (D_release pos (cq_data q (cq_index q pos)))
      (q\<lparr>cq_got := cq_got q @ [(unat pos, cq_data q (cq_index q pos))]\<rparr>))"
      by (rule inv_read [OF i(1) pc])
  qed (use held view_below_newest [OF inv, of t] pc in
      \<open>auto simp: c full_view_def holds_cell_def le_fun_def fun_eq_iff\<close>)
qed

text \<open>A release store publishes what its thread knows of the cell, so that the next holder knows it.\<close>

lemma stored [simp]:
  "wk_heads (store_release t c v w) = wk_heads w" "wk_tails (store_release t c v w) = wk_tails w"
  "wk_writes (store_release t c v w) = wk_writes w" "wk_reads (store_release t c v w) = wk_reads w"
  "full_view (store_release t c v w) = full_view w"
  "wk_view (store_release t c v w) u =
     (if u = t then (wk_view w t)(Seq c := length (wk_seqs w c)) else wk_view w u)"
  "wk_seqs (store_release t c v w) d =
     (if d = c then wk_seqs w c @ [(v, (wk_view w t)(Seq c := length (wk_seqs w c)))] else wk_seqs w d)"
  "newest (store_release t c v w) = (newest w)(Seq c := length (wk_seqs w c))"
proof -
  show "newest (store_release t c v w) = (newest w)(Seq c := length (wk_seqs w c))"
    by (rule ext, rename_tac l, case_tac l) (simp_all add: store_release_def see_def Let_def)
qed (simp_all add: store_release_def see_def full_view_def fun_eq_iff Let_def)

lemma stored_acquired: "acquired w d n u \<Longrightarrow> acquired (store_release t c v w) d n u"
  unfolding acquired_def by (auto simp: nth_append)

lemma wk_stored:
  assumes inv: "wk_inv k q w" and old: "holder_of (cq_pc q t) p" and c: "c = p mod 2 ^ k"
    and q': "cq_inv k q'" "cq_hist q' = cq_hist q" "cq_tail q' = cq_tail q" "cq_seq q' = (cq_seq q)(c := v)"
      "\<And>u. cq_pc q' u = (if u = t then Q_idle else cq_pc q u)"
    and v: "unat (cq_seq q c) < unat v"
  shows "wk_inv k q' (store_release t c v w)"
proof -
  note i = wk_invD [OF inv]
  let ?w = "store_release t c v w" and ?len = "length (wk_seqs w c)"
  let ?v = "(wk_view w t)(Seq c := ?len)"
  have e: "wk_seqs w d \<noteq> []" "increasing (wk_seqs w d)" "fst (last (wk_seqs w d)) = cq_seq q d" for d
    using i(2) by (simp_all add: entries_ok_def)
  have held: "holds_cell w c (wk_view w t)" using i(5) [of t] knows_held [OF old] by (simp add: c)
  have less: "unat (fst m) < unat v" if "m \<in> set (wk_seqs w c)" for m
  proof -
    from that obtain j where "j < ?len" "m = wk_seqs w c ! j" by (auto simp: in_set_conv_nth)
    with increasing_last(1) [OF e(2) [of c]] e(3) [of c] v show ?thesis by fastforce
  qed
  have "increasing (wk_seqs ?w d)" for d
    using e(2) less by (cases "d = c") (simp_all add: increasing_def sorted_wrt_append)
  then have "entries_ok q' ?w" using i(2) e(1) by (simp add: entries_ok_def q'(2-4))
  moreover have "pc_knows k ?w (wk_view ?w u) (cq_pc q' u)" for u
  proof (cases "u = t")
    case True
    then show ?thesis by (simp add: q'(5))
  next
    case False
    have "m mod 2 ^ k \<noteq> c" if "holder_of (cq_pc q u) m" for m
      using holders_exclude [OF i(1) False that old] c by simp
    then have "pc_knows k ?w (wk_view w u) (cq_pc q u)"
      by (intro knows_transfer [OF i(5) [of u]]) (auto simp: stored_acquired holds_cell_def)
    with False show ?thesis by (simp add: q'(5))
  qed
  moreover have "views_ok ?w"
  proof -
    have grow: "newest w \<le> newest ?w" by (auto simp: le_fun_def)
    have "?v \<le> newest ?w" using view_below_newest [OF inv, of t] by (auto simp: le_fun_def)
    moreover have "wk_view w u \<le> newest ?w" for u using order_trans [OF view_below_newest [OF inv] grow] .
    moreover have "snd m \<le> newest ?w" if "m \<in> set (wk_seqs w d)" for m d
      using i(3) that order_trans [OF _ grow] unfolding views_ok_def by blast
    ultimately show ?thesis by (auto simp: views_ok_def simp del: stored(8))
  qed
  moreover have "cells_known k q' ?w"
  proof -
    have "(\<exists>u m. holder_of (cq_pc q' u) m \<and> m mod 2 ^ k = d) \<or> full_view ?w d (snd (last (wk_seqs ?w d)))"
      if "d < 2 ^ k" for d
    proof (cases "d = c")
      case True
      then show ?thesis using held by (simp add: holds_cell_def full_view_def)
    next
      case False
      from i(4) that consider u m where "holder_of (cq_pc q u) m" "m mod 2 ^ k = d"
        | "full_view w d (snd (last (wk_seqs w d)))" unfolding cells_known_def by blast
      then show ?thesis
      proof cases
        case (1 u m)
        have "u \<noteq> t" using 1 False holder_unique [OF old] c by auto
        with 1 q'(5) [of u] show ?thesis by metis
      next
        case 2
        with False show ?thesis by simp
      qed
    qed
    then show ?thesis by (simp add: cells_known_def)
  qed
  ultimately show ?thesis using q'(1) by (simp add: wk_inv_def)
qed

section \<open>Every reachable state\<close>

lemma view_of_step_self: "wk_inv k q w \<Longrightarrow> wk_inv k q (learn t (wk_view w u) w)"
proof -
  assume inv: "wk_inv k q w"
  let ?v = "sup (wk_view w t) (wk_view w u)"
  have v: "wk_view w t \<le> ?v" "?v \<le> newest w" using view_below_newest [OF inv] by simp_all
  have "pc_knows k (learn t (wk_view w u) w) (wk_view (learn t (wk_view w u) w) v) (cq_pc q v)" for v
    using knows_mono [OF wk_invD(5) [OF inv, of t] v] wk_invD(5) [OF inv, of v] by (simp add: learn_view)
  with inv v(2) show ?thesis by (simp add: wk_inv_def learn_view entries_ok_def views_ok_def cells_known_def)
qed

lemma wk_loads:
  assumes inv: "wk_inv k q w" and old: "\<And>p. \<not> holder_of (cq_pc q t) p"
  shows "load_relaxed t Head (wk_heads w) w pos w' \<Longrightarrow> wk_inv k (cq_goto t (E_load x pos) q) w'"
    and "load_relaxed t Tail (wk_tails w) w pos w' \<Longrightarrow> wk_inv k (cq_goto t (D_load pos) q) w'"
    and "load_acquire t c w n w' \<Longrightarrow> pc \<in> {Q_idle, E_reload x, D_reload} \<Longrightarrow> wk_inv k (cq_goto t pc q) w'"
proof -
  show "load_relaxed t Head (wk_heads w) w pos w' \<Longrightarrow> wk_inv k (cq_goto t (E_load x pos) q) w'"
    by (erule load_head [OF inv]) (simp add: wk_goto [OF inv old])
  show "load_relaxed t Tail (wk_tails w) w pos w' \<Longrightarrow> wk_inv k (cq_goto t (D_load pos) q) w'"
    by (erule load_tail [OF inv]) (simp add: wk_goto [OF inv old])
  show "load_acquire t c w n w' \<Longrightarrow> pc \<in> {Q_idle, E_reload x, D_reload} \<Longrightarrow> wk_inv k (cq_goto t pc q) w'"
    by (erule load_seq [OF inv]) (auto intro!: wk_goto [OF inv old])
qed

lemma wk_compared:
  assumes inv: "wk_inv k q w" and ld: "load_acquire t (cq_index q pos) w n w'"
  shows "cq_pc q t = E_load x pos \<Longrightarrow> seq_dif n pos = 0 \<Longrightarrow> wk_inv k (cq_goto t (E_cas x pos) q) w'"
    and "cq_pc q t = D_load pos \<Longrightarrow> seq_dif n (pos + 1) = 0 \<Longrightarrow> wk_inv k (cq_goto t (D_cas pos) q) w'"
proof -
  note i = wk_invD [OF inv]
  have c: "cq_index q pos = unat pos mod 2 ^ k" using cq_index_mod [OF cq_invD(1) [OF i(1)]] .
  from load_seq [OF inv ld] obtain v where v: "w' = with_view t v w" "wk_view w t \<le> v" "v \<le> newest w"
    "acquired w (unat pos mod 2 ^ k) (unat n) v" "unat n \<le> ticket_seq k q (unat pos)"
    unfolding c ticket_seq_def by blast
  show "wk_inv k (cq_goto t (E_cas x pos) q) w'" if pc: "cq_pc q t = E_load x pos" "seq_dif n pos = 0"
  proof -
    have "n = pos" by (rule seq_dif_zero [OF pc(2)])
    with v pc_okD [OF i(1) pc(1)] show ?thesis
      unfolding v(1) by (intro wk_goto [OF inv]) (simp_all add: pc(1))
  qed
  show "wk_inv k (cq_goto t (D_cas pos) q) w'" if pc: "cq_pc q t = D_load pos" "seq_dif n (pos + 1) = 0"
  proof -
    have le: "unat pos \<le> unat (cq_tail q)" using pc_okD [OF i(1) pc(1)] by simp
    with hist_small [OF i(1)] have "unat pos \<le> 2 ^ 62" by linarith
    then have "unat n = unat pos + 1" using seq_dif_zero [OF pc(2)] cq_next [of pos] by simp
    with v le show ?thesis unfolding v(1) by (intro wk_goto [OF inv]) (simp_all add: pc(1))
  qed
qed

lemma wk_gave_up:
  assumes inv: "wk_inv k q w"
  shows "cq_pc q t = E_publish pos \<Longrightarrow>
      wk_inv k (cq_goto t Q_idle (q\<lparr>cq_seq := (cq_seq q)(cq_index q pos := pos + 1)\<rparr>))
        (store_release t (cq_index q pos) (pos + 1) w)"
    and "cq_pc q t = D_release pos x \<Longrightarrow>
      wk_inv k (cq_goto t Q_idle (q\<lparr>cq_seq := (cq_seq q)(cq_index q pos := pos + cq_mask q + 1)\<rparr>))
        (store_release t (cq_index q pos) (pos + cq_mask q + 1) w)"
proof -
  note i = wk_invD [OF inv]
  note shape = cq_invD(1) [OF i(1)]
  have c: "cq_index q pos = unat pos mod 2 ^ k" using cq_index_mod [OF shape] .
  have seq: "unat (cq_seq q (cq_index q pos)) = ticket_seq k q (unat pos)" by (simp add: ticket_seq_def c)
  show "wk_inv k (cq_goto t Q_idle (q\<lparr>cq_seq := (cq_seq q)(cq_index q pos := pos + 1)\<rparr>))
        (store_release t (cq_index q pos) (pos + 1) w)" if pc: "cq_pc q t = E_publish pos"
  proof (rule wk_stored [OF inv _ c inv_publish [OF i(1) pc]])
    have "unat pos < length (cq_hist q)" "ticket_seq k q (unat pos) = unat pos" using pc_okD [OF i(1) pc] by simp_all
    then show "unat (cq_seq q (cq_index q pos)) < unat (pos + 1)"
      using cq_next [of pos] hist_small(1) [OF i(1)] seq by simp
  qed (simp_all add: pc)
  show "wk_inv k (cq_goto t Q_idle (q\<lparr>cq_seq := (cq_seq q)(cq_index q pos := pos + cq_mask q + 1)\<rparr>))
        (store_release t (cq_index q pos) (pos + cq_mask q + 1) w)" if pc: "cq_pc q t = D_release pos x"
  proof (rule wk_stored [OF inv _ c inv_release [OF i(1) pc]])
    have "unat pos < unat (cq_tail q)" "ticket_seq k q (unat pos) = unat pos + 1" using pc_okD [OF i(1) pc] by simp_all
    then show "unat (cq_seq q (cq_index q pos)) < unat (pos + cq_mask q + 1)"
      using cq_release_seq [OF shape, of pos] cq_size [OF shape] hist_small [OF i(1)] seq by simp
  qed (simp_all add: pc)
qed

lemma wk_inv_step:
  assumes step: "wk_step t l (q, w) (q', w')" and inv: "wk_inv k q w" and bound: "length (cq_hist q') \<le> 2 ^ 62"
  shows "wk_inv k q' w'"
  using step
proof cases
  case (wk_enq_cas x pos)
  then show ?thesis using wk_claim [OF inv] bound by simp
next
  case (wk_enq_equal x pos v)
  then show ?thesis using wk_compared(1) [OF inv] by simp
next
  case (wk_deq_equal pos v)
  then show ?thesis using wk_compared(2) [OF inv] by simp
next
  case (wk_enq_full x pos v)
  then show ?thesis using wk_loads(3) [OF inv] by simp
next
  case (wk_enq_behind x pos v)
  then show ?thesis using wk_loads(3) [OF inv] by simp
next
  case (wk_deq_empty pos v)
  then show ?thesis using wk_loads(3) [OF inv] by simp
next
  case (wk_deq_behind pos v)
  then show ?thesis using wk_loads(3) [OF inv] by simp
qed (auto intro: view_of_step_self [OF inv] wk_loads [OF inv] wk_take [OF inv] wk_wrote [OF inv] wk_took [OF inv]
    wk_gave_up [OF inv])

lemma wk_inv_init:
  assumes "1 \<le> k" "k \<le> 61"
  shows "wk_inv k (cq_init dflt k) (snd (weak_init dflt k))"
proof -
  let ?w = "snd (weak_init dflt k)"
  have "(0 :: nat) = newest ?w l" for l by (cases l) (simp_all add: weak_init_def)
  then have "views_ok ?w" by (simp add: views_ok_def weak_init_def le_fun_def)
  with inv_init [OF assms, of dflt] show ?thesis
    by (simp add: wk_inv_def entries_ok_def cells_known_def full_view_def increasing_def)
      (simp add: weak_init_def cq_init_def)
qed

lemma wk_hist_grows: "wk_step t l (q, w) (q', w') \<Longrightarrow> length (cq_hist q) \<le> length (cq_hist q')"
  by (erule wk_step.cases) auto

lemma wk_reach_inv:
  assumes "wk_reach k s" "1 \<le> k" "k \<le> 61" "length (cq_hist (fst s)) \<le> 2 ^ 62"
  shows "wk_inv k (fst s) (snd s)"
  using assms
proof (induction rule: wk_reach.induct)
  case (wk_reach_init dflt)
  then show ?case using wk_inv_init [of k dflt] by (simp add: weak_init_def)
next
  case (wk_reach_step s t l s')
  obtain q w q' w' where s: "s = (q, w)" "s' = (q', w')" by fastforce
  have "length (cq_hist q) \<le> length (cq_hist q')" using wk_hist_grows wk_reach_step.hyps(2) by (simp add: s)
  with wk_reach_step have "wk_inv k q w" by (simp add: s)
  with wk_inv_step [of t l q w q' w' k] wk_reach_step show ?case by (simp add: s)
qed

section \<open>An executable scheduler\<close>

text \<open>Thread \<open>t\<close> takes its step; a load reads entry \<open>i\<close>, if its view allows that, and else nothing happens.\<close>

definition read_entry :: "nat \<Rightarrow> mem_loc \<Rightarrow> nat \<Rightarrow> u64 list \<Rightarrow> 'a weak_queue \<Rightarrow> (u64 \<Rightarrow> 'a qpc) \<Rightarrow> 'a weak_queue" where
  "read_entry t l i entries s pc =
     (if wk_view (snd s) t l \<le> i \<and> i < length entries
      then (cq_goto t (pc (entries ! i)) (fst s), see t l i (snd s)) else s)"

definition read_seq :: "nat \<Rightarrow> nat \<Rightarrow> nat \<Rightarrow> 'a weak_queue \<Rightarrow> (u64 \<Rightarrow> 'a qpc) \<Rightarrow> 'a weak_queue" where
  "read_seq t c i s pc =
     (let es = wk_seqs (snd s) c
      in if wk_view (snd s) t (Seq c) \<le> i \<and> i < length es
         then (cq_goto t (pc (fst (es ! i))) (fst s), learn t (snd (es ! i)) (see t (Seq c) i (snd s))) else s)"

definition wk_exec :: "nat \<times> nat \<times> 'a option \<Rightarrow> 'a weak_queue \<Rightarrow> 'a weak_queue" where
  "wk_exec choice s =
     (case choice of (t, i, start) \<Rightarrow>
      (let q = fst s; w = snd s
       in case cq_pc q t of
            Q_idle \<Rightarrow> (case start of Some x \<Rightarrow> read_entry t Head i (wk_heads w) s (E_load x)
                       | None \<Rightarrow> read_entry t Tail i (wk_tails w) s D_load)
          | E_load x pos \<Rightarrow> read_seq t (cq_index q pos) i s
              (\<lambda>v. if seq_dif v pos = 0 then E_cas x pos else if seq_dif v pos < 0 then Q_idle else E_reload x)
          | E_reload x \<Rightarrow> read_entry t Head i (wk_heads w) s (E_load x)
          | E_cas x pos \<Rightarrow>
              if last (wk_heads w) = pos
              then (cq_goto t (E_write x pos) (q\<lparr>cq_head := pos + 1, cq_hist := cq_hist q @ [x]\<rparr>), bump_head t (pos + 1) w)
              else read_entry t Head i (wk_heads w) s (E_load x)
          | E_write x pos \<Rightarrow>
              (cq_goto t (E_publish pos) (q\<lparr>cq_data := (cq_data q)(cq_index q pos := x)\<rparr>), note_write t (cq_index q pos) w)
          | E_publish pos \<Rightarrow>
              (cq_goto t Q_idle (q\<lparr>cq_seq := (cq_seq q)(cq_index q pos := pos + 1)\<rparr>),
               store_release t (cq_index q pos) (pos + 1) w)
          | D_load pos \<Rightarrow> read_seq t (cq_index q pos) i s
              (\<lambda>v. if seq_dif v (pos + 1) = 0 then D_cas pos else if seq_dif v (pos + 1) < 0 then Q_idle else D_reload)
          | D_reload \<Rightarrow> read_entry t Tail i (wk_tails w) s D_load
          | D_cas pos \<Rightarrow>
              if last (wk_tails w) = pos
              then (cq_goto t (D_take pos) (q\<lparr>cq_tail := pos + 1\<rparr>), bump_tail t (pos + 1) w)
              else read_entry t Tail i (wk_tails w) s D_load
          | D_take pos \<Rightarrow>
              (cq_goto t (D_release pos (cq_data q (cq_index q pos)))
                (q\<lparr>cq_got := cq_got q @ [(unat pos, cq_data q (cq_index q pos))]\<rparr>), note_read t (cq_index q pos) w)
          | D_release pos x \<Rightarrow>
              (cq_goto t Q_idle (q\<lparr>cq_seq := (cq_seq q)(cq_index q pos := pos + cq_mask q + 1)\<rparr>),
               store_release t (cq_index q pos) (pos + cq_mask q + 1) w)))"

lemma read_entry_step:
  "(\<And>v w'. load_relaxed t l entries (snd s) v w' \<Longrightarrow> wk_step t lb s (cq_goto t (pc v) (fst s), w')) \<Longrightarrow>
    read_entry t l i entries s pc = s \<or> wk_step t lb s (read_entry t l i entries s pc)"
  by (auto simp: read_entry_def load_relaxed_def)

lemma read_seq_step:
  "(\<And>v w'. load_acquire t c (snd s) v w' \<Longrightarrow> \<exists>lb. wk_step t lb s (cq_goto t (pc v) (fst s), w')) \<Longrightarrow>
    read_seq t c i s pc = s \<or> (\<exists>lb. wk_step t lb s (read_seq t c i s pc))"
  by (auto simp: read_seq_def load_acquire_def Let_def)

lemma wk_exec_step: "wk_exec (t, i, start) s = s \<or> (\<exists>l. wk_step t l s (wk_exec (t, i, start) s))"
proof -
  obtain q w where s: "s = (q, w)" by (cases s)
  note entry = read_entry_step [where s = s, unfolded s fst_conv snd_conv]
  note acq = read_seq_step [where s = s, unfolded s fst_conv snd_conv]
  show ?thesis
  proof (cases "cq_pc q t")
    case Q_idle
    then show ?thesis
      using entry [of t Head "wk_heads w" Tau "E_load (the start)" i, OF wk_enq_start [OF Q_idle]]
        entry [of t Tail "wk_tails w" Tau D_load i, OF wk_deq_start [OF Q_idle]]
      by (cases start) (auto simp: wk_exec_def s)
  next
    case (E_load x pos)
    have "read_seq t (cq_index q pos) i (q, w) pc = (q, w) \<or>
        (\<exists>lb. wk_step t lb (q, w) (read_seq t (cq_index q pos) i (q, w) pc))"
      if "pc = (\<lambda>v. if seq_dif v pos = 0 then E_cas x pos else if seq_dif v pos < 0 then Q_idle else E_reload x)" for pc
    proof (rule acq)
      fix v w'
      assume ld: "load_acquire t (cq_index q pos) w v w'"
      show "\<exists>lb. wk_step t lb (q, w) (cq_goto t (pc v) q, w')"
        using wk_enq_equal [OF E_load ld] wk_enq_full [OF E_load ld] wk_enq_behind [OF E_load ld] unfolding that
        by (cases "seq_dif v (pos)" "0::int" rule: linorder_cases) auto
    qed
    with E_load show ?thesis by (simp add: wk_exec_def s)
  next
    case (D_load pos)
    have "read_seq t (cq_index q pos) i (q, w) pc = (q, w) \<or>
        (\<exists>lb. wk_step t lb (q, w) (read_seq t (cq_index q pos) i (q, w) pc))"
      if "pc = (\<lambda>v. if seq_dif v (pos + 1) = 0 then D_cas pos else if seq_dif v (pos + 1) < 0 then Q_idle else D_reload)" for pc
    proof (rule acq)
      fix v w'
      assume ld: "load_acquire t (cq_index q pos) w v w'"
      show "\<exists>lb. wk_step t lb (q, w) (cq_goto t (pc v) q, w')"
        using wk_deq_equal [OF D_load ld] wk_deq_empty [OF D_load ld] wk_deq_behind [OF D_load ld] unfolding that
        by (cases "seq_dif v (pos + 1)" "0::int" rule: linorder_cases) auto
    qed
    with D_load show ?thesis by (simp add: wk_exec_def s)
  next
    case (E_reload x)
    then show ?thesis
      using entry [of t Head "wk_heads w" Tau "E_load x" i, OF wk_enq_reload [OF E_reload]] by (auto simp: wk_exec_def s)
  next
    case D_reload
    then show ?thesis
      using entry [of t Tail "wk_tails w" Tau D_load i, OF wk_deq_reload [OF D_reload]] by (auto simp: wk_exec_def s)
  next
    case (E_cas x pos)
    then show ?thesis
      using entry [of t Head "wk_heads w" Tau "E_load x" i, OF wk_enq_cas_fail [OF E_cas]] wk_enq_cas [OF E_cas]
      by (auto simp: wk_exec_def s)
  next
    case (D_cas pos)
    then show ?thesis
      using entry [of t Tail "wk_tails w" Tau D_load i, OF wk_deq_cas_fail [OF D_cas]] wk_deq_cas [OF D_cas]
      by (auto simp: wk_exec_def s)
  qed (auto simp: wk_exec_def s intro: wk_enq_write wk_enq_publish wk_deq_take wk_deq_release)
qed

lemma wk_reach_exec: "wk_reach k s \<Longrightarrow> wk_reach k (fold wk_exec choices s)"
proof (induction choices arbitrary: s)
  case (Cons c choices)
  obtain t i start where c: "c = (t, i, start)" by (metis surj_pair)
  from wk_exec_step [of t i start s] Cons.prems have "wk_reach k (wk_exec c s)"
    unfolding c by (metis wk_reach_step)
  with Cons.IH show ?case by simp
qed simp

section \<open>Properties\<close>

text \<open>A load that returns the newest number finds what the sequentially consistent load finds.\<close>

lemma fresh_load:
  assumes "entries_ok q w" "load_acquire t c w n w'" "newest w (Seq c) \<le> wk_view w t (Seq c)"
  shows "n = cq_seq q c"
proof -
  from assms(2) obtain i where i: "wk_view w t (Seq c) \<le> i" "i < length (wk_seqs w c)" "n = fst (wk_seqs w c ! i)"
    by (auto simp: load_acquire_def)
  with assms(3) have "i = length (wk_seqs w c) - 1" by simp
  moreover have "wk_seqs w c \<noteq> []" "fst (last (wk_seqs w c)) = cq_seq q c"
    using assms(1) by (simp_all add: entries_ok_def)
  ultimately show ?thesis using i(3) by (simp add: last_conv_nth)
qed

text \<open>Thread 0 enqueues 5; thread 1 has not heard of it and reads the first number of the cell.\<close>

definition stale_run :: "(nat \<times> nat \<times> nat option) list" where
  "stale_run = [(0, 0, Some 5), (0, 0, None), (0, 0, None), (0, 0, None), (0, 0, None), (1, 0, None)]"

definition stale :: "nat weak_queue" where
  "stale = fold wk_exec stale_run (weak_init 0 1)"

lemma stale_reach: "wk_reach 1 stale" "wk_reach 1 (fold wk_exec [(1, 1, None), (1, 0, None)] stale)"
  unfolding stale_def by (intro wk_reach_exec wk_reach_init)+

lemmas wk_eval = wk_exec_def weak_init_def cq_init_def cq_goto_def cq_index_def read_entry_def read_seq_def see_def
  learn_def bump_head_def bump_tail_def note_write_def note_read_def store_release_def seq_dif_def Let_def

lemma stale_eval:
  "cq_pc (fst stale) 1 = D_load 0" "cq_hist (fst stale) = [5]" "cq_tail (fst stale) = 0" "cq_mask (fst stale) = 1"
  "cq_seq (fst stale) 0 = 1" "wk_view (snd stale) 1 (Seq 0) = 0" "length (wk_seqs (snd stale) 0) = 2"
  "fst (wk_seqs (snd stale) 0 ! 0) = 0"
  by (simp_all add: stale_def stale_run_def wk_eval)

lemma taken_eval:
  "cq_pc (fst (fold wk_exec [(1, 1, None), (1, 0, None)] stale)) 1 = D_take 0"
  "cq_hist (fst (fold wk_exec [(1, 1, None), (1, 0, None)] stale)) = [5]"
  "wk_writes (snd (fold wk_exec [(1, 1, None), (1, 0, None)] stale)) 0 = 1"
  by (simp_all add: stale_def stale_run_def wk_eval)

text \<open>
  C13. No data race under the memory orders the code names: whoever holds a cell, to write its \<^verbatim>\<open>data\<close> or to
  read it, has in its view every write and every read of that \<^verbatim>\<open>data\<close> before, whatever stale values the
  relaxed and acquire loads returned; no other thread holds the cell; and its release store comes last
  in the cell's modification order.
\<close>

theorem orders_race_free:
  assumes "wk_reach k (q, w)" "1 \<le> k" "k \<le> 61" "length (cq_hist q) \<le> 2 ^ 62" "holder_of (cq_pc q t) p"
  shows "wk_view w t (Wrote (p mod 2 ^ k)) = wk_writes w (p mod 2 ^ k) \<and>
    wk_view w t (Read (p mod 2 ^ k)) = wk_reads w (p mod 2 ^ k) \<and>
    wk_view w t (Seq (p mod 2 ^ k)) = newest w (Seq (p mod 2 ^ k)) \<and>
    (\<forall>u m. u \<noteq> t \<and> holder_of (cq_pc q u) m \<longrightarrow> m mod 2 ^ k \<noteq> p mod 2 ^ k)"
proof -
  have inv: "wk_inv k q w" using wk_reach_inv [OF assms(1-3)] assms(4) by simp
  have "holds_cell w (p mod 2 ^ k) (wk_view w t)"
    using wk_invD(5) [OF inv, of t] knows_held [OF assms(5)] by blast
  moreover have "m mod 2 ^ k \<noteq> p mod 2 ^ k" if "u \<noteq> t" "holder_of (cq_pc q u) m" for u m
    using holders_exclude [OF wk_invD(1) [OF inv] that(1,2) assms(5)] .
  ultimately show ?thesis unfolding holds_cell_def full_view_def newest.simps by blast
qed

theorem orders_race_free_witness:
  "let s = fold wk_exec [(1, 1, None), (1, 0, None)] stale
   in cq_pc (fst s) 1 = D_take 0 \<and> wk_view (snd s) 1 (Wrote 0) = 1"
proof -
  let ?s = "fold wk_exec [(1, 1, None), (1, 0, None)] stale"
  have reach: "wk_reach 1 (fst ?s, snd ?s)" using stale_reach(2) by (simp only: prod.collapse)
  have holds: "holder_of (cq_pc (fst ?s) 1) 0" unfolding taken_eval(1) by simp
  have small: "length (cq_hist (fst ?s)) \<le> 2 ^ 62" unfolding taken_eval(2) by simp
  from orders_race_free [OF reach _ _ small holds] have "wk_view (snd ?s) 1 (Wrote 0) = 1"
    using taken_eval(3) by simp
  with taken_eval(1) show ?thesis unfolding Let_def by blast
qed

text \<open>
  C11. Under those orders the queue still refines the ticket queue: elements are claimed, published, taken
  in order and released as there. Only a refusal or an empty result may be spurious, which changes
  nothing, and only when the thread has not yet seen the newest number of the cell it looks at.
\<close>

theorem orders_refine:
  assumes "wk_reach k (q, w)" "1 \<le> k" "k \<le> 61" "length (cq_hist q) \<le> 2 ^ 62" "wk_step t l (q, w) (q', w')"
  shows "tq_step (2 ^ k) (observed q l) (tq_abs k q) (tq_abs k q') \<or>
    (l = Refuse \<or> l = Nothing) \<and> tq_abs k q' = tq_abs k q \<and>
    (\<exists>x pos. (cq_pc q t = E_load x pos \<or> cq_pc q t = D_load pos) \<and>
       wk_view w t (Seq (cq_index q pos)) < newest w (Seq (cq_index q pos)))"
proof -
  have inv: "wk_inv k q w" using wk_reach_inv [OF assms(1-3)] assms(4) by simp
  note i = wk_invD [OF inv]
  have H: "unat (cq_head q) = length (cq_hist q)" using cq_invD(1) [OF i(1)] by (simp add: cq_shape_def)
  have head: "last (wk_heads w) = cq_head q" "last (wk_tails w) = cq_tail q"
    using i(2) by (simp_all add: entries_ok_def H [symmetric])
  note sim = cq_simulates [OF _ i(1)]
  from assms(5) show ?thesis
  proof cases
    case (wk_enq_cas x pos)
    then show ?thesis using sim [OF cq_step.enq_cas [of q t x pos]] head by simp
  next
    case (wk_deq_cas pos)
    then show ?thesis using sim [OF cq_step.deq_cas [of q t pos]] head by simp
  next
    case (wk_enq_write x pos)
    then show ?thesis using sim [OF cq_step.enq_write [of q t x pos]] by simp
  next
    case (wk_enq_publish pos)
    then show ?thesis using sim [OF cq_step.enq_publish [of q t pos]] by simp
  next
    case (wk_deq_take pos)
    then show ?thesis using sim [OF cq_step.deq_take [of q t pos]] by simp
  next
    case (wk_deq_release pos x)
    then show ?thesis using sim [OF cq_step.deq_release [of q t pos x]] by simp
  next
    case (wk_enq_full x pos v)
    then have same: "tq_abs k q' = tq_abs k q" by (simp add: abs_goto)
    show ?thesis
    proof (cases "newest w (Seq (cq_index q pos)) \<le> wk_view w t (Seq (cq_index q pos))")
      case True
      have "v = cq_seq q (cq_index q pos)" using fresh_load [OF i(2) wk_enq_full(4) True] .
      with wk_enq_full sim [OF cq_step.enq_full [of q t x pos]] show ?thesis by simp
    next
      case False
      with same wk_enq_full(1,3) show ?thesis by (auto simp: not_le simp del: newest.simps)
    qed
  next
    case (wk_deq_empty pos v)
    then have same: "tq_abs k q' = tq_abs k q" by (simp add: abs_goto)
    show ?thesis
    proof (cases "newest w (Seq (cq_index q pos)) \<le> wk_view w t (Seq (cq_index q pos))")
      case True
      have "v = cq_seq q (cq_index q pos)" using fresh_load [OF i(2) wk_deq_empty(4) True] .
      with wk_deq_empty sim [OF cq_step.deq_empty [of q t pos]] show ?thesis by simp
    next
      case False
      with same wk_deq_empty(1,3) show ?thesis by (auto simp: not_le simp del: newest.simps)
    qed
  qed (simp_all add: tq_internal abs_goto)
qed

theorem orders_refine_witness:
  "tq_items (tq_abs 1 (fst stale)) = [(5, True)] \<and>
   wk_step 1 Nothing stale (wk_exec (1, 0, None) stale) \<and>
   tq_abs 1 (fst (wk_exec (1, 0, None) stale)) = tq_abs 1 (fst stale)"
proof -
  obtain q w where s: "stale = (q, w)" by (cases stale)
  obtain q' w' where s': "wk_exec (1, 0, None) stale = (q', w')" by (cases "wk_exec (1, 0, None) stale")
  note ev = stale_eval [unfolded s fst_conv snd_conv]
  have idx: "cq_index q 0 = 0" by (simp add: cq_index_def)
  have items: "tq_items (tq_abs 1 q) = [(5, True)]" by (simp add: tq_abs_def ticket_seq_def ev upt_rec)
  have ld: "load_acquire 1 0 w 0 (learn 1 (snd (wk_seqs w 0 ! 0)) (see 1 (Seq 0) 0 w))"
    unfolding load_acquire_def using ev by (intro exI [of _ 0]) simp
  have "seq_dif 0 (0 + 1) < 0" by (simp add: seq_dif_def)
  with ld ev(1) idx have "wk_step 1 Nothing (q, w)
      (cq_goto 1 Q_idle q, learn 1 (snd (wk_seqs w 0 ! 0)) (see 1 (Seq 0) 0 w))"
    by (intro wk_deq_empty [of q 1 0 w 0]) simp_all
  moreover have "(q', w') = (cq_goto 1 Q_idle q, learn 1 (snd (wk_seqs w 0 ! 0)) (see 1 (Seq 0) 0 w))"
    unfolding s' [symmetric] s using ev idx by (simp add: wk_exec_def read_seq_def seq_dif_def Let_def)
  ultimately have step: "wk_step 1 Nothing (q, w) (q', w')" by simp
  have "\<not> tq_step (2 ^ 1) T_nothing (tq_abs 1 q) r" for r using items by (auto elim: tq_step.cases)
  with orders_refine [OF stale_reach(1) [unfolded s] _ _ _ step] ev(2) have "tq_abs 1 q' = tq_abs 1 q" by simp
  with items step show ?thesis unfolding s' unfolding s fst_conv by blast
qed

end
