(* ===== verification/Sink.thy ===== *)
theory Sink
  imports Logger
begin

text \<open>
  The sink interface (\<^verbatim>\<open>include/logspine/sink.hpp\<close>) and the loops with which both dispatchers call
  their sinks. A dispatcher holds a vector of shared pointers, so the same sink may occur twice and
  sinks may share state: sinks are names \<open>'s\<close> over one world \<open>'w\<close>, and a virtual call is a
  function of the world that says whether it threw. \<open>recording\<close> wraps a sink implementation to
  keep the trace of the calls made on it.
\<close>

section \<open>The interface\<close>

datatype sink_format = Human | Json_Lines

record sink_base =
  sink_formatter :: "(log_event \<Rightarrow> bytes) option"
  sink_filter :: "(log_event \<Rightarrow> bool) option"

definition set_formatter :: "(log_event \<Rightarrow> bytes) option \<Rightarrow> sink_base \<Rightarrow> sink_base" where
  "set_formatter f sk = sk\<lparr>sink_formatter := f\<rparr>"

definition set_filter :: "(log_event \<Rightarrow> bool) option \<Rightarrow> sink_base \<Rightarrow> sink_base" where
  "set_filter f sk = sk\<lparr>sink_filter := f\<rparr>"

definition should_log :: "sink_base \<Rightarrow> log_event \<Rightarrow> bool" where
  "should_log sk event = (case sink_filter sk of Some f \<Rightarrow> f event | None \<Rightarrow> True)"

text \<open>A sink without formatter and filter.\<close>

definition plain_base :: sink_base where
  "plain_base = \<lparr>sink_formatter = None, sink_filter = None\<rparr>"

record ('s, 'w) sinks_impl =
  sink_write :: "'s \<Rightarrow> log_event \<Rightarrow> 'w \<Rightarrow> bool \<times> 'w"
  sink_flush :: "'s \<Rightarrow> 'w \<Rightarrow> bool \<times> 'w"

text \<open>\<^verbatim>\<open>noop_sink\<close>.\<close>

definition noop_sink :: "('s, 'w) sinks_impl" where
  "noop_sink = \<lparr>sink_write = (\<lambda>s event w. (False, w)), sink_flush = (\<lambda>s w. (False, w))\<rparr>"

section \<open>Calling every sink\<close>

text \<open>The state is the counter of sink failures, which wraps, and the world of the sinks.\<close>

fun safe_write ::
  "('s, 'w) sinks_impl \<Rightarrow> 's list \<Rightarrow> log_event \<Rightarrow> u64 \<times> 'w \<Rightarrow> u64 \<times> 'w" where
  "safe_write impl [] event (fails, w) = (fails, w)"
| "safe_write impl (current_sink # sinks) event (fails, w) =
     (case sink_write impl current_sink event w of
        (threw, w') \<Rightarrow> safe_write impl sinks event (if threw then fails + 1 else fails, w'))"

fun safe_flush_sinks :: "('s, 'w) sinks_impl \<Rightarrow> 's list \<Rightarrow> u64 \<times> 'w \<Rightarrow> u64 \<times> 'w" where
  "safe_flush_sinks impl [] (fails, w) = (fails, w)"
| "safe_flush_sinks impl (current_sink # sinks) (fails, w) =
     (case sink_flush impl current_sink w of
        (threw, w') \<Rightarrow> safe_flush_sinks impl sinks (if threw then fails + 1 else fails, w'))"

section \<open>Recorded calls\<close>

datatype request = Write log_event | Flush

record 's sink_call =
  called_sink :: 's
  called_with :: request
  call_threw :: bool

definition recording :: "('s, 'w) sinks_impl \<Rightarrow> ('s, 's sink_call list \<times> 'w) sinks_impl" where
  "recording impl =
     \<lparr>sink_write = (\<lambda>s event (calls, w). case sink_write impl s event w of
        (threw, w') \<Rightarrow> (threw, calls @ [\<lparr>called_sink = s, called_with = Write event, call_threw = threw\<rparr>], w')),
      sink_flush = (\<lambda>s (calls, w). case sink_flush impl s w of
        (threw, w') \<Rightarrow> (threw, calls @ [\<lparr>called_sink = s, called_with = Flush, call_threw = threw\<rparr>], w'))\<rparr>"

definition the_call :: "'s sink_call \<Rightarrow> 's \<times> request" where
  "the_call c = (called_sink c, called_with c)"

definition count_failures :: "'s sink_call list \<Rightarrow> u64" where
  "count_failures calls = of_nat (length (filter call_threw calls))"

lemma count_failures_append [simp]:
  "count_failures (xs @ ys) = count_failures xs + count_failures ys"
  by (simp add: count_failures_def)

lemma count_failures_Nil [simp]: "count_failures [] = 0"
  by (simp add: count_failures_def)

lemma count_failures_Cons [simp]:
  "count_failures (c # cs) = (if call_threw c then 1 else 0) + count_failures cs"
  by (simp add: count_failures_def)

lemma the_call_simp [simp]: "the_call \<lparr>called_sink = s, called_with = r, call_threw = b\<rparr> = (s, r)"
  by (simp add: the_call_def)

lemma recording_simps [simp]:
  "sink_write (recording impl) s event (calls, w) = (case sink_write impl s event w of
     (threw, w') \<Rightarrow> (threw, calls @ [\<lparr>called_sink = s, called_with = Write event, call_threw = threw\<rparr>], w'))"
  "sink_flush (recording impl) s (calls, w) = (case sink_flush impl s w of
     (threw, w') \<Rightarrow> (threw, calls @ [\<lparr>called_sink = s, called_with = Flush, call_threw = threw\<rparr>], w'))"
  by (simp_all add: recording_def)

text \<open>
  One pass over the sinks calls each of them once, in order, whatever the earlier ones threw, counts
  the throws, and leaves the sinks as without the recording.
\<close>

lemma safe_write_recorded:
  "\<exists>calls. map the_call calls = map (\<lambda>s. (s, Write event)) sinks \<and>
    safe_write (recording impl) sinks event (fails, log, w) =
      (case safe_write impl sinks event (fails, w) of (fails', w') \<Rightarrow> (fails', log @ calls, w')) \<and>
    fst (safe_write impl sinks event (fails, w)) = fails + count_failures calls"
proof (induction sinks arbitrary: fails log w)
  case (Cons s sinks)
  obtain threw w' where sw: "sink_write impl s event w = (threw, w')" by force
  define c where "c = \<lparr>called_sink = s, called_with = Write event, call_threw = threw\<rparr>"
  from Cons.IH [of "if threw then fails + 1 else fails" "log @ [c]" w'] obtain calls where
    calls: "map the_call calls = map (\<lambda>s. (s, Write event)) sinks"
      "safe_write (recording impl) sinks event (if threw then fails + 1 else fails, log @ [c], w') =
        (case safe_write impl sinks event (if threw then fails + 1 else fails, w') of
           (fails', w'') \<Rightarrow> (fails', (log @ [c]) @ calls, w''))"
      "fst (safe_write impl sinks event (if threw then fails + 1 else fails, w')) =
        (if threw then fails + 1 else fails) + count_failures calls" by blast
  show ?case
    by (rule exI [of _ "c # calls"])
      (use calls sw in \<open>auto simp: c_def algebra_simps split: prod.splits\<close>)
qed simp

lemma safe_flush_recorded:
  "\<exists>calls. map the_call calls = map (\<lambda>s. (s, Flush)) sinks \<and>
    safe_flush_sinks (recording impl) sinks (fails, log, w) =
      (case safe_flush_sinks impl sinks (fails, w) of (fails', w') \<Rightarrow> (fails', log @ calls, w')) \<and>
    fst (safe_flush_sinks impl sinks (fails, w)) = fails + count_failures calls"
proof (induction sinks arbitrary: fails log w)
  case (Cons s sinks)
  obtain threw w' where sw: "sink_flush impl s w = (threw, w')" by force
  define c where "c = \<lparr>called_sink = s, called_with = Flush, call_threw = threw\<rparr>"
  from Cons.IH [of "if threw then fails + 1 else fails" "log @ [c]" w'] obtain calls where
    calls: "map the_call calls = map (\<lambda>s. (s, Flush)) sinks"
      "safe_flush_sinks (recording impl) sinks (if threw then fails + 1 else fails, log @ [c], w') =
        (case safe_flush_sinks impl sinks (if threw then fails + 1 else fails, w') of
           (fails', w'') \<Rightarrow> (fails', (log @ [c]) @ calls, w''))"
      "fst (safe_flush_sinks impl sinks (if threw then fails + 1 else fails, w')) =
        (if threw then fails + 1 else fails) + count_failures calls" by blast
  show ?case
    by (rule exI [of _ "c # calls"])
      (use calls sw in \<open>auto simp: c_def algebra_simps split: prod.splits\<close>)
qed simp

end
