(* ===== verification/Sync_Dispatcher.thy ===== *)
theory Sync_Dispatcher
  imports Sink
begin

text \<open>
  \<^verbatim>\<open>src/sync_dispatcher.cpp\<close>: every operation runs under one mutex, so the dispatches and flushes
  of all threads take effect one after the other, in the order the lock is taken. The locale
  \<open>delivering_dispatcher\<close> is what a logger relies on in a dispatcher; its client lemma, about any
  program of log calls, holds of the synchronous dispatcher by the interpretation.
\<close>

section \<open>The dispatcher\<close>

record 's sync_dispatcher =
  sd_sinks :: "'s list"
  sd_failures :: u64

definition new_sync_dispatcher :: "'s list \<Rightarrow> 's sync_dispatcher" where
  "new_sync_dispatcher sinks = \<lparr>sd_sinks = sinks, sd_failures = 0\<rparr>"

definition sync_dispatch ::
  "('s, 'w) sinks_impl \<Rightarrow> log_event \<Rightarrow> 's sync_dispatcher \<times> 'w \<Rightarrow> 's sync_dispatcher \<times> 'w" where
  "sync_dispatch impl event st =
     (case st of (sd, w) \<Rightarrow>
        (case safe_write impl (sd_sinks sd) event (sd_failures sd, w) of
           (fails, w') \<Rightarrow> (sd\<lparr>sd_failures := fails\<rparr>, w')))"

definition sync_flush ::
  "('s, 'w) sinks_impl \<Rightarrow> 's sync_dispatcher \<times> 'w \<Rightarrow> 's sync_dispatcher \<times> 'w" where
  "sync_flush impl st =
     (case st of (sd, w) \<Rightarrow>
        (case safe_flush_sinks impl (sd_sinks sd) (sd_failures sd, w) of
           (fails, w') \<Rightarrow> (sd\<lparr>sd_failures := fails\<rparr>, w')))"

definition sync_dropped_events :: "'s sync_dispatcher \<Rightarrow> u64" where
  "sync_dropped_events sd = 0"

definition sync_sink_failures :: "'s sync_dispatcher \<Rightarrow> u64" where
  "sync_sink_failures sd = sd_failures sd"

text \<open>The requests of all threads, in lock order.\<close>

fun sync_request ::
  "('s, 'w) sinks_impl \<Rightarrow> request \<Rightarrow> 's sync_dispatcher \<times> 'w \<Rightarrow> 's sync_dispatcher \<times> 'w" where
  "sync_request impl (Write event) st = sync_dispatch impl event st"
| "sync_request impl Flush st = sync_flush impl st"

lemma sync_request_recorded:
  obtains calls where
    "map the_call calls = map (\<lambda>s. (s, r)) (sd_sinks sd)"
    "sync_request (recording impl) r (sd, log, w) =
       (case sync_request impl r (sd, w) of (sd', w') \<Rightarrow> (sd', log @ calls, w'))"
    "sd_failures (fst (sync_request impl r (sd, w))) = sd_failures sd + count_failures calls"
    "sd_sinks (fst (sync_request impl r (sd, w))) = sd_sinks sd"
proof (cases r)
  case (Write event)
  obtain f w' where r: "safe_write impl (sd_sinks sd) event (sd_failures sd, w) = (f, w')" by force
  with safe_write_recorded [of event "sd_sinks sd" impl "sd_failures sd" log w] obtain calls where
    "map the_call calls = map (\<lambda>s. (s, r)) (sd_sinks sd)"
    "safe_write (recording impl) (sd_sinks sd) event (sd_failures sd, log, w) = (f, log @ calls, w')"
    "f = sd_failures sd + count_failures calls" using Write by auto
  then show thesis using Write r by (intro that [of calls]) (simp_all add: sync_dispatch_def)
next
  case Flush
  obtain f w' where r: "safe_flush_sinks impl (sd_sinks sd) (sd_failures sd, w) = (f, w')" by force
  with safe_flush_recorded [of "sd_sinks sd" impl "sd_failures sd" log w] obtain calls where
    "map the_call calls = map (\<lambda>s. (s, r)) (sd_sinks sd)"
    "safe_flush_sinks (recording impl) (sd_sinks sd) (sd_failures sd, log, w) = (f, log @ calls, w')"
    "f = sd_failures sd + count_failures calls" using Flush by auto
  then show thesis using Flush r by (intro that [of calls]) (simp_all add: sync_flush_def)
qed

section \<open>What a logger relies on\<close>

record log_call =
  lc_logger :: logger
  lc_caller :: caller
  lc_severity :: level
  lc_message :: bytes
  lc_fields :: "field list"
  lc_location :: source_location

definition run_log_calls :: "(log_event \<Rightarrow> 'd \<Rightarrow> 'd) \<Rightarrow> log_call list \<Rightarrow> 'd \<Rightarrow> 'd" where
  "run_log_calls disp calls =
     fold (\<lambda>c. logger_log_fields disp (lc_logger c) (lc_caller c) (lc_severity c)
                 (lc_message c) (lc_fields c) (lc_location c)) calls"

definition call_event :: "log_call \<Rightarrow> log_event" where
  "call_event c = build_event (lc_logger c) (lc_caller c) (lc_severity c) (lc_message c)
     (lc_fields c) (lc_location c)"

definition call_enabled :: "log_call \<Rightarrow> bool" where
  "call_enabled c = logger_enabled (lc_logger c) (lc_severity c)"

locale delivering_dispatcher =
  fixes disp :: "log_event \<Rightarrow> 'd \<Rightarrow> 'd"
    and delivered :: "'d \<Rightarrow> ('s \<times> log_event) list"
    and targets :: "'d \<Rightarrow> 's list"
  assumes delivers: "delivered (disp e d) = delivered d @ map (\<lambda>s. (s, e)) (targets d)"
    and targets_kept: "targets (disp e d) = targets d"
begin

lemma delivered_calls:
  "delivered (run_log_calls disp calls d) =
     delivered d @ concat (map (\<lambda>c. map (\<lambda>s. (s, call_event c)) (targets d)) (filter call_enabled calls))"
proof (induction calls arbitrary: d)
  case (Cons c calls)
  show ?case
    using Cons.IH [of "disp (call_event c) d"] Cons.IH [of d]
    by (simp add: run_log_calls_def logger_log_fields_def logger_dispatch_def call_enabled_def
        call_event_def delivers targets_kept)
qed (simp add: run_log_calls_def)

end

definition writes_of :: "'s sink_call list \<Rightarrow> ('s \<times> log_event) list" where
  "writes_of calls = concat (map (\<lambda>c. case called_with c of Write e \<Rightarrow> [(called_sink c, e)] | Flush \<Rightarrow> []) calls)"

lemma writes_of_append [simp]: "writes_of (xs @ ys) = writes_of xs @ writes_of ys"
  by (simp add: writes_of_def)

lemma writes_of_write:
  "map the_call calls = map (\<lambda>s. (s, Write e)) sinks \<Longrightarrow> writes_of calls = map (\<lambda>s. (s, e)) sinks"
proof (induction calls arbitrary: sinks)
  case (Cons c calls)
  then show ?case by (cases sinks) (auto simp: writes_of_def the_call_def)
qed (simp add: writes_of_def)

definition sync_delivered :: "'s sync_dispatcher \<times> 's sink_call list \<times> 'w \<Rightarrow> ('s \<times> log_event) list" where
  "sync_delivered st = writes_of (fst (snd st))"

definition sync_targets :: "'s sync_dispatcher \<times> 's sink_call list \<times> 'w \<Rightarrow> 's list" where
  "sync_targets st = sd_sinks (fst st)"

interpretation sync: delivering_dispatcher
  "sync_dispatch (recording impl)" sync_delivered sync_targets
proof
  fix e and d :: "'a sync_dispatcher \<times> 'a sink_call list \<times> 'b"
  obtain sd log w where d: "d = (sd, log, w)" by (cases d)
  obtain calls where c: "map the_call calls = map (\<lambda>s. (s, Write e)) (sd_sinks sd)"
    "sync_request (recording impl) (Write e) (sd, log, w) =
       (case sync_request impl (Write e) (sd, w) of (sd', w') \<Rightarrow> (sd', log @ calls, w'))"
    "sd_sinks (fst (sync_request impl (Write e) (sd, w))) = sd_sinks sd"
    by (rule sync_request_recorded)
  show "sync_delivered (sync_dispatch (recording impl) e d) =
      sync_delivered d @ map (\<lambda>s. (s, e)) (sync_targets d)"
    using c(2) writes_of_write [OF c(1)]
    by (auto simp: d sync_delivered_def sync_targets_def split: prod.splits)
  show "sync_targets (sync_dispatch (recording impl) e d) = sync_targets d"
    using c(2,3) by (auto simp: d sync_targets_def split: prod.splits)
qed

section \<open>Properties\<close>

text \<open>
  C15. Every sink gets every request of every thread, in one order for all sinks, each exactly once
  per occurrence in the sink list, whatever other sinks throw; the failure counter is the number of
  calls that threw, and no event is dropped.
\<close>

theorem sync_fan_out:
  "\<exists>calls sd' w'. fold (sync_request (recording impl)) reqs (new_sync_dispatcher sinks, [], w) = (sd', calls, w') \<and>
     map the_call calls = concat (map (\<lambda>r. map (\<lambda>s. (s, r)) sinks) reqs) \<and>
     sync_sink_failures sd' = count_failures calls \<and> sync_dropped_events sd' = 0 \<and>
     fold (sync_request impl) reqs (new_sync_dispatcher sinks, w) = (sd', w')"
proof -
  have "\<exists>calls sd' w'. fold (sync_request (recording impl)) reqs (sd, log, w) = (sd', log @ calls, w') \<and>
     map the_call calls = concat (map (\<lambda>r. map (\<lambda>s. (s, r)) (sd_sinks sd)) reqs) \<and>
     sd_failures sd' = sd_failures sd + count_failures calls \<and>
     fold (sync_request impl) reqs (sd, w) = (sd', w')" for sd log
  proof (induction reqs arbitrary: sd log w)
    case (Cons r reqs)
    obtain calls where c: "map the_call calls = map (\<lambda>s. (s, r)) (sd_sinks sd)"
      "sync_request (recording impl) r (sd, log, w) =
         (case sync_request impl r (sd, w) of (sd', w') \<Rightarrow> (sd', log @ calls, w'))"
      "sd_failures (fst (sync_request impl r (sd, w))) = sd_failures sd + count_failures calls"
      "sd_sinks (fst (sync_request impl r (sd, w))) = sd_sinks sd"
      by (rule sync_request_recorded)
    obtain sd1 w1 where 1: "sync_request impl r (sd, w) = (sd1, w1)" by force
    from Cons.IH [of sd1 "log @ calls" w1] obtain calls2 sd2 w2 where
      "fold (sync_request (recording impl)) reqs (sd1, log @ calls, w1) = (sd2, (log @ calls) @ calls2, w2)"
      "map the_call calls2 = concat (map (\<lambda>r. map (\<lambda>s. (s, r)) (sd_sinks sd1)) reqs)"
      "sd_failures sd2 = sd_failures sd1 + count_failures calls2"
      "fold (sync_request impl) reqs (sd1, w1) = (sd2, w2)"
      by blast
    with c 1 show ?case by (intro exI [of _ "calls @ calls2"]) (simp add: add.assoc)
  qed simp
  from this [of "new_sync_dispatcher sinks" "[]"] show ?thesis
    by (simp add: new_sync_dispatcher_def sync_sink_failures_def sync_dropped_events_def)
qed

text \<open>
  C14. From the log call to the sinks: with a synchronous dispatcher, the writes the sinks see are
  exactly the events built by the enabled calls, in call order, each written to every sink in
  turn; calls below their logger's level leave no trace.
\<close>

theorem sync_end_to_end:
  "sync_delivered (run_log_calls (sync_dispatch (recording impl)) calls (new_sync_dispatcher sinks, [], w)) =
     concat (map (\<lambda>c. map (\<lambda>s. (s, call_event c)) sinks) (filter call_enabled calls))"
  by (simp add: sync.delivered_calls) (simp add: sync_delivered_def sync_targets_def new_sync_dispatcher_def writes_of_def)

end
