(* ===== verification/Async_Dispatcher.thy ===== *)
theory Async_Dispatcher
  imports Sink Ticket_Queue
begin

text \<open>
  \<^verbatim>\<open>src/async_dispatcher.cpp\<close>: one worker thread and any number of calling threads around the queue
  of theory \<open>Ticket_Queue\<close>, one step per access to shared state, interleaved in any order. An
  enqueue claims a place and then publishes it, a dequeue takes the oldest published element and
  then releases its cell, as in \<open>tq_step\<close>; between the two halves the thread does nothing else.
  A critical section with one access is one step that needs the mutex free; the condition variables
  have timeouts, so a wait may end at any time. The fields \<open>g_\<dots>\<close> are history, read by no step.
\<close>

section \<open>Data\<close>

datatype overflow_policy = Block | Drop_newest | Drop_oldest

record async_options =
  queue_capacity :: u64
  overflow :: overflow_policy
  batch_size :: u64
  block_retry_timeout :: int

definition default_async_options :: async_options where
  "default_async_options =
     \<lparr>queue_capacity = 8192, overflow = Drop_newest, batch_size = 64, block_retry_timeout = 5000\<rparr>"

datatype queue_item = Log_event log_event | Flush_request u64

datatype worker_pc =
    W_check1
  | W_deq1
  | W_sleep
  | W_deq2
  | W_clear queue_item
  | W_check2
  | W_lock
  | W_wait
  | W_decide "queue_item option"
  | W_drain "queue_item list"
  | W_fill "queue_item list"
  | W_notify "queue_item list"
  | W_process "queue_item list"
  | W_complete u64 "queue_item list"
  | W_final
  | W_done

text \<open>\<open>K_retry e\<close>: the flush request was displaced by \<open>enqueue_event e\<close>, which goes on retrying.\<close>

datatype flush_cont = K_flush | K_retry log_event

datatype caller_pc =
    C_idle
  | E_stop0 log_event
  | E_try0 log_event
  | E_loop log_event
  | E_wake
  | E_wake_lock
  | E_stop1 log_event
  | E_policy log_event
  | E_dropped log_event queue_item
  | E_lock log_event
  | E_wait log_event
  | F_stop0 u64 flush_cont
  | F_finish u64 flush_cont
  | F_loop u64 flush_cont
  | F_wake u64 flush_cont
  | F_wake_lock u64 flush_cont
  | F_stop1 u64 flush_cont
  | F_lock u64 flush_cont
  | F_wait u64 flush_cont
  | Fl_wait u64
  | S_exchange
  | S_lock
  | S_complete
  | S_join

datatype thread = Worker | Caller nat
datatype queue_phase = Ready | Publishing | Releasing

text \<open>
  A queued item carries the thread that is still writing it, if any. \<open>g_claimed\<close>: every item ever
  enqueued, in ticket order. \<open>g_taken\<close>: the items dequeued, in that order, marked when it was the
  worker that took them. \<open>g_done\<close>: what the worker did with its items: processed, or lost.
  \<open>g_marks\<close>: for each flush, how many items were enqueued when it took its id.
\<close>

record 'w async_state =
  a_items :: "(queue_item \<times> thread option) list"
  a_phase :: "thread \<Rightarrow> queue_phase"
  a_mutex :: "thread option"
  a_stopping :: bool
  a_sleeping :: bool
  a_completed :: u64
  a_next_flush :: u64
  a_dropped :: u64
  a_failures :: u64
  a_world :: 'w
  a_worker :: worker_pc
  a_callers :: "nat \<Rightarrow> caller_pc"
  g_claimed :: "queue_item list"
  g_taken :: "(bool \<times> queue_item) list"
  g_done :: "(queue_item \<times> bool) list"
  g_trace :: "request list"
  g_rejected :: "log_event list"
  g_marks :: "nat list"

record ('s, 'w) async_config =
  cf_options :: async_options
  cf_impl :: "('s, 'w) sinks_impl"
  cf_sinks :: "'s list"

definition cf_capacity :: "('s, 'w) async_config \<Rightarrow> nat" where
  "cf_capacity c = unat (round_up_to_power_of_2 (queue_capacity (cf_options c)))"

definition cf_batch :: "('s, 'w) async_config \<Rightarrow> nat" where
  "cf_batch c = unat (batch_size (cf_options c))"

section \<open>Construction\<close>

definition async_init :: "'w \<Rightarrow> 'w async_state" where
  "async_init w =
     \<lparr>a_items = [], a_phase = (\<lambda>th. Ready), a_mutex = None, a_stopping = False, a_sleeping = False,
      a_completed = 0, a_next_flush = 0, a_dropped = 0, a_failures = 0, a_world = w,
      a_worker = W_check1, a_callers = (\<lambda>t. C_idle), g_claimed = [], g_taken = [], g_done = [],
      g_trace = [], g_rejected = [], g_marks = []\<rparr>"

text \<open>The constructor checks the options and builds the queue before it starts the worker.\<close>

definition new_async_dispatcher ::
  "('s, 'w) async_config \<Rightarrow> 'w \<Rightarrow> cpp_exception + 'w async_state" where
  "new_async_dispatcher c w =
     (if queue_capacity (cf_options c) = 0
      then Inl (Invalid_Argument ''async_dispatcher queue_capacity must be greater than zero'')
      else if batch_size (cf_options c) = 0
      then Inl (Invalid_Argument ''async_dispatcher batch_size must be greater than zero'')
      else case mpsc_new (Flush_request 0) (round_up_to_power_of_2 (queue_capacity (cf_options c))) of
             Inl e \<Rightarrow> Inl e
           | Inr q \<Rightarrow> Inr (async_init w))"

definition async_dropped_events :: "'w async_state \<Rightarrow> u64" where
  "async_dropped_events s = a_dropped s"

definition async_sink_failures :: "'w async_state \<Rightarrow> u64" where
  "async_sink_failures s = a_failures s"

section \<open>Queue operations\<close>

text \<open>\<open>can_claim\<close>, \<open>can_refuse\<close>, \<open>can_take\<close> and \<open>can_miss\<close> are the guards of \<open>tq_step\<close>.\<close>

definition can_claim :: "('s, 'w) async_config \<Rightarrow> 'w async_state \<Rightarrow> bool" where
  "can_claim c s \<longleftrightarrow> length (a_items s) < cf_capacity c"

definition can_refuse :: "('s, 'w) async_config \<Rightarrow> 'w async_state \<Rightarrow> bool" where
  "can_refuse c s \<longleftrightarrow> length (a_items s) = cf_capacity c \<or> (\<exists>th. a_phase s th = Releasing)"

definition can_take :: "queue_item \<Rightarrow> 'w async_state \<Rightarrow> bool" where
  "can_take x s \<longleftrightarrow> (case a_items s of [] \<Rightarrow> False | (y, w) # ys \<Rightarrow> y = x \<and> w = None)"

definition can_miss :: "'w async_state \<Rightarrow> bool" where
  "can_miss s \<longleftrightarrow> (case a_items s of [] \<Rightarrow> True | (y, w) # ys \<Rightarrow> w \<noteq> None)"

definition claim :: "thread \<Rightarrow> queue_item \<Rightarrow> 'w async_state \<Rightarrow> 'w async_state" where
  "claim th x s = s\<lparr>a_items := a_items s @ [(x, Some th)], a_phase := (a_phase s)(th := Publishing),
     g_claimed := g_claimed s @ [x]\<rparr>"

definition publish :: "thread \<Rightarrow> 'w async_state \<Rightarrow> 'w async_state" where
  "publish th s =
     s\<lparr>a_items := map (\<lambda>(x, w). (x, if w = Some th then None else w)) (a_items s),
       a_phase := (a_phase s)(th := Ready)\<rparr>"

definition take_item :: "thread \<Rightarrow> 'w async_state \<Rightarrow> 'w async_state" where
  "take_item th s = s\<lparr>a_items := tl (a_items s), a_phase := (a_phase s)(th := Releasing),
     g_taken := g_taken s @ [(th = Worker, fst (hd (a_items s)))]\<rparr>"

definition release :: "thread \<Rightarrow> 'w async_state \<Rightarrow> 'w async_state" where
  "release th s = s\<lparr>a_phase := (a_phase s)(th := Ready)\<rparr>"

inductive queue_step :: "'w async_state \<Rightarrow> 'w async_state \<Rightarrow> bool" where
  q_publish: "a_phase s th = Publishing \<Longrightarrow> queue_step s (publish th s)"
| q_release: "a_phase s th = Releasing \<Longrightarrow> queue_step s (release th s)"

section \<open>The worker\<close>

definition w_goto :: "worker_pc \<Rightarrow> 'w async_state \<Rightarrow> 'w async_state" where
  "w_goto pc s = s\<lparr>a_worker := pc\<rparr>"

definition mutex_free :: "'w async_state \<Rightarrow> bool" where
  "mutex_free s \<longleftrightarrow> a_mutex s = None"

text \<open>Only the worker calls the sinks, so a pass over them is one step.\<close>

definition write_event :: "('s, 'w) async_config \<Rightarrow> log_event \<Rightarrow> 'w async_state \<Rightarrow> 'w async_state" where
  "write_event c e s =
     (case safe_write (cf_impl c) (cf_sinks c) e (a_failures s, a_world s) of
        (fails, w) \<Rightarrow> s\<lparr>a_failures := fails, a_world := w, g_trace := g_trace s @ [Write e]\<rparr>)"

definition flush_sinks :: "('s, 'w) async_config \<Rightarrow> 'w async_state \<Rightarrow> 'w async_state" where
  "flush_sinks c s =
     (case safe_flush_sinks (cf_impl c) (cf_sinks c) (a_failures s, a_world s) of
        (fails, w) \<Rightarrow> s\<lparr>a_failures := fails, a_world := w, g_trace := g_trace s @ [Flush]\<rparr>)"

text \<open>The compare-and-exchange loops on the completed id raise it to the given one, never lower it.\<close>

definition complete_flush :: "u64 \<Rightarrow> 'w async_state \<Rightarrow> 'w async_state" where
  "complete_flush i s = s\<lparr>a_completed := (if a_completed s < i then i else a_completed s)\<rparr>"

definition settle :: "(queue_item \<times> bool) list \<Rightarrow> 'w async_state \<Rightarrow> 'w async_state" where
  "settle xs s = s\<lparr>g_done := g_done s @ xs\<rparr>"

definition held_item :: "queue_item option \<Rightarrow> (queue_item \<times> bool) list" where
  "held_item held = (case held of None \<Rightarrow> [] | Some x \<Rightarrow> [(x, False)])"

text \<open>
  \<open>worker_loop\<close>. The variable \<^verbatim>\<open>item\<close> is \<open>Some x\<close> once a dequeue has assigned it. When the worker
  finds \<open>stopping_\<close> set at the second test, the item it holds is overwritten by the next dequeue or
  goes out of scope: it is settled as lost.
\<close>

inductive worker_step :: "('s, 'w) async_config \<Rightarrow> 'w async_state \<Rightarrow> 'w async_state \<Rightarrow> bool" for c where
  w_check1_stop: "a_worker s = W_check1 \<Longrightarrow> a_stopping s \<Longrightarrow> worker_step c s (w_goto (W_decide None) s)"
| w_check1_go: "a_worker s = W_check1 \<Longrightarrow> \<not> a_stopping s \<Longrightarrow> worker_step c s (w_goto W_deq1 s)"
| w_deq1_take: "a_worker s = W_deq1 \<Longrightarrow> can_take x s \<Longrightarrow>
    worker_step c s (w_goto (W_decide (Some x)) (take_item Worker s))"
| w_deq1_miss: "a_worker s = W_deq1 \<Longrightarrow> can_miss s \<Longrightarrow> worker_step c s (w_goto W_sleep s)"
| w_sleep: "a_worker s = W_sleep \<Longrightarrow> worker_step c s (w_goto W_deq2 (s\<lparr>a_sleeping := True\<rparr>))"
| w_deq2_take: "a_worker s = W_deq2 \<Longrightarrow> can_take x s \<Longrightarrow>
    worker_step c s (w_goto (W_clear x) (take_item Worker s))"
| w_deq2_miss: "a_worker s = W_deq2 \<Longrightarrow> can_miss s \<Longrightarrow> worker_step c s (w_goto W_check2 s)"
| w_clear: "a_worker s = W_clear x \<Longrightarrow>
    worker_step c s (w_goto (W_decide (Some x)) (s\<lparr>a_sleeping := False\<rparr>))"
| w_check2_stop: "a_worker s = W_check2 \<Longrightarrow> a_stopping s \<Longrightarrow> worker_step c s (w_goto (W_decide None) s)"
| w_check2_go: "a_worker s = W_check2 \<Longrightarrow> \<not> a_stopping s \<Longrightarrow> worker_step c s (w_goto W_lock s)"
| w_lock_ready: "a_worker s = W_lock \<Longrightarrow> mutex_free s \<Longrightarrow> a_stopping s \<or> \<not> a_sleeping s \<Longrightarrow>
    worker_step c s (w_goto W_check1 s)"
| w_lock_wait: "a_worker s = W_lock \<Longrightarrow> mutex_free s \<Longrightarrow> \<not> a_stopping s \<Longrightarrow> a_sleeping s \<Longrightarrow>
    worker_step c s (w_goto W_wait s)"
| w_wake: "a_worker s = W_wait \<Longrightarrow> mutex_free s \<Longrightarrow> worker_step c s (w_goto W_check1 s)"
| w_decide_stop: "a_worker s = W_decide held \<Longrightarrow> a_stopping s \<Longrightarrow>
    worker_step c s (w_goto (W_drain []) (settle (held_item held) s))"
| w_decide_go: "a_worker s = W_decide (Some x) \<Longrightarrow> \<not> a_stopping s \<Longrightarrow>
    worker_step c s (w_goto (W_fill [x]) s)"
| w_drain_take: "a_worker s = W_drain batch \<Longrightarrow> can_take x s \<Longrightarrow>
    worker_step c s
      (w_goto (if cf_batch c \<le> length (batch @ [x]) then W_notify (batch @ [x]) else W_drain (batch @ [x]))
        (take_item Worker s))"
| w_drain_miss: "a_worker s = W_drain batch \<Longrightarrow> can_miss s \<Longrightarrow>
    worker_step c s (w_goto (if batch = [] then W_final else W_notify batch) s)"
| w_fill_full: "a_worker s = W_fill batch \<Longrightarrow> cf_batch c \<le> length batch \<Longrightarrow>
    worker_step c s (w_goto (W_notify batch) s)"
| w_fill_take: "a_worker s = W_fill batch \<Longrightarrow> length batch < cf_batch c \<Longrightarrow> can_take x s \<Longrightarrow>
    worker_step c s (w_goto (W_fill (batch @ [x])) (take_item Worker s))"
| w_fill_miss: "a_worker s = W_fill batch \<Longrightarrow> length batch < cf_batch c \<Longrightarrow> can_miss s \<Longrightarrow>
    worker_step c s (w_goto (W_notify batch) s)"
| w_notify: "a_worker s = W_notify batch \<Longrightarrow> mutex_free s \<Longrightarrow>
    worker_step c s (w_goto (W_process batch) s)"
| w_process_done: "a_worker s = W_process [] \<Longrightarrow> worker_step c s (w_goto W_check1 s)"
| w_process_event: "a_worker s = W_process (Log_event e # rest) \<Longrightarrow>
    worker_step c s
      (w_goto (W_process rest) (settle [(Log_event e, True)] (write_event c e s)))"
| w_process_flush: "a_worker s = W_process (Flush_request i # rest) \<Longrightarrow>
    worker_step c s
      (w_goto (W_complete i rest) (settle [(Flush_request i, True)] (flush_sinks c s)))"
| w_complete: "a_worker s = W_complete i rest \<Longrightarrow>
    worker_step c s (w_goto (W_process rest) (complete_flush i s))"
| w_final: "a_worker s = W_final \<Longrightarrow> worker_step c s (w_goto W_done (flush_sinks c s))"

section \<open>The callers\<close>

definition c_goto :: "nat \<Rightarrow> caller_pc \<Rightarrow> 'w async_state \<Rightarrow> 'w async_state" where
  "c_goto t pc s = s\<lparr>a_callers := (a_callers s)(t := pc)\<rparr>"

text \<open>Acquiring a lock that may be held already; leaving a function gives it up.\<close>

definition may_lock :: "nat \<Rightarrow> 'w async_state \<Rightarrow> bool" where
  "may_lock t s \<longleftrightarrow> a_mutex s = None \<or> a_mutex s = Some (Caller t)"

definition unlock :: "nat \<Rightarrow> 'w async_state \<Rightarrow> 'w async_state" where
  "unlock t s = s\<lparr>a_mutex := (if a_mutex s = Some (Caller t) then None else a_mutex s)\<rparr>"

definition return_to_caller :: "nat \<Rightarrow> 'w async_state \<Rightarrow> 'w async_state" where
  "return_to_caller t s = c_goto t C_idle (unlock t s)"

definition reject :: "nat \<Rightarrow> log_event \<Rightarrow> 'w async_state \<Rightarrow> 'w async_state" where
  "reject t e s =
     return_to_caller t (s\<lparr>a_dropped := a_dropped s + 1, g_rejected := g_rejected s @ [e]\<rparr>)"

text \<open>\<open>dispatch\<close>, that is \<open>enqueue_event\<close>, up to a displaced flush request.\<close>

inductive event_step :: "('s, 'w) async_config \<Rightarrow> nat \<Rightarrow> 'w async_state \<Rightarrow> 'w async_state \<Rightarrow> bool" for c t where
  e_stop0_yes: "a_callers s t = E_stop0 e \<Longrightarrow> a_stopping s \<Longrightarrow> event_step c t s (reject t e s)"
| e_stop0_no: "a_callers s t = E_stop0 e \<Longrightarrow> \<not> a_stopping s \<Longrightarrow> event_step c t s (c_goto t (E_try0 e) s)"
| e_try0_claim: "a_callers s t = E_try0 e \<Longrightarrow> can_claim c s \<Longrightarrow>
    event_step c t s (c_goto t E_wake (claim (Caller t) (Log_event e) s))"
| e_try0_refuse: "a_callers s t = E_try0 e \<Longrightarrow> can_refuse c s \<Longrightarrow>
    event_step c t s (c_goto t (E_loop e) s)"
| e_loop_claim: "a_callers s t = E_loop e \<Longrightarrow> can_claim c s \<Longrightarrow>
    event_step c t s (c_goto t E_wake (claim (Caller t) (Log_event e) s))"
| e_loop_refuse: "a_callers s t = E_loop e \<Longrightarrow> can_refuse c s \<Longrightarrow>
    event_step c t s (c_goto t (E_stop1 e) s)"
| e_wake_no: "a_callers s t = E_wake \<Longrightarrow> \<not> a_sleeping s \<Longrightarrow> event_step c t s (return_to_caller t s)"
| e_wake_yes: "a_callers s t = E_wake \<Longrightarrow> a_sleeping s \<Longrightarrow> event_step c t s (c_goto t E_wake_lock s)"
| e_wake_lock: "a_callers s t = E_wake_lock \<Longrightarrow> may_lock t s \<Longrightarrow>
    event_step c t s (return_to_caller t (s\<lparr>a_sleeping := False\<rparr>))"
| e_stop1_yes: "a_callers s t = E_stop1 e \<Longrightarrow> a_stopping s \<Longrightarrow> event_step c t s (reject t e s)"
| e_stop1_no: "a_callers s t = E_stop1 e \<Longrightarrow> \<not> a_stopping s \<Longrightarrow> event_step c t s (c_goto t (E_policy e) s)"
| e_drop_newest: "a_callers s t = E_policy e \<Longrightarrow> overflow (cf_options c) = Drop_newest \<Longrightarrow>
    event_step c t s (reject t e s)"
| e_drop_oldest: "a_callers s t = E_policy e \<Longrightarrow> overflow (cf_options c) = Drop_oldest \<Longrightarrow> can_take x s \<Longrightarrow>
    event_step c t s (c_goto t (E_dropped e x) (take_item (Caller t) s))"
| e_drop_nothing: "a_callers s t = E_policy e \<Longrightarrow> overflow (cf_options c) = Drop_oldest \<Longrightarrow> can_miss s \<Longrightarrow>
    event_step c t s (c_goto t (E_loop e) s)"
| e_dropped_event: "a_callers s t = E_dropped e (Log_event d) \<Longrightarrow>
    event_step c t s (c_goto t (E_loop e) (s\<lparr>a_dropped := a_dropped s + 1\<rparr>))"
| e_dropped_flush: "a_callers s t = E_dropped e (Flush_request i) \<Longrightarrow>
    event_step c t s (c_goto t (F_stop0 i (K_retry e)) (s\<lparr>a_dropped := a_dropped s + 1\<rparr>))"
| e_block: "a_callers s t = E_policy e \<Longrightarrow> overflow (cf_options c) = Block \<Longrightarrow>
    event_step c t s (c_goto t (E_lock e) s)"
| e_lock: "a_callers s t = E_lock e \<Longrightarrow> may_lock t s \<Longrightarrow>
    event_step c t s (c_goto t (E_wait e) (s\<lparr>a_mutex := None\<rparr>))"
| e_wait_retry: "a_callers s t = E_wait e \<Longrightarrow> a_mutex s = None \<Longrightarrow>
    event_step c t s (c_goto t (E_loop e) (s\<lparr>a_mutex := Some (Caller t)\<rparr>))"
| e_wait_expired: "a_callers s t = E_wait e \<Longrightarrow> a_mutex s = None \<Longrightarrow>
    0 < block_retry_timeout (cf_options c) \<Longrightarrow> event_step c t s (reject t e s)"

text \<open>\<open>enqueue_flush_request\<close>, called by \<open>flush\<close> or for a displaced request, and the wait of \<open>flush\<close>.\<close>

definition flush_return :: "nat \<Rightarrow> u64 \<Rightarrow> flush_cont \<Rightarrow> 'w async_state \<Rightarrow> 'w async_state" where
  "flush_return t i k s =
     c_goto t (case k of K_flush \<Rightarrow> Fl_wait i | K_retry e \<Rightarrow> E_loop e) (unlock t s)"

inductive flush_step :: "('s, 'w) async_config \<Rightarrow> nat \<Rightarrow> 'w async_state \<Rightarrow> 'w async_state \<Rightarrow> bool" for c t where
  f_stop0_yes: "a_callers s t = F_stop0 i k \<Longrightarrow> a_stopping s \<Longrightarrow> flush_step c t s (c_goto t (F_finish i k) s)"
| f_stop0_no: "a_callers s t = F_stop0 i k \<Longrightarrow> \<not> a_stopping s \<Longrightarrow> flush_step c t s (c_goto t (F_loop i k) s)"
| f_finish: "a_callers s t = F_finish i k \<Longrightarrow> flush_step c t s (flush_return t i k (complete_flush i s))"
| f_claim: "a_callers s t = F_loop i k \<Longrightarrow> can_claim c s \<Longrightarrow>
    flush_step c t s (c_goto t (F_wake i k) (claim (Caller t) (Flush_request i) s))"
| f_refuse: "a_callers s t = F_loop i k \<Longrightarrow> can_refuse c s \<Longrightarrow> flush_step c t s (c_goto t (F_stop1 i k) s)"
| f_wake_no: "a_callers s t = F_wake i k \<Longrightarrow> \<not> a_sleeping s \<Longrightarrow> flush_step c t s (flush_return t i k s)"
| f_wake_yes: "a_callers s t = F_wake i k \<Longrightarrow> a_sleeping s \<Longrightarrow> flush_step c t s (c_goto t (F_wake_lock i k) s)"
| f_wake_lock: "a_callers s t = F_wake_lock i k \<Longrightarrow> may_lock t s \<Longrightarrow>
    flush_step c t s (flush_return t i k (s\<lparr>a_sleeping := False\<rparr>))"
| f_stop1_yes: "a_callers s t = F_stop1 i k \<Longrightarrow> a_stopping s \<Longrightarrow> flush_step c t s (c_goto t (F_finish i k) s)"
| f_stop1_no: "a_callers s t = F_stop1 i k \<Longrightarrow> \<not> a_stopping s \<Longrightarrow> flush_step c t s (c_goto t (F_lock i k) s)"
| f_lock: "a_callers s t = F_lock i k \<Longrightarrow> may_lock t s \<Longrightarrow>
    flush_step c t s (c_goto t (F_wait i k) (s\<lparr>a_mutex := None\<rparr>))"
| f_wait: "a_callers s t = F_wait i k \<Longrightarrow> a_mutex s = None \<Longrightarrow>
    flush_step c t s (c_goto t (F_loop i k) (s\<lparr>a_mutex := Some (Caller t)\<rparr>))"
| f_completed: "a_callers s t = Fl_wait i \<Longrightarrow> i \<le> a_completed s \<Longrightarrow> flush_step c t s (c_goto t C_idle s)"

text \<open>\<open>shutdown\<close>.\<close>

inductive shutdown_step :: "nat \<Rightarrow> 'w async_state \<Rightarrow> 'w async_state \<Rightarrow> bool" for t where
  s_first: "a_callers s t = S_exchange \<Longrightarrow> \<not> a_stopping s \<Longrightarrow>
    shutdown_step t s (c_goto t S_lock (s\<lparr>a_stopping := True\<rparr>))"
| s_again: "a_callers s t = S_exchange \<Longrightarrow> a_stopping s \<Longrightarrow> shutdown_step t s (c_goto t C_idle s)"
| s_lock: "a_callers s t = S_lock \<Longrightarrow> mutex_free s \<Longrightarrow>
    shutdown_step t s (c_goto t S_complete (s\<lparr>a_sleeping := False\<rparr>))"
| s_complete: "a_callers s t = S_complete \<Longrightarrow>
    shutdown_step t s (c_goto t S_join (s\<lparr>a_completed := - 1\<rparr>))"
| s_join: "a_callers s t = S_join \<Longrightarrow> a_worker s = W_done \<Longrightarrow> shutdown_step t s (c_goto t C_idle s)"

text \<open>
  New calls. The destructor is the only caller of \<open>shutdown\<close>, so in a program without a lifetime
  error no other call is under way then and none begins later: the runs with \<open>orderly\<close> true.
\<close>

inductive call_step :: "bool \<Rightarrow> nat \<Rightarrow> 'w async_state \<Rightarrow> 'w async_state \<Rightarrow> bool" for orderly t where
  call_dispatch: "a_callers s t = C_idle \<Longrightarrow> \<not> (orderly \<and> (\<exists>u. a_callers s u \<in> {S_exchange, S_lock, S_complete, S_join} \<or> a_stopping s)) \<Longrightarrow>
    call_step orderly t s (c_goto t (E_stop0 e) s)"
| call_flush: "a_callers s t = C_idle \<Longrightarrow> \<not> (orderly \<and> (\<exists>u. a_callers s u \<in> {S_exchange, S_lock, S_complete, S_join} \<or> a_stopping s)) \<Longrightarrow>
    call_step orderly t s
      (c_goto t (F_stop0 (a_next_flush s + 1) K_flush)
        (s\<lparr>a_next_flush := a_next_flush s + 1, g_marks := g_marks s @ [length (g_claimed s)]\<rparr>))"
| call_shutdown: "a_callers s t = C_idle \<Longrightarrow> \<not> (orderly \<and> (\<exists>u. a_callers s u \<noteq> C_idle)) \<Longrightarrow>
    call_step orderly t s (c_goto t S_exchange s)"

inductive async_step :: "bool \<Rightarrow> ('s, 'w) async_config \<Rightarrow> 'w async_state \<Rightarrow> 'w async_state \<Rightarrow> bool" for orderly c where
  by_queue: "queue_step s s' \<Longrightarrow> async_step orderly c s s'"
| by_worker: "a_phase s Worker = Ready \<Longrightarrow> worker_step c s s' \<Longrightarrow> async_step orderly c s s'"
| by_event: "a_phase s (Caller t) = Ready \<Longrightarrow> event_step c t s s' \<Longrightarrow> async_step orderly c s s'"
| by_flush: "a_phase s (Caller t) = Ready \<Longrightarrow> flush_step c t s s' \<Longrightarrow> async_step orderly c s s'"
| by_shutdown: "a_phase s (Caller t) = Ready \<Longrightarrow> shutdown_step t s s' \<Longrightarrow> async_step orderly c s s'"
| by_call: "a_phase s (Caller t) = Ready \<Longrightarrow> call_step orderly t s s' \<Longrightarrow> async_step orderly c s s'"

inductive async_reach :: "bool \<Rightarrow> ('s, 'w) async_config \<Rightarrow> 'w async_state \<Rightarrow> bool" for orderly c where
  reach_init: "new_async_dispatcher c w = Inr s \<Longrightarrow> async_reach orderly c s"
| reach_step: "async_reach orderly c s \<Longrightarrow> async_step orderly c s s' \<Longrightarrow> async_reach orderly c s'"

end
