(* ===== verification/Async_Ledger.thy ===== *)
theory Async_Ledger
  imports Async_Dispatcher "HOL-Library.Multiset" "HOL-Library.Sublist"
begin

text \<open>
  Where every enqueued item is: waiting in the queue, displaced by a producer, in the worker's hands,
  processed, or lost. The invariants are proved once for every step.
\<close>

lemmas async_ops = w_goto_def c_goto_def claim_def publish_def take_item_def release_def
  write_event_def flush_sinks_def complete_flush_def settle_def unlock_def return_to_caller_def
  reject_def flush_return_def

section \<open>What the worker holds\<close>

fun worker_holds :: "worker_pc \<Rightarrow> queue_item list" where
  "worker_holds (W_clear x) = [x]"
| "worker_holds (W_decide (Some x)) = [x]"
| "worker_holds (W_drain batch) = batch"
| "worker_holds (W_fill batch) = batch"
| "worker_holds (W_notify batch) = batch"
| "worker_holds (W_process batch) = batch"
| "worker_holds (W_complete i rest) = rest"
| "worker_holds _ = []"

fun request_of :: "queue_item \<Rightarrow> request" where
  "request_of (Log_event e) = Write e"
| "request_of (Flush_request i) = Flush"

definition by_worker_taken :: "'w async_state \<Rightarrow> queue_item list" where
  "by_worker_taken s = map snd (filter fst (g_taken s))"

definition displaced :: "'w async_state \<Rightarrow> queue_item list" where
  "displaced s = map snd (filter (\<lambda>x. \<not> fst x) (g_taken s))"

definition lost_items :: "'w async_state \<Rightarrow> queue_item list" where
  "lost_items s = map fst (filter (\<lambda>x. \<not> snd x) (g_done s))"

definition processed :: "'w async_state \<Rightarrow> queue_item list" where
  "processed s = map fst (filter snd (g_done s))"

definition ledger :: "'w async_state \<Rightarrow> bool" where
  "ledger s \<longleftrightarrow> g_claimed s = map snd (g_taken s) @ map fst (a_items s) \<and>
     by_worker_taken s = map fst (g_done s) @ worker_holds (a_worker s) \<and>
     g_trace s = map (\<lambda>x. request_of (fst x)) (filter snd (g_done s)) @
       (if a_worker s = W_done then [Flush] else [])"

lemma can_takeE:
  assumes "can_take x s"
  obtains ys where "a_items s = (x, None) # ys"
  using assms by (auto simp: can_take_def split: list.splits)

lemma can_missE:
  assumes "can_miss s"
  obtains "a_items s = []" | y th ys where "a_items s = (y, Some th) # ys"
  using assms by (cases "a_items s") (auto simp: can_miss_def)

lemma publish_items: "map fst (map (\<lambda>(x, w). (x, if w = Some th then None else w)) xs) = map fst xs"
  by (induction xs) auto

lemma ledger_queue: "queue_step s s' \<Longrightarrow> ledger s \<Longrightarrow> ledger s'"
  by (induction rule: queue_step.induct)
    (auto simp: ledger_def by_worker_taken_def publish_def release_def case_prod_unfold comp_def)

lemma ledger_worker: "worker_step c s s' \<Longrightarrow> ledger s \<Longrightarrow> ledger s'"
  by (induction rule: worker_step.induct)
    (auto simp: ledger_def by_worker_taken_def async_ops held_item_def elim!: can_takeE
      split: prod.splits option.splits)

lemma ledger_event: "event_step c t s s' \<Longrightarrow> ledger s \<Longrightarrow> ledger s'"
  by (induction rule: event_step.induct)
    (auto simp: ledger_def by_worker_taken_def async_ops elim!: can_takeE)

lemma ledger_flush: "flush_step c t s s' \<Longrightarrow> ledger s \<Longrightarrow> ledger s'"
  by (induction rule: flush_step.induct) (auto simp: ledger_def by_worker_taken_def async_ops)

lemma ledger_shutdown: "shutdown_step t s s' \<Longrightarrow> ledger s \<Longrightarrow> ledger s'"
  by (induction rule: shutdown_step.induct) (auto simp: ledger_def by_worker_taken_def async_ops)

lemma ledger_call: "call_step orderly t s s' \<Longrightarrow> ledger s \<Longrightarrow> ledger s'"
  by (induction rule: call_step.induct) (auto simp: ledger_def by_worker_taken_def async_ops)

section \<open>Induction over the runs\<close>

text \<open>A step that is not the start of a call.\<close>

definition inner_step :: "('s, 'w) async_config \<Rightarrow> 'w async_state \<Rightarrow> 'w async_state \<Rightarrow> bool" where
  "inner_step c s s' \<longleftrightarrow> queue_step s s' \<or> a_phase s Worker = Ready \<and> worker_step c s s' \<or>
     (\<exists>t. a_phase s (Caller t) = Ready \<and> (event_step c t s s' \<or> flush_step c t s s' \<or> shutdown_step t s s'))"

lemma inner_intros:
  "queue_step s s' \<Longrightarrow> inner_step c s s'" "a_phase s Worker = Ready \<Longrightarrow> worker_step c s s' \<Longrightarrow> inner_step c s s'"
  "a_phase s (Caller t) = Ready \<Longrightarrow> event_step c t s s' \<Longrightarrow> inner_step c s s'"
  "a_phase s (Caller t) = Ready \<Longrightarrow> flush_step c t s s' \<Longrightarrow> inner_step c s s'"
  "a_phase s (Caller t) = Ready \<Longrightarrow> shutdown_step t s s' \<Longrightarrow> inner_step c s s'"
  by (auto simp: inner_step_def)

lemma inner_async: "inner_step c s s' \<Longrightarrow> async_step orderly c s s'"
  by (auto simp: inner_step_def intro: async_step.intros)

lemma async_invariant [consumes 1, case_names init queue worker event flush shutdown call]:
  assumes "async_reach orderly c s"
    and "\<And>w. new_async_dispatcher c w = Inr (async_init w) \<Longrightarrow> P (async_init w)"
    and "\<And>s s'. async_reach orderly c s \<Longrightarrow> P s \<Longrightarrow> queue_step s s' \<Longrightarrow> P s'"
    and "\<And>s s'. async_reach orderly c s \<Longrightarrow> P s \<Longrightarrow> a_phase s Worker = Ready \<Longrightarrow> worker_step c s s' \<Longrightarrow> P s'"
    and "\<And>s s' t. async_reach orderly c s \<Longrightarrow> P s \<Longrightarrow> a_phase s (Caller t) = Ready \<Longrightarrow> event_step c t s s' \<Longrightarrow> P s'"
    and "\<And>s s' t. async_reach orderly c s \<Longrightarrow> P s \<Longrightarrow> a_phase s (Caller t) = Ready \<Longrightarrow> flush_step c t s s' \<Longrightarrow> P s'"
    and "\<And>s s' t. async_reach orderly c s \<Longrightarrow> P s \<Longrightarrow> a_phase s (Caller t) = Ready \<Longrightarrow> shutdown_step t s s' \<Longrightarrow> P s'"
    and "\<And>s s' t. async_reach orderly c s \<Longrightarrow> P s \<Longrightarrow> a_phase s (Caller t) = Ready \<Longrightarrow> call_step orderly t s s' \<Longrightarrow> P s'"
  shows "P s"
  using assms(1)
proof (induction rule: async_reach.induct)
  case (reach_init w s)
  then have "s = async_init w" by (auto simp: new_async_dispatcher_def split: if_splits sum.splits)
  with reach_init assms(2) show ?case by simp
next
  case (reach_step s s')
  from reach_step.hyps(2) show ?case
    by cases (use reach_step assms(3-8) in blast)+
qed

lemma reach_options:
  "async_reach orderly c s \<Longrightarrow>
    queue_capacity (cf_options c) \<noteq> 0 \<and> batch_size (cf_options c) \<noteq> 0"
proof (induction rule: async_reach.induct)
  case (reach_init w s)
  then show ?case by (auto simp: new_async_dispatcher_def split: if_splits)
qed simp

lemma reach_ledger: "async_reach orderly c s \<Longrightarrow> ledger s"
proof (induction rule: async_invariant)
  case (init w)
  show ?case by (simp add: ledger_def by_worker_taken_def async_init_def)
qed (blast intro: ledger_queue ledger_worker ledger_event ledger_flush ledger_shutdown ledger_call)+

section \<open>Bounds\<close>

fun batch_of :: "worker_pc \<Rightarrow> queue_item list" where
  "batch_of (W_drain batch) = batch"
| "batch_of (W_fill batch) = batch"
| "batch_of (W_notify batch) = batch"
| "batch_of (W_process batch) = batch"
| "batch_of (W_complete i rest) = rest"
| "batch_of _ = []"

definition within_bounds :: "('s, 'w) async_config \<Rightarrow> 'w async_state \<Rightarrow> bool" where
  "within_bounds c s \<longleftrightarrow> length (a_items s) \<le> cf_capacity c \<and> length (batch_of (a_worker s)) \<le> cf_batch c \<and>
     (case a_worker s of W_drain batch \<Rightarrow> length batch < cf_batch c | _ \<Rightarrow> True)"

lemma bounds_worker:
  "worker_step c s s' \<Longrightarrow> 0 < cf_batch c \<Longrightarrow> within_bounds c s \<Longrightarrow> within_bounds c s'"
  by (induction rule: worker_step.induct)
    (auto simp: within_bounds_def async_ops elim!: can_takeE split: prod.splits)

lemma bounds_event: "event_step c t s s' \<Longrightarrow> within_bounds c s \<Longrightarrow> within_bounds c s'"
  by (induction rule: event_step.induct)
    (auto simp: within_bounds_def can_claim_def async_ops elim!: can_takeE)

lemma bounds_flush: "flush_step c t s s' \<Longrightarrow> within_bounds c s \<Longrightarrow> within_bounds c s'"
  by (induction rule: flush_step.induct)
    (auto simp: within_bounds_def can_claim_def async_ops)

lemma bounds_queue: "queue_step s s' \<Longrightarrow> within_bounds c s \<Longrightarrow> within_bounds c s'"
  by (induction rule: queue_step.induct) (auto simp: within_bounds_def async_ops)

lemma bounds_shutdown: "shutdown_step t s s' \<Longrightarrow> within_bounds c s \<Longrightarrow> within_bounds c s'"
  by (induction rule: shutdown_step.induct) (auto simp: within_bounds_def async_ops)

lemma bounds_call: "call_step orderly t s s' \<Longrightarrow> within_bounds c s \<Longrightarrow> within_bounds c s'"
  by (induction rule: call_step.induct) (auto simp: within_bounds_def async_ops)

lemma reach_bounds: "async_reach orderly c s \<Longrightarrow> within_bounds c s"
proof (induction rule: async_invariant)
  case (worker s s')
  then have "0 < cf_batch c"
    using reach_options [of orderly c s] by (auto simp: cf_batch_def unat_gt_0)
  with worker show ?case using bounds_worker by blast
qed (auto simp: within_bounds_def async_init_def dest: bounds_queue bounds_shutdown bounds_call bounds_event bounds_flush)

section \<open>Stopping and lost items\<close>

fun may_hold_new :: "worker_pc \<Rightarrow> bool" where
  "may_hold_new W_deq1 = True"
| "may_hold_new W_sleep = True"
| "may_hold_new W_deq2 = True"
| "may_hold_new (W_clear x) = True"
| "may_hold_new W_check2 = True"
| "may_hold_new W_lock = True"
| "may_hold_new W_wait = True"
| "may_hold_new (W_decide held) \<longleftrightarrow> held \<noteq> None"
| "may_hold_new _ = False"

fun only_stopping :: "worker_pc \<Rightarrow> bool" where
  "only_stopping (W_decide held) \<longleftrightarrow> held = None"
| "only_stopping (W_drain batch) = True"
| "only_stopping W_final = True"
| "only_stopping W_done = True"
| "only_stopping _ = False"

definition loss_ok :: "'w async_state \<Rightarrow> bool" where
  "loss_ok s \<longleftrightarrow> (only_stopping (a_worker s) \<longrightarrow> a_stopping s) \<and>
     (case lost_items s of [] \<Rightarrow> True
      | [x] \<Rightarrow> a_stopping s \<and> \<not> may_hold_new (a_worker s)
      | _ \<Rightarrow> False) \<and>
     (\<forall>t i k. a_callers s t = F_finish i k \<longrightarrow> a_stopping s) \<and>
     (\<forall>t. a_callers s t \<in> {S_lock, S_complete, S_join} \<longrightarrow> a_stopping s)"

lemma loss_worker: "worker_step c s s' \<Longrightarrow> loss_ok s \<Longrightarrow> loss_ok s'"
  by (induction rule: worker_step.induct)
    (auto simp: loss_ok_def lost_items_def async_ops held_item_def split: prod.splits option.splits list.splits)

lemma loss_event: "event_step c t s s' \<Longrightarrow> loss_ok s \<Longrightarrow> loss_ok s'"
  by (induction rule: event_step.induct)
    (auto simp: loss_ok_def lost_items_def async_ops split: list.splits if_splits)

lemma loss_flush: "flush_step c t s s' \<Longrightarrow> loss_ok s \<Longrightarrow> loss_ok s'"
  by (induction rule: flush_step.induct)
    (auto simp: loss_ok_def lost_items_def async_ops split: list.splits if_splits flush_cont.splits)

lemma loss_queue: "queue_step s s' \<Longrightarrow> loss_ok s \<Longrightarrow> loss_ok s'"
  by (induction rule: queue_step.induct) (auto simp: loss_ok_def lost_items_def async_ops split: list.splits if_splits)

lemma loss_shutdown: "shutdown_step t s s' \<Longrightarrow> loss_ok s \<Longrightarrow> loss_ok s'"
  by (induction rule: shutdown_step.induct) (auto simp: loss_ok_def lost_items_def async_ops split: list.splits if_splits)

lemma loss_call: "call_step orderly t s s' \<Longrightarrow> loss_ok s \<Longrightarrow> loss_ok s'"
  by (induction rule: call_step.induct) (auto simp: loss_ok_def lost_items_def async_ops split: list.splits if_splits)

lemma reach_loss: "async_reach orderly c s \<Longrightarrow> loss_ok s"
proof (induction rule: async_invariant)
  case (init w)
  show ?case by (simp add: loss_ok_def lost_items_def async_init_def)
qed (blast intro: loss_queue loss_worker loss_event loss_flush loss_shutdown loss_call)+

section \<open>Drop accounting\<close>

text \<open>A displaced item is counted in the step after it was taken; \<open>uncounted\<close>: the callers between.\<close>

fun is_dropping :: "caller_pc \<Rightarrow> bool" where
  "is_dropping (E_dropped e x) = True"
| "is_dropping _ = False"

definition uncounted :: "'w async_state \<Rightarrow> nat set" where
  "uncounted s = {t. is_dropping (a_callers s t)}"

definition drops_ok :: "'w async_state \<Rightarrow> bool" where
  "drops_ok s \<longleftrightarrow> finite (uncounted s) \<and>
     a_dropped s + of_nat (card (uncounted s)) = of_nat (length (g_rejected s) + length (displaced s))"

lemma uncounted_same:
  assumes "\<And>u. u \<noteq> t \<Longrightarrow> a_callers s' u = a_callers s u"
    "is_dropping (a_callers s' t) = is_dropping (a_callers s t)"
  shows "uncounted s' = uncounted s"
proof -
  have "is_dropping (a_callers s' u) = is_dropping (a_callers s u)" for u
    using assms by (cases "u = t") auto
  then show ?thesis by (simp add: uncounted_def)
qed

lemma uncounted_add:
  assumes "\<And>u. u \<noteq> t \<Longrightarrow> a_callers s' u = a_callers s u"
    "is_dropping (a_callers s' t)" "\<not> is_dropping (a_callers s t)"
  shows "uncounted s' = insert t (uncounted s)" "t \<notin> uncounted s"
proof -
  have "is_dropping (a_callers s' u) \<longleftrightarrow> u = t \<or> is_dropping (a_callers s u)" for u
    using assms by (cases "u = t") auto
  then show "uncounted s' = insert t (uncounted s)" "t \<notin> uncounted s"
    using assms(3) by (auto simp: uncounted_def)
qed

lemma uncounted_remove:
  assumes "\<And>u. u \<noteq> t \<Longrightarrow> a_callers s' u = a_callers s u"
    "\<not> is_dropping (a_callers s' t)" "is_dropping (a_callers s t)"
  shows "uncounted s' = uncounted s - {t}" "t \<in> uncounted s"
proof -
  have "is_dropping (a_callers s' u) \<longleftrightarrow> u \<noteq> t \<and> is_dropping (a_callers s u)" for u
    using assms by (cases "u = t") auto
  then show "uncounted s' = uncounted s - {t}" "t \<in> uncounted s"
    using assms(3) by (auto simp: uncounted_def)
qed

lemma drops_kept:
  assumes "drops_ok s" "uncounted s' = uncounted s" "a_dropped s' = a_dropped s"
    "g_rejected s' = g_rejected s" "displaced s' = displaced s"
  shows "drops_ok s'"
  using assms by (simp add: drops_ok_def)

lemma drops_reject:
  assumes "drops_ok s" "\<not> is_dropping (a_callers s t)"
  shows "drops_ok (reject t e s)"
proof -
  have "uncounted (reject t e s) = uncounted s"
    by (rule uncounted_same [of t]) (use assms(2) in \<open>auto simp: async_ops\<close>)
  with assms(1) show ?thesis
    by (simp add: drops_ok_def) (simp add: reject_def return_to_caller_def c_goto_def unlock_def displaced_def add_ac)
qed

lemma drops_queue: "queue_step s s' \<Longrightarrow> drops_ok s \<Longrightarrow> drops_ok s'"
  by (induction rule: queue_step.induct)
    (erule drops_kept; simp add: async_ops uncounted_def displaced_def)+

lemma drops_worker: "worker_step c s s' \<Longrightarrow> drops_ok s \<Longrightarrow> drops_ok s'"
  by (induction rule: worker_step.induct)
    (erule drops_kept; simp add: async_ops uncounted_def displaced_def split: prod.splits)+

lemma drops_shutdown: "shutdown_step t s s' \<Longrightarrow> drops_ok s \<Longrightarrow> drops_ok s'"
  by (induction rule: shutdown_step.induct)
    (erule drops_kept, rule uncounted_same [of t]; simp add: async_ops displaced_def)+

lemma drops_call: "call_step orderly t s s' \<Longrightarrow> drops_ok s \<Longrightarrow> drops_ok s'"
  by (induction rule: call_step.induct)
    (erule drops_kept, rule uncounted_same [of t]; simp add: async_ops displaced_def)+

lemma drops_flush: "flush_step c t s s' \<Longrightarrow> drops_ok s \<Longrightarrow> drops_ok s'"
  by (induction rule: flush_step.induct)
    (erule drops_kept, rule uncounted_same [of t]; simp add: async_ops displaced_def split: flush_cont.splits)+

lemma drops_counted:
  assumes ok: "drops_ok s" and pc: "a_callers s t = E_dropped e x" and pc': "\<not> is_dropping pc'"
  shows "drops_ok (c_goto t pc' (s\<lparr>a_dropped := a_dropped s + 1\<rparr>))"
proof -
  define s' where "s' = c_goto t pc' (s\<lparr>a_dropped := a_dropped s + 1\<rparr>)"
  have u: "uncounted s' = uncounted s - {t}"
    by (rule uncounted_remove; use pc pc' in \<open>simp add: s'_def c_goto_def\<close>)
  have "finite (uncounted s)" "t \<in> uncounted s" using ok pc by (auto simp: drops_ok_def uncounted_def)
  then have c: "card (uncounted s) = Suc (card (uncounted s'))"
    unfolding u by (rule card_Suc_Diff1 [symmetric])
  have "a_dropped s' = a_dropped s + 1" "g_rejected s' = g_rejected s" "displaced s' = displaced s"
    by (simp_all add: s'_def c_goto_def displaced_def)
  moreover have "finite (uncounted s')" using \<open>finite (uncounted s)\<close> u by simp
  ultimately have "drops_ok s'" using ok c by (simp add: drops_ok_def add_ac)
  then show ?thesis by (simp add: s'_def)
qed

lemma drops_displace:
  assumes ok: "drops_ok s" and pc: "a_callers s t = E_policy e"
  shows "drops_ok (c_goto t (E_dropped e x) (take_item (Caller t) s))" (is "drops_ok ?s'")
proof -
  have "uncounted ?s' = insert t (uncounted s)"
    by (rule uncounted_add; use pc in \<open>simp add: c_goto_def take_item_def\<close>)
  moreover have "t \<notin> uncounted s" by (simp add: uncounted_def pc)
  moreover have "length (displaced ?s') = Suc (length (displaced s))"
    by (simp add: displaced_def c_goto_def take_item_def)
  ultimately show ?thesis
    using ok by (simp add: drops_ok_def) (simp add: c_goto_def take_item_def add_ac)
qed

lemma drops_event: "event_step c t s s' \<Longrightarrow> drops_ok s \<Longrightarrow> drops_ok s'"
proof (induction rule: event_step.induct)
  case (e_drop_oldest s e x)
  then show ?case by (intro drops_displace)
next
  case (e_dropped_event s e d)
  then show ?case by (intro drops_counted) auto
next
  case (e_dropped_flush s e i)
  then show ?case by (intro drops_counted) auto
qed ((rule drops_reject, assumption, simp) |
    (erule drops_kept, rule uncounted_same [of t]; simp add: async_ops displaced_def))+


lemma reach_drops: "async_reach orderly c s \<Longrightarrow> drops_ok s"
proof (induction rule: async_invariant)
  case (init w)
  show ?case by (simp add: drops_ok_def uncounted_def async_init_def displaced_def)
qed (blast intro: drops_queue drops_worker drops_event drops_flush drops_shutdown drops_call)+

section \<open>The sinks\<close>

text \<open>
  With sinks that keep a record of their calls: the record holds a call of every sink, in order, for each
  request of the trace, whatever the sinks throw, and the counter is the number of throws.
\<close>

definition recorded :: "('s, 'w) async_config \<Rightarrow> ('s, 's sink_call list \<times> 'w) async_config" where
  "recorded c = \<lparr>cf_options = cf_options c, cf_impl = recording (cf_impl c), cf_sinks = cf_sinks c\<rparr>"

definition every_sink :: "'s list \<Rightarrow> request list \<Rightarrow> ('s \<times> request) list" where
  "every_sink sinks requests = concat (map (\<lambda>r. map (\<lambda>k. (k, r)) sinks) requests)"

definition calls_ok :: "'s list \<Rightarrow> ('s sink_call list \<times> 'w) async_state \<Rightarrow> bool" where
  "calls_ok sinks s \<longleftrightarrow> map the_call (fst (a_world s)) = every_sink sinks (g_trace s) \<and>
     a_failures s = count_failures (fst (a_world s))"

lemma every_sink_snoc [simp]: "every_sink sinks (rs @ [r]) = every_sink sinks rs @ map (\<lambda>k. (k, r)) sinks"
  by (simp add: every_sink_def)

lemma calls_kept:
  "calls_ok sinks s \<Longrightarrow> g_trace s' = g_trace s \<Longrightarrow> a_failures s' = a_failures s \<Longrightarrow> a_world s' = a_world s \<Longrightarrow>
    calls_ok sinks s'"
  by (simp add: calls_ok_def)

lemma calls_write:
  assumes "calls_ok (cf_sinks c) s"
  shows "calls_ok (cf_sinks c) (write_event (recorded c) e s)"
proof -
  obtain log w where world: "a_world s = (log, w)" by (cases "a_world s")
  obtain fails w' where run: "safe_write (cf_impl c) (cf_sinks c) e (a_failures s, w) = (fails, w')" by force
  with safe_write_recorded [of e "cf_sinks c" "cf_impl c" "a_failures s" log w] obtain calls where
    "map the_call calls = map (\<lambda>k. (k, Write e)) (cf_sinks c)" "fails = a_failures s + count_failures calls"
    "safe_write (recording (cf_impl c)) (cf_sinks c) e (a_failures s, log, w) = (fails, log @ calls, w')" by auto
  with assms show ?thesis by (simp add: calls_ok_def write_event_def recorded_def world)
qed

lemma calls_flush:
  assumes "calls_ok (cf_sinks c) s"
  shows "calls_ok (cf_sinks c) (flush_sinks (recorded c) s)"
proof -
  obtain log w where world: "a_world s = (log, w)" by (cases "a_world s")
  obtain fails w' where run: "safe_flush_sinks (cf_impl c) (cf_sinks c) (a_failures s, w) = (fails, w')" by force
  with safe_flush_recorded [of "cf_sinks c" "cf_impl c" "a_failures s" log w] obtain calls where
    "map the_call calls = map (\<lambda>k. (k, Flush)) (cf_sinks c)" "fails = a_failures s + count_failures calls"
    "safe_flush_sinks (recording (cf_impl c)) (cf_sinks c) (a_failures s, log, w) = (fails, log @ calls, w')" by auto
  with assms show ?thesis by (simp add: calls_ok_def flush_sinks_def recorded_def world)
qed

lemma calls_worker: "worker_step (recorded c) s s' \<Longrightarrow> calls_ok (cf_sinks c) s \<Longrightarrow> calls_ok (cf_sinks c) s'"
proof (induction rule: worker_step.induct)
  case (w_process_event s e rest)
  from calls_kept [OF calls_write [OF w_process_event(2), of e]] show ?case by (simp add: w_goto_def settle_def)
next
  case (w_process_flush s i rest)
  from calls_kept [OF calls_flush [OF w_process_flush(2)]] show ?case by (simp add: w_goto_def settle_def)
next
  case (w_final s)
  from calls_kept [OF calls_flush [OF w_final(2)]] show ?case by (simp add: w_goto_def)
qed (erule calls_kept; simp add: async_ops)+

lemma calls_callers:
  "queue_step s s' \<Longrightarrow> calls_ok sinks s \<Longrightarrow> calls_ok sinks s'"
  "event_step c t s s' \<Longrightarrow> calls_ok sinks s \<Longrightarrow> calls_ok sinks s'"
  "flush_step c t s s' \<Longrightarrow> calls_ok sinks s \<Longrightarrow> calls_ok sinks s'"
  "shutdown_step t s s' \<Longrightarrow> calls_ok sinks s \<Longrightarrow> calls_ok sinks s'"
  "call_step orderly t s s' \<Longrightarrow> calls_ok sinks s \<Longrightarrow> calls_ok sinks s'"
  by (erule queue_step.cases event_step.cases flush_step.cases shutdown_step.cases call_step.cases;
      simp add: calls_ok_def async_ops)+

lemma calls_step: "async_step orderly (recorded c) s s' \<Longrightarrow> calls_ok (cf_sinks c) s \<Longrightarrow> calls_ok (cf_sinks c) s'"
  by (erule async_step.cases) (blast intro: calls_worker calls_callers)+

lemma steps_reach: "(async_step orderly c)\<^sup>*\<^sup>* s s' \<Longrightarrow> async_reach orderly c s \<Longrightarrow> async_reach orderly c s'"
  by (induction rule: rtranclp_induct) (auto intro: reach_step)

lemma steps_calls:
  "(async_step orderly (recorded c))\<^sup>*\<^sup>* s s' \<Longrightarrow> calls_ok (cf_sinks c) s \<Longrightarrow> calls_ok (cf_sinks c) s'"
  by (induction rule: rtranclp_induct) (auto intro: calls_step)

end
