(* ===== verification/Async_Shutdown.thy ===== *)
theory Async_Shutdown
  imports Async_Ledger
begin

text \<open>
  Shutting down: in an orderly run (the destructor overlaps no other call) the queue is empty when
  the worker ends, and the worker does end.
\<close>

section \<open>Phases and orderly runs\<close>

fun phase_ok :: "caller_pc \<Rightarrow> queue_phase \<Rightarrow> bool" where
  "phase_ok E_wake ph \<longleftrightarrow> ph \<noteq> Releasing"
| "phase_ok (F_wake i k) ph \<longleftrightarrow> ph \<noteq> Releasing"
| "phase_ok (E_dropped e x) ph \<longleftrightarrow> ph \<noteq> Publishing"
| "phase_ok _ ph \<longleftrightarrow> ph = Ready"

definition writers_ok :: "'w async_state \<Rightarrow> bool" where
  "writers_ok s \<longleftrightarrow> (\<forall>t. phase_ok (a_callers s t) (a_phase s (Caller t))) \<and>
     a_phase s Worker \<noteq> Publishing \<and>
     (\<forall>x th. (x, Some th) \<in> set (a_items s) \<longrightarrow> a_phase s th = Publishing)"

lemma set_tl: "xs \<noteq> [] \<Longrightarrow> x \<in> set (tl xs) \<Longrightarrow> x \<in> set xs"
  by (cases xs) auto

lemma phase_ok_Ready: "phase_ok pc ph \<Longrightarrow> phase_ok pc Ready"
  by (cases pc) auto

lemma writers_queue: "queue_step s s' \<Longrightarrow> writers_ok s \<Longrightarrow> writers_ok s'"
proof (induction rule: queue_step.induct)
  case (q_publish s th)
  then show ?case
    by (auto simp: writers_ok_def publish_def dest: phase_ok_Ready split: if_splits)
next
  case (q_release s th)
  then have "a_phase s u = Publishing" if "(x, Some u) \<in> set (a_items s)" for x u
    using that by (auto simp: writers_ok_def)
  with q_release show ?case
    by (auto simp: writers_ok_def release_def dest: phase_ok_Ready split: if_splits)
qed

lemma writers_worker:
  "worker_step c s s' \<Longrightarrow> a_phase s Worker = Ready \<Longrightarrow> writers_ok s \<Longrightarrow> writers_ok s'"
  by (induction rule: worker_step.induct)
    (auto simp: writers_ok_def async_ops elim!: can_takeE split: prod.splits)

lemma writers_event:
  "event_step c t s s' \<Longrightarrow> a_phase s (Caller t) = Ready \<Longrightarrow> writers_ok s \<Longrightarrow> writers_ok s'"
  by (induction rule: event_step.induct)
    (auto simp: writers_ok_def async_ops elim!: can_takeE)

lemma writers_flush:
  "flush_step c t s s' \<Longrightarrow> a_phase s (Caller t) = Ready \<Longrightarrow> writers_ok s \<Longrightarrow> writers_ok s'"
  by (induction rule: flush_step.induct)
    (auto simp: writers_ok_def async_ops split: flush_cont.splits)

lemma writers_shutdown:
  "shutdown_step t s s' \<Longrightarrow> a_phase s (Caller t) = Ready \<Longrightarrow> writers_ok s \<Longrightarrow> writers_ok s'"
  by (induction rule: shutdown_step.induct) (auto simp: writers_ok_def async_ops)

lemma writers_call:
  "call_step orderly t s s' \<Longrightarrow> a_phase s (Caller t) = Ready \<Longrightarrow> writers_ok s \<Longrightarrow> writers_ok s'"
  by (induction rule: call_step.induct) (auto simp: writers_ok_def async_ops)

lemma reach_writers: "async_reach orderly c s \<Longrightarrow> writers_ok s"
proof (induction rule: async_invariant)
  case (init w)
  show ?case by (simp add: writers_ok_def async_init_def)
qed (blast intro: writers_queue writers_worker writers_event writers_flush writers_shutdown writers_call)+

fun in_shutdown :: "caller_pc \<Rightarrow> bool" where
  "in_shutdown S_exchange = True"
| "in_shutdown S_lock = True"
| "in_shutdown S_complete = True"
| "in_shutdown S_join = True"
| "in_shutdown _ = False"

definition shutting :: "'w async_state \<Rightarrow> bool" where
  "shutting s \<longleftrightarrow> a_stopping s \<or> (\<exists>t. in_shutdown (a_callers s t))"

text \<open>Once an orderly run shuts down there is no other call, and the mutex stays free.\<close>

definition orderly_ok :: "'w async_state \<Rightarrow> bool" where
  "orderly_ok s \<longleftrightarrow>
     (shutting s \<longrightarrow> (\<forall>t. a_callers s t = C_idle \<or> in_shutdown (a_callers s t)))"

lemma in_shutdown_iff: "in_shutdown pc \<longleftrightarrow> pc \<in> {S_exchange, S_lock, S_complete, S_join}"
  by (cases pc) auto

lemma orderly_kept:
  "orderly_ok s \<Longrightarrow> a_stopping s' = a_stopping s \<Longrightarrow> a_callers s' = a_callers s \<Longrightarrow> orderly_ok s'"
  by (simp add: orderly_ok_def shutting_def)

lemma orderly_active:
  assumes "orderly_ok s" "a_callers s t \<noteq> C_idle" "\<not> in_shutdown (a_callers s t)"
    "a_stopping s' = a_stopping s" "\<And>u. u \<noteq> t \<Longrightarrow> a_callers s' u = a_callers s u"
    "\<not> in_shutdown (a_callers s' t)"
  shows "orderly_ok s'"
proof -
  have "\<not> shutting s" using assms(1-3) unfolding orderly_ok_def by blast
  then have "\<not> shutting s'" using assms(4-6) by (auto simp: shutting_def) metis
  then show ?thesis by (simp add: orderly_ok_def)
qed

lemma orderly_queue: "queue_step s s' \<Longrightarrow> orderly_ok s \<Longrightarrow> orderly_ok s'"
  by (induction rule: queue_step.induct) (erule orderly_kept; simp add: async_ops)+

lemma orderly_worker: "worker_step c s s' \<Longrightarrow> orderly_ok s \<Longrightarrow> orderly_ok s'"
  by (induction rule: worker_step.induct) (erule orderly_kept; simp add: async_ops split: prod.splits)+

lemma orderly_event: "event_step c t s s' \<Longrightarrow> orderly_ok s \<Longrightarrow> orderly_ok s'"
  by (induction rule: event_step.induct)
    (erule orderly_active [of _ t]; simp add: async_ops)+

lemma orderly_flush: "flush_step c t s s' \<Longrightarrow> orderly_ok s \<Longrightarrow> orderly_ok s'"
  by (induction rule: flush_step.induct)
    (erule orderly_active [of _ t]; simp add: async_ops split: flush_cont.splits)+

lemma orderly_shutdown: "shutdown_step t s s' \<Longrightarrow> orderly_ok s \<Longrightarrow> orderly_ok s'"
  by (induction rule: shutdown_step.induct)
    (auto simp: orderly_ok_def shutting_def async_ops; metis in_shutdown.simps)+

lemma orderly_call: "call_step True t s s' \<Longrightarrow> orderly_ok s \<Longrightarrow> orderly_ok s'"
  by (induction rule: call_step.induct)
    (auto simp: orderly_ok_def shutting_def async_ops in_shutdown_iff split: if_splits)

lemma reach_orderly: "async_reach True c s \<Longrightarrow> orderly_ok s"
proof (induction rule: async_invariant)
  case (init w)
  show ?case by (simp add: orderly_ok_def shutting_def async_init_def)
qed (blast intro: orderly_queue orderly_worker orderly_event orderly_flush orderly_shutdown orderly_call)+

section \<open>The mutex\<close>

fun may_own :: "caller_pc \<Rightarrow> bool" where
  "may_own C_idle = False"
| "may_own (Fl_wait i) = False"
| "may_own pc \<longleftrightarrow> \<not> in_shutdown pc"

definition mutex_ok :: "'w async_state \<Rightarrow> bool" where
  "mutex_ok s \<longleftrightarrow> (case a_mutex s of None \<Rightarrow> True | Some Worker \<Rightarrow> False | Some (Caller t) \<Rightarrow> may_own (a_callers s t))"

lemma mutex_kept:
  "mutex_ok s \<Longrightarrow> a_mutex s' = a_mutex s \<Longrightarrow> a_callers s' = a_callers s \<Longrightarrow> mutex_ok s'"
  by (auto simp: mutex_ok_def split: option.splits thread.splits)

lemma mutex_queue: "queue_step s s' \<Longrightarrow> mutex_ok s \<Longrightarrow> mutex_ok s'"
  by (induction rule: queue_step.induct) (erule mutex_kept; simp add: async_ops)+

lemma mutex_worker: "worker_step c s s' \<Longrightarrow> mutex_ok s \<Longrightarrow> mutex_ok s'"
  by (induction rule: worker_step.induct) (erule mutex_kept; simp add: async_ops split: prod.splits)+

lemma mutex_event: "event_step c t s s' \<Longrightarrow> mutex_ok s \<Longrightarrow> mutex_ok s'"
  by (induction rule: event_step.induct)
    (auto simp: mutex_ok_def async_ops split: option.splits thread.splits if_splits)

lemma mutex_flush: "flush_step c t s s' \<Longrightarrow> mutex_ok s \<Longrightarrow> mutex_ok s'"
  by (induction rule: flush_step.induct)
    (auto simp: mutex_ok_def async_ops split: option.splits thread.splits flush_cont.splits if_splits)

lemma mutex_shutdown: "shutdown_step t s s' \<Longrightarrow> mutex_ok s \<Longrightarrow> mutex_ok s'"
  by (induction rule: shutdown_step.induct)
    (auto simp: mutex_ok_def async_ops split: option.splits thread.splits if_splits)

lemma mutex_call: "call_step orderly t s s' \<Longrightarrow> mutex_ok s \<Longrightarrow> mutex_ok s'"
  by (induction rule: call_step.induct)
    (auto simp: mutex_ok_def async_ops split: option.splits thread.splits if_splits)

lemma reach_mutex: "async_reach orderly c s \<Longrightarrow> mutex_ok s"
proof (induction rule: async_invariant)
  case (init w)
  show ?case by (simp add: mutex_ok_def async_init_def)
qed (blast intro: mutex_queue mutex_worker mutex_event mutex_flush mutex_shutdown mutex_call)+

section \<open>An orderly shutdown\<close>

text \<open>In an orderly run with \<open>stopping_\<close> set, the mutex is free and every item is published.\<close>

lemma orderly_quiet:
  assumes "async_reach True c s" "a_stopping s"
  shows "a_callers s t = C_idle \<or> in_shutdown (a_callers s t)"
    and "mutex_free s" and "\<forall>(x, w) \<in> set (a_items s). w = None"
proof -
  have q: "a_callers s t = C_idle \<or> in_shutdown (a_callers s t)" for t
    using reach_orderly [OF assms(1)] assms(2) by (auto simp: orderly_ok_def shutting_def)
  then show "a_callers s t = C_idle \<or> in_shutdown (a_callers s t)" .
  have "\<not> may_own (a_callers s t)" for t using q [of t] by (cases "a_callers s t") auto
  with reach_mutex [OF assms(1)] show "mutex_free s"
    by (auto simp: mutex_ok_def mutex_free_def split: option.splits thread.splits)
  have "a_phase s (Caller t) = Ready" for t
    using q [of t] reach_writers [OF assms(1)] by (cases "a_callers s t") (auto simp: writers_ok_def dest: spec [of _ t])
  with reach_writers [OF assms(1)] have "a_phase s th \<noteq> Publishing" for th
    by (cases th) (auto simp: writers_ok_def)
  with reach_writers [OF assms(1)] show "\<forall>(x, w) \<in> set (a_items s). w = None"
    unfolding writers_ok_def by (metis (mono_tags, lifting) case_prodI2 not_Some_eq)
qed

lemma orderly_miss:
  assumes "async_reach True c s" "a_stopping s" "can_miss s"
  shows "a_items s = []"
  using orderly_quiet(3) [OF assms(1,2)] assms(3) by (auto elim!: can_missE)

definition drained :: "'w async_state \<Rightarrow> bool" where
  "drained s \<longleftrightarrow> (a_worker s \<in> {W_final, W_done} \<longrightarrow> a_items s = [])"

lemma drained_worker:
  "worker_step c s s' \<Longrightarrow> (can_miss s \<Longrightarrow> a_stopping s \<Longrightarrow> a_items s = []) \<Longrightarrow> loss_ok s \<Longrightarrow>
    drained s \<Longrightarrow> drained s'"
  by (induction rule: worker_step.induct)
    (auto simp: drained_def async_ops loss_ok_def split: prod.splits if_splits)

lemma final_stopping: "loss_ok s \<Longrightarrow> a_worker s \<in> {W_final, W_done} \<Longrightarrow> a_stopping s"
  by (auto simp: loss_ok_def)

lemma drained_event:
  "event_step c t s s' \<Longrightarrow> (a_stopping s \<Longrightarrow> a_callers s t = C_idle \<or> in_shutdown (a_callers s t)) \<Longrightarrow>
    (a_worker s \<in> {W_final, W_done} \<Longrightarrow> a_stopping s) \<Longrightarrow> drained s \<Longrightarrow> drained s'"
  by (induction rule: event_step.induct) (auto simp: drained_def async_ops)

lemma drained_flush:
  "flush_step c t s s' \<Longrightarrow> (a_stopping s \<Longrightarrow> a_callers s t = C_idle \<or> in_shutdown (a_callers s t)) \<Longrightarrow>
    (a_worker s \<in> {W_final, W_done} \<Longrightarrow> a_stopping s) \<Longrightarrow> drained s \<Longrightarrow> drained s'"
  by (induction rule: flush_step.induct) (auto simp: drained_def async_ops)

lemma reach_drained: "async_reach True c s \<Longrightarrow> drained s"
proof (induction rule: async_invariant)
  case (queue s s')
  then show ?case by (auto simp: drained_def async_ops elim!: queue_step.cases)
next
  case (worker s s')
  with reach_loss [OF worker(1)] orderly_miss [OF worker(1)] show ?case
    by (intro drained_worker [OF worker(3)]) auto
next
  case (event s s' t)
  with final_stopping [OF reach_loss [OF event(1)]] orderly_quiet(1) [OF event(1), of t] show ?case
    by (intro drained_event [OF event(3)]) auto
next
  case (flush s s' t)
  with final_stopping [OF reach_loss [OF flush(1)]] orderly_quiet(1) [OF flush(1), of t] show ?case
    by (intro drained_flush [OF flush(3)]) auto
next
  case (shutdown s s' t)
  then show ?case by (auto simp: drained_def async_ops elim!: shutdown_step.cases)
next
  case (call s s' t)
  then show ?case by (auto simp: drained_def async_ops elim!: call_step.cases)
qed (simp add: drained_def async_init_def)

section \<open>The worker ends\<close>

text \<open>
  While the queue is drained, a queued item weighs 20 and a batched one 3: every step of the worker,
  and every release of a cell it has emptied, lowers the measure.
\<close>

fun worker_rank :: "worker_pc \<Rightarrow> nat" where
  "worker_rank W_done = 0"
| "worker_rank W_final = 1"
| "worker_rank (W_drain batch) = (if batch = [] then 2 else 7 + 3 * length batch)"
| "worker_rank (W_decide held) = 3"
| "worker_rank W_check1 = 4"
| "worker_rank (W_process batch) = 5 + 3 * length batch"
| "worker_rank (W_complete i rest) = 6 + 3 * length rest"
| "worker_rank (W_notify batch) = 6 + 3 * length batch"
| "worker_rank (W_fill batch) = 7 + 3 * length batch"
| "worker_rank (W_clear x) = 4"
| "worker_rank W_wait = 5"
| "worker_rank W_lock = 6"
| "worker_rank W_check2 = 7"
| "worker_rank W_deq2 = 8"
| "worker_rank W_sleep = 9"
| "worker_rank W_deq1 = 10"

definition work_left :: "'w async_state \<Rightarrow> nat" where
  "work_left s = 2 * (20 * length (a_items s) + worker_rank (a_worker s)) +
     (if a_phase s Worker = Releasing then 1 else 0)"

text \<open>A move of the worker: a step of its loop, or the second half of its last dequeue.\<close>

inductive worker_move :: "('s, 'w) async_config \<Rightarrow> 'w async_state \<Rightarrow> 'w async_state \<Rightarrow> bool" for c where
  move_step: "a_phase s Worker = Ready \<Longrightarrow> worker_step c s s' \<Longrightarrow> worker_move c s s'"
| move_release: "a_phase s Worker = Releasing \<Longrightarrow> worker_move c s (release Worker s)"

lemma work_decreases_step:
  "worker_step c s s' \<Longrightarrow> a_stopping s \<Longrightarrow> a_phase s Worker = Ready \<Longrightarrow> work_left s' < work_left s"
  by (induction rule: worker_step.induct)
    (auto simp: work_left_def async_ops elim!: can_takeE split: prod.splits)

lemma work_decreases:
  "worker_move c s s' \<Longrightarrow> a_stopping s \<Longrightarrow> work_left s' < work_left s"
proof (induction rule: worker_move.induct)
  case (move_release s)
  then show ?case by (simp add: work_left_def release_def)
qed (rule work_decreases_step)

lemma move_reach: "worker_move c s s' \<Longrightarrow> async_reach orderly c s \<Longrightarrow> async_reach orderly c s'"
  by (induction rule: worker_move.induct)
    (blast intro: reach_step by_worker by_queue q_release)+

lemma move_stopping: "worker_move c s s' \<Longrightarrow> a_stopping s' = a_stopping s"
  by (auto elim!: worker_move.cases worker_step.cases simp: async_ops split: prod.splits)

lemma take_or_miss: "(\<exists>x. can_take x s) \<or> can_miss s"
  by (cases "a_items s") (auto simp: can_take_def can_miss_def)

lemma worker_not_stuck:
  assumes "a_stopping s" "mutex_free s" "a_worker s \<noteq> W_done"
  shows "\<exists>s'. worker_step c s s'"
proof (cases "a_worker s")
  case (W_process batch)
  then show ?thesis
  proof (cases batch)
    case (Cons x rest)
    with W_process show ?thesis by (cases x) (blast intro: worker_step.intros)+
  qed (blast intro: worker_step.intros)
next
  case (W_fill batch)
  then show ?thesis using take_or_miss [of s] by (cases "cf_batch c \<le> length batch") (auto simp: not_le intro: worker_step.intros)
qed (use assms take_or_miss [of s] in \<open>blast intro: worker_step.intros\<close>)+

lemma worker_moves:
  assumes "async_reach True c s" "a_stopping s" "a_worker s \<noteq> W_done"
  shows "\<exists>s'. worker_move c s s'"
proof (cases "a_phase s Worker")
  case Ready
  then show ?thesis
    using worker_not_stuck [OF assms(2) orderly_quiet(2) [OF assms(1,2)] assms(3)] by (blast intro: move_step)
next
  case Publishing
  with reach_writers [OF assms(1)] show ?thesis by (simp add: writers_ok_def)
next
  case Releasing
  then show ?thesis by (blast intro: move_release)
qed

lemma worker_finishes:
  assumes "async_reach True c s" "a_stopping s"
  shows "\<exists>n s'. n \<le> work_left s \<and> (worker_move c ^^ n) s s' \<and> a_worker s' = W_done \<and>
    async_reach True c s' \<and> a_stopping s'"
  using assms worker_moves work_decreases move_reach move_stopping
  by (intro measured_run [where R = "worker_move c" and m = work_left]) blast+

end
