(* ===== verification/Async_Flush.thy ===== *)
theory Async_Flush
  imports Async_Ledger
begin

text \<open>
  What \<^verbatim>\<open>flush()\<close> promises: when it returns, outside a shutdown, every event whose dispatch had
  been accepted when it was called has been given to the sinks, and the sinks were flushed after it,
  or it was displaced by the drop-oldest policy.
\<close>

section \<open>Events and writes\<close>

fun events_of :: "queue_item list \<Rightarrow> log_event list" where
  "events_of [] = []"
| "events_of (Log_event e # xs) = e # events_of xs"
| "events_of (Flush_request i # xs) = events_of xs"

fun writes :: "request list \<Rightarrow> log_event list" where
  "writes [] = []"
| "writes (Write e # rs) = e # writes rs"
| "writes (Flush # rs) = writes rs"

lemma events_of_append [simp]: "events_of (xs @ ys) = events_of xs @ events_of ys"
  by (induction xs rule: events_of.induct) auto

lemma writes_append [simp]: "writes (xs @ ys) = writes xs @ writes ys"
  by (induction xs rule: writes.induct) auto

lemma writes_requests [simp]: "writes (map request_of xs) = events_of xs"
  by (induction xs rule: events_of.induct) auto

lemma mset_events_split:
  "mset (events_of (map snd xs)) =
     mset (events_of (map snd (filter fst xs))) + mset (events_of (map snd (filter (\<lambda>x. \<not> fst x) xs)))"
proof (induction xs)
  case (Cons x xs)
  then show ?case by (cases x; cases "snd x") auto
qed simp

lemma events_of_mono: "mset xs \<subseteq># mset ys \<Longrightarrow> mset (events_of xs) \<subseteq># mset (events_of ys)"
proof -
  have img: "mset (events_of zs) = image_mset (\<lambda>x. case x of Log_event e \<Rightarrow> e | Flush_request i \<Rightarrow> undefined)
      (filter_mset (\<lambda>x. case x of Log_event e \<Rightarrow> True | Flush_request i \<Rightarrow> False) (mset zs))" for zs
    by (induction zs rule: events_of.induct) auto
  assume "mset xs \<subseteq># mset ys"
  then show ?thesis unfolding img by (intro image_mset_subseteq_mono multiset_filter_mono)
qed

section \<open>Settled positions\<close>

text \<open>
  The first \<open>n\<close> enqueued items have left the queue, and those the worker took were processed
  before some flush request it processed.
\<close>

definition settled :: "'w async_state \<Rightarrow> nat \<Rightarrow> bool" where
  "settled s n \<longleftrightarrow> n \<le> length (g_taken s) \<and>
     (\<exists>d i. d < length (g_done s) \<and> g_done s ! d = (Flush_request i, True) \<and>
        length (filter fst (take n (g_taken s))) \<le> d)"

lemma settled_grow:
  assumes "settled s n" "g_taken s' = g_taken s @ xs" "g_done s' = g_done s @ ys"
  shows "settled s' n"
proof -
  from assms(1) obtain d i where d: "n \<le> length (g_taken s)" "d < length (g_done s)"
    "g_done s ! d = (Flush_request i, True)" "length (filter fst (take n (g_taken s))) \<le> d"
    by (auto simp: settled_def)
  then show ?thesis
    unfolding settled_def assms(2,3) by (intro conjI exI [of _ d] exI [of _ i]) (auto simp: nth_append)
qed

lemma settled_less:
  assumes "settled s n" "m \<le> n"
  shows "settled s m"
proof -
  have "take n (g_taken s) = take m (g_taken s) @ take (n - m) (drop m (g_taken s))"
    using assms(2) by (metis le_add_diff_inverse take_add)
  then have "length (filter fst (take m (g_taken s))) \<le> length (filter fst (take n (g_taken s)))" by simp
  with assms show ?thesis unfolding settled_def by (meson le_trans)
qed

lemma filter_position:
  "d < length (filter f xs) \<Longrightarrow>
    \<exists>p < length xs. xs ! p = filter f xs ! d \<and> length (filter f (take p xs)) = d"
proof (induction xs arbitrary: d)
  case (Cons x xs)
  show ?case
  proof (cases "f x \<and> d = 0")
    case True
    then show ?thesis by (intro exI [of _ 0]) simp
  next
    case False
    define d' where "d' = (if f x then d - 1 else d)"
    have "d' < length (filter f xs)" using Cons.prems False by (auto simp: d'_def split: if_splits)
    from Cons.IH [OF this] obtain p where
      "p < length xs" "xs ! p = filter f xs ! d'" "length (filter f (take p xs)) = d'" by blast
    with False show ?thesis by (intro exI [of _ "Suc p"]) (auto simp: d'_def nth_Cons')
  qed
qed simp

section \<open>The invariant\<close>

fun flush_ids :: "caller_pc \<Rightarrow> u64 set" where
  "flush_ids (F_stop0 i k) = {i}"
| "flush_ids (F_finish i k) = {i}"
| "flush_ids (F_loop i k) = {i}"
| "flush_ids (F_wake i k) = {i}"
| "flush_ids (F_wake_lock i k) = {i}"
| "flush_ids (F_stop1 i k) = {i}"
| "flush_ids (F_lock i k) = {i}"
| "flush_ids (F_wait i k) = {i}"
| "flush_ids (Fl_wait i) = {i}"
| "flush_ids (E_dropped e (Flush_request i)) = {i}"
| "flush_ids _ = {}"

definition issued :: "'w async_state \<Rightarrow> u64 \<Rightarrow> bool" where
  "issued s i \<longleftrightarrow> 1 \<le> unat i \<and> unat i \<le> length (g_marks s)"

definition mark_of :: "'w async_state \<Rightarrow> u64 \<Rightarrow> nat" where
  "mark_of s i = g_marks s ! (unat i - 1)"

definition marks_ok :: "'w async_state \<Rightarrow> bool" where
  "marks_ok s \<longleftrightarrow> sorted (g_marks s) \<and> (\<forall>m \<in> set (g_marks s). m \<le> length (g_claimed s)) \<and>
     a_next_flush s = of_nat (length (g_marks s))"

definition requests_ok :: "'w async_state \<Rightarrow> bool" where
  "requests_ok s \<longleftrightarrow>
     (\<forall>p i. p < length (g_claimed s) \<longrightarrow> g_claimed s ! p = Flush_request i \<longrightarrow> issued s i \<and> mark_of s i \<le> p) \<and>
     (\<forall>t i. i \<in> flush_ids (a_callers s t) \<longrightarrow> issued s i)"

definition completion_ok :: "'w async_state \<Rightarrow> bool" where
  "completion_ok s \<longleftrightarrow>
     (\<forall>i rest. a_worker s = W_complete i rest \<longrightarrow> issued s i \<and> settled s (mark_of s i)) \<and>
     (\<not> a_stopping s \<longrightarrow> unat (a_completed s) \<le> length (g_marks s) \<and>
        (\<forall>j < unat (a_completed s). settled s (g_marks s ! j)))"

definition flush_inv :: "'w async_state \<Rightarrow> bool" where
  "flush_inv s \<longleftrightarrow> marks_ok s \<and> requests_ok s \<and> completion_ok s"

text \<open>Steps that leave flushes alone: history grows, nothing flush-related changes.\<close>

lemma flush_inv_frame:
  assumes "flush_inv s" and "g_marks s' = g_marks s" "a_next_flush s' = a_next_flush s"
    "g_claimed s' = g_claimed s" "g_taken s' = g_taken s @ xs" "g_done s' = g_done s @ ys"
    "a_completed s' = a_completed s" "a_stopping s' \<or> \<not> a_stopping s"
    "\<And>t i. i \<in> flush_ids (a_callers s' t) \<Longrightarrow> issued s i"
    "\<And>i rest. a_worker s' = W_complete i rest \<Longrightarrow> issued s i \<and> settled s' (mark_of s i)"
  shows "flush_inv s'"
proof -
  have iss: "issued s' = issued s" "mark_of s' = mark_of s"
    using assms(2) by (auto simp: issued_def mark_of_def fun_eq_iff)
  have "settled s n \<Longrightarrow> settled s' n" for n using settled_grow assms(5,6) by blast
  then have "completion_ok s'"
    using assms(1,2,7,8,10) by (auto simp: flush_inv_def completion_ok_def iss)
  moreover have "requests_ok s'"
    using assms(1,4,9) unfolding flush_inv_def requests_ok_def iss by metis
  moreover have "marks_ok s'" using assms(1-4) by (simp add: flush_inv_def marks_ok_def)
  ultimately show ?thesis by (simp add: flush_inv_def)
qed


lemma marks_bound:
  assumes "marks_ok s" "issued s i"
  shows "mark_of s i \<le> length (g_claimed s)"
proof -
  have "unat i - 1 < length (g_marks s)" using assms(2) by (auto simp: issued_def)
  then have "mark_of s i \<in> set (g_marks s)" by (simp add: mark_of_def)
  with assms(1) show ?thesis by (simp add: marks_ok_def)
qed

lemma flush_inv_claim:
  assumes inv: "flush_inv s" and new: "\<And>i. x = Flush_request i \<Longrightarrow> issued s i"
    and ids: "\<And>u i. i \<in> flush_ids (a_callers s' u) \<Longrightarrow> issued s i"
    and s': "g_marks s' = g_marks s" "a_next_flush s' = a_next_flush s" "g_claimed s' = g_claimed s @ [x]"
    "g_taken s' = g_taken s" "g_done s' = g_done s" "a_completed s' = a_completed s"
    "a_stopping s' = a_stopping s" "a_worker s' = a_worker s"
  shows "flush_inv s'"
proof -
  have iss: "issued s' = issued s" "mark_of s' = mark_of s" "settled s' = settled s"
    using s' by (auto simp: issued_def mark_of_def settled_def fun_eq_iff)
  have "requests_ok s'"
    using inv new ids marks_bound [of s] unfolding flush_inv_def requests_ok_def iss s'(3)
    by (auto simp: nth_append less_Suc_eq split: if_splits)
  moreover have "marks_ok s'" using inv s' by (auto simp: flush_inv_def marks_ok_def)
  moreover have "completion_ok s'"
    using inv s' by (simp add: flush_inv_def completion_ok_def iss)
  ultimately show ?thesis by (simp add: flush_inv_def)
qed

text \<open>The flush request the worker has just processed settles its mark.\<close>

lemma processed_settles:
  assumes inv: "flush_inv s" and led: "ledger s" and pc: "a_worker s = W_process (Flush_request i # rest)"
    and s': "g_taken s' = g_taken s" "g_done s' = g_done s @ [(Flush_request i, True)]"
  shows "issued s i \<and> settled s' (mark_of s i)"
proof -
  let ?d = "length (g_done s)"
  have took: "map snd (filter fst (g_taken s)) = map fst (g_done s) @ Flush_request i # rest"
    using led pc by (simp add: ledger_def by_worker_taken_def)
  have len: "?d < length (filter fst (g_taken s))"
    using arg_cong [OF took, of length] by simp
  have "snd (filter fst (g_taken s) ! ?d) = map snd (filter fst (g_taken s)) ! ?d" using len by simp
  also have "\<dots> = Flush_request i" unfolding took by (simp add: nth_append)
  finally have nth: "snd (filter fst (g_taken s) ! ?d) = Flush_request i" .
  from filter_position [OF len] obtain p where p: "p < length (g_taken s)"
    "g_taken s ! p = filter fst (g_taken s) ! ?d" "length (filter fst (take p (g_taken s))) = ?d" by blast
  have "p < length (g_claimed s) \<and> g_claimed s ! p = Flush_request i"
    using led p nth by (simp add: ledger_def nth_append)
  with inv have m: "issued s i" "mark_of s i \<le> p" by (auto simp: flush_inv_def requests_ok_def)
  have "settled s' p" using p unfolding settled_def s' by (auto intro!: exI [of _ ?d] simp: nth_append)
  with m show ?thesis using settled_less by blast
qed

lemma flush_inv_complete:
  assumes inv: "flush_inv s" and pc: "a_worker s = W_complete i rest"
  shows "flush_inv (w_goto (W_process rest) (complete_flush i s))" (is "flush_inv ?s'")
proof -
  have iss: "issued ?s' = issued s" "mark_of ?s' = mark_of s" "settled ?s' = settled s"
    by (auto simp: async_ops issued_def mark_of_def settled_def fun_eq_iff)
  have i: "issued s i" "settled s (mark_of s i)" using inv pc by (auto simp: flush_inv_def completion_ok_def)
  have "settled s (g_marks s ! j)" if "j < unat i" for j
  proof -
    have "g_marks s ! j \<le> mark_of s i"
      using inv i(1) that unfolding mark_of_def issued_def
      by (intro sorted_nth_mono) (auto simp: flush_inv_def marks_ok_def)
    with i(2) show ?thesis by (rule settled_less)
  qed
  then have "completion_ok ?s'"
    using inv i(1) unfolding completion_ok_def iss
    by (auto simp: flush_inv_def completion_ok_def async_ops issued_def)
  with inv show ?thesis
    by (auto simp: flush_inv_def marks_ok_def requests_ok_def iss) (auto simp: async_ops)
qed

lemma flush_inv_ids: "flush_inv s \<Longrightarrow> i \<in> flush_ids (a_callers s t) \<Longrightarrow> issued s i"
  unfolding flush_inv_def requests_ok_def by blast

lemma flush_inv_w_take:
  assumes "flush_inv s" "\<And>i rest. pc \<noteq> W_complete i rest"
  shows "flush_inv (w_goto pc (take_item Worker s))"
  by (rule flush_inv_frame [OF assms(1), where ys = "[]"])
    (use assms in \<open>auto simp: async_ops flush_inv_ids\<close>)

lemma flush_inv_still:
  assumes inv: "flush_inv s" and "g_marks s' = g_marks s" "a_next_flush s' = a_next_flush s"
    "g_claimed s' = g_claimed s" "g_taken s' = g_taken s" "g_done s' = g_done s"
    "a_completed s' = a_completed s" "a_stopping s' \<or> \<not> a_stopping s"
    "\<And>t. flush_ids (a_callers s' t) \<subseteq> flush_ids (a_callers s t)"
    "\<And>i rest. a_worker s' = W_complete i rest \<Longrightarrow> a_worker s = W_complete i rest"
  shows "flush_inv s'"
proof (rule flush_inv_frame [OF inv])
  show "issued s i \<and> settled s' (mark_of s i)" if "a_worker s' = W_complete i rest" for i rest
  proof -
    have "settled s' = settled s" using assms(5,6) by (auto simp: settled_def fun_eq_iff)
    with inv assms(10) [OF that] show ?thesis by (auto simp: flush_inv_def completion_ok_def)
  qed
next
  show "issued s i" if "i \<in> flush_ids (a_callers s' t)" for t i
    using assms(9) flush_inv_ids [OF inv] that by blast
qed (use assms in auto)

lemma flush_inv_worker:
  assumes "worker_step c s s'" "ledger s" "flush_inv s"
  shows "flush_inv s'"
  using assms
proof (induction rule: worker_step.induct)
  case (w_process_flush s i rest)
  let ?s' = "w_goto (W_complete i rest) (settle [(Flush_request i, True)] (flush_sinks c s))"
  have "g_taken ?s' = g_taken s" "g_done ?s' = g_done s @ [(Flush_request i, True)]"
    by (simp_all add: async_ops split: prod.splits)
  then have st: "issued s i \<and> settled ?s' (mark_of s i)"
    by (rule processed_settles [OF w_process_flush(3,2,1)])
  show ?case
    by (rule flush_inv_frame [OF w_process_flush(3), of _ "[]" "[(Flush_request i, True)]"])
      (use st w_process_flush(3) in \<open>auto simp: async_ops flush_inv_def requests_ok_def split: prod.splits\<close>)
next
  case (w_complete s i rest)
  then show ?case by (intro flush_inv_complete)
next
  case (w_process_event s e rest)
  show ?case
    by (rule flush_inv_frame [OF w_process_event(3), of _ "[]" "[(Log_event e, True)]"])
      (use w_process_event(3) in \<open>auto simp: async_ops flush_inv_def requests_ok_def split: prod.splits\<close>)
next
  case (w_decide_stop s held)
  show ?case
    by (rule flush_inv_frame [OF w_decide_stop(4), of _ "[]" "held_item held"])
      (use w_decide_stop(4) in \<open>auto simp: async_ops flush_inv_def requests_ok_def\<close>)
next
  case (w_deq1_take s x)
  then show ?case by (intro flush_inv_w_take) auto
next
  case (w_deq2_take s x)
  then show ?case by (intro flush_inv_w_take) auto
next
  case (w_drain_take s batch x)
  then show ?case by (intro flush_inv_w_take) auto
next
  case (w_fill_take s batch x)
  then show ?case by (intro flush_inv_w_take) auto
qed (erule flush_inv_still; simp add: async_ops split: prod.splits if_splits)+

lemma flush_inv_queue: "queue_step s s' \<Longrightarrow> flush_inv s \<Longrightarrow> flush_inv s'"
  by (induction rule: queue_step.induct) (erule flush_inv_still; simp add: async_ops)+

lemma flush_inv_c_take:
  assumes "flush_inv s" "ledger s" "can_take x s"
  shows "flush_inv (c_goto t (E_dropped e x) (take_item (Caller t) s))"
proof -
  have "length (g_taken s) < length (g_claimed s)" "g_claimed s ! length (g_taken s) = x"
    using assms(2,3) by (auto simp: ledger_def nth_append elim!: can_takeE)
  with assms(1) have "issued s i" if "x = Flush_request i" for i
    using that by (auto simp: flush_inv_def requests_ok_def)
  then have ids: "issued s i" if "i \<in> flush_ids (E_dropped e x)" for i
    using that by (cases x) auto
  show ?thesis
    by (rule flush_inv_frame [OF assms(1), where ys = "[]"])
      (use assms(1) ids in \<open>auto simp: async_ops flush_inv_def requests_ok_def completion_ok_def
        intro: settled_grow split: if_splits\<close>)
qed

lemma flush_inv_event:
  assumes "event_step c t s s'" "ledger s" "flush_inv s"
  shows "flush_inv s'"
  using assms
proof (induction rule: event_step.induct)
  case (e_drop_oldest s e x)
  then show ?case by (intro flush_inv_c_take)
next
  case (e_try0_claim s e)
  show ?case
    by (rule flush_inv_claim [OF e_try0_claim(4), of "Log_event e"])
      (use flush_inv_ids [OF e_try0_claim(4)] in \<open>auto simp: async_ops split: if_splits\<close>)
next
  case (e_loop_claim s e)
  show ?case
    by (rule flush_inv_claim [OF e_loop_claim(4), of "Log_event e"])
      (use flush_inv_ids [OF e_loop_claim(4)] in \<open>auto simp: async_ops split: if_splits\<close>)
qed (erule flush_inv_still; simp add: async_ops)+

lemma flush_inv_flush:
  assumes "flush_step c t s s'" "loss_ok s" "flush_inv s"
  shows "flush_inv s'"
  using assms
proof (induction rule: flush_step.induct)
  case (f_claim s i k)
  then have i: "issued s i" using flush_inv_ids [of s i t] by simp
  show ?case
    by (rule flush_inv_claim [OF f_claim(4), of "Flush_request i"])
      (use i flush_inv_ids [OF f_claim(4)] in \<open>auto simp: async_ops split: if_splits\<close>)
next
  case (f_finish s i k)
  let ?s' = "flush_return t i k (complete_flush i s)"
  have st: "a_stopping s" using f_finish(1,2) unfolding loss_ok_def by blast
  have i: "issued s i" using f_finish flush_inv_ids [of s i t] by simp
  have ids: "j \<in> flush_ids (a_callers ?s' u) \<Longrightarrow> issued s j" for j u
    using i flush_inv_ids [OF f_finish(3), of j u] by (auto simp: async_ops split: if_splits flush_cont.splits)
  have same: "issued ?s' = issued s" "mark_of ?s' = mark_of s" "settled ?s' = settled s"
    "g_claimed ?s' = g_claimed s" "a_stopping ?s' = a_stopping s" "a_worker ?s' = a_worker s"
    "g_marks ?s' = g_marks s" "a_next_flush ?s' = a_next_flush s"
    by (auto simp: async_ops issued_def mark_of_def settled_def fun_eq_iff)
  from f_finish(3) st ids show ?case
    by (simp add: flush_inv_def marks_ok_def requests_ok_def completion_ok_def same)
qed (erule flush_inv_still; simp add: async_ops split: flush_cont.splits)+


lemma flush_inv_shutdown:
  assumes "shutdown_step t s s'" "loss_ok s" "flush_inv s"
  shows "flush_inv s'"
  using assms
proof (induction rule: shutdown_step.induct)
  case (s_complete s)
  let ?s' = "c_goto t S_join (s\<lparr>a_completed := - 1\<rparr>)"
  have st: "a_stopping s" using s_complete(1,2) unfolding loss_ok_def by blast
  have ids: "j \<in> flush_ids (a_callers ?s' u) \<Longrightarrow> issued s j" for j u
    using flush_inv_ids [OF s_complete(3), of j u] by (auto simp: async_ops split: if_splits)
  have same: "issued ?s' = issued s" "mark_of ?s' = mark_of s" "settled ?s' = settled s"
    "g_claimed ?s' = g_claimed s" "a_stopping ?s' = a_stopping s" "a_worker ?s' = a_worker s"
    "g_marks ?s' = g_marks s" "a_next_flush ?s' = a_next_flush s"
    by (auto simp: async_ops issued_def mark_of_def settled_def fun_eq_iff)
  from s_complete(3) st ids show ?case
    by (simp add: flush_inv_def marks_ok_def requests_ok_def completion_ok_def same)
qed (erule flush_inv_still; simp add: async_ops)+

lemma flush_inv_begin:
  assumes inv: "flush_inv s" and few: "length (g_marks s) + 1 < 2 ^ 64"
  shows "flush_inv (c_goto t (F_stop0 (a_next_flush s + 1) K_flush)
    (s\<lparr>a_next_flush := a_next_flush s + 1, g_marks := g_marks s @ [length (g_claimed s)]\<rparr>))"
proof -
  define s' where "s' = c_goto t (F_stop0 (a_next_flush s + 1) K_flush)
    (s\<lparr>a_next_flush := a_next_flush s + 1, g_marks := g_marks s @ [length (g_claimed s)]\<rparr>)"
  have next_id: "a_next_flush s + 1 = of_nat (length (g_marks s) + 1)"
    using inv by (simp add: flush_inv_def marks_ok_def)
  have new: "unat (a_next_flush s + 1) = length (g_marks s) + 1"
    unfolding next_id using few by (simp only: unsigned_of_nat) (simp add: take_bit_nat_eq_self)
  have iss: "issued s i \<Longrightarrow> issued s' i \<and> mark_of s' i = mark_of s i" for i
    by (auto simp: s'_def c_goto_def issued_def mark_of_def nth_append)
  have fresh: "issued s' (a_next_flush s + 1)" using new by (simp add: issued_def) (simp add: s'_def c_goto_def)
  have same: "settled s' = settled s" "g_claimed s' = g_claimed s" "a_stopping s' = a_stopping s"
    "a_worker s' = a_worker s" "a_completed s' = a_completed s"
    "g_marks s' = g_marks s @ [length (g_claimed s)]" "a_next_flush s' = a_next_flush s + 1"
    by (auto simp: s'_def c_goto_def settled_def fun_eq_iff)
  have "marks_ok s'"
    using inv by (auto simp: flush_inv_def marks_ok_def same sorted_append)
  moreover have "requests_ok s'"
    unfolding requests_ok_def same
  proof (intro conjI allI impI)
    fix p i
    assume "p < length (g_claimed s)" "g_claimed s ! p = Flush_request i"
    then have "issued s i \<and> mark_of s i \<le> p" using inv by (auto simp: flush_inv_def requests_ok_def)
    then show "issued s' i" "mark_of s' i \<le> p" using iss by auto
  next
    fix u i
    assume "i \<in> flush_ids (a_callers s' u)"
    then have "i = a_next_flush s + 1 \<or> i \<in> flush_ids (a_callers s u)"
      by (auto simp: s'_def c_goto_def split: if_splits)
    then show "issued s' i" using fresh iss flush_inv_ids [OF inv] by blast
  qed
  moreover have "completion_ok s'"
    using inv iss by (auto simp: flush_inv_def completion_ok_def same nth_append)
  ultimately show ?thesis unfolding s'_def [symmetric] by (simp add: flush_inv_def)
qed

lemma flush_inv_call:
  assumes "call_step orderly t s s'" "flush_inv s" "length (g_marks s') < 2 ^ 64"
  shows "flush_inv s'"
  using assms
proof (induction rule: call_step.induct)
  case (call_flush s)
  then show ?case by (intro flush_inv_begin) (simp_all add: async_ops)
qed (erule flush_inv_still; simp add: async_ops)+

lemma marks_grow:
  "queue_step s s' \<Longrightarrow> g_marks s' = g_marks s"
  "worker_step c s s' \<Longrightarrow> g_marks s' = g_marks s"
  "event_step c t s s' \<Longrightarrow> g_marks s' = g_marks s"
  "flush_step c t s s' \<Longrightarrow> g_marks s' = g_marks s"
  "shutdown_step t s s' \<Longrightarrow> g_marks s' = g_marks s"
  "call_step orderly t s s' \<Longrightarrow> length (g_marks s) \<le> length (g_marks s')"
  by (erule queue_step.cases worker_step.cases event_step.cases flush_step.cases shutdown_step.cases
      call_step.cases; simp add: async_ops split: prod.splits)+

lemma reach_flush: "async_reach orderly c s \<Longrightarrow> length (g_marks s) < 2 ^ 64 \<longrightarrow> flush_inv s"
proof (induction rule: async_invariant)
  case (init w)
  show ?case
    by (simp add: flush_inv_def marks_ok_def requests_ok_def completion_ok_def async_init_def)
next
  case (queue s s')
  with marks_grow(1) flush_inv_queue show ?case by metis
next
  case (worker s s')
  with marks_grow(2) flush_inv_worker reach_ledger show ?case by metis
next
  case (event s s' t)
  with marks_grow(3) flush_inv_event reach_ledger show ?case by metis
next
  case (flush s s' t)
  with marks_grow(4) flush_inv_flush reach_loss show ?case by metis
next
  case (shutdown s s' t)
  with marks_grow(5) flush_inv_shutdown reach_loss show ?case by metis
next
  case (call s s' t)
  with marks_grow(6) [OF call(3)] flush_inv_call [OF call(3)] show ?case by auto
qed

section \<open>What a returning flush has achieved\<close>

lemma mset_take_le: "k \<le> d \<Longrightarrow> mset (take k xs) \<subseteq># mset (take d xs)"
proof -
  assume "k \<le> d"
  then have "take d xs = take k xs @ take (d - k) (drop k xs)" by (metis le_add_diff_inverse take_add)
  then show ?thesis by simp
qed

lemma settled_written:
  assumes led: "ledger s" and keep: "lost_items s = []" and st: "settled s n"
  shows "\<exists>pre post. g_trace s = pre @ Flush # post \<and>
    mset (events_of (take n (g_claimed s))) \<subseteq># mset (writes pre) + mset (events_of (displaced s))"
proof -
  from st obtain d i where n: "n \<le> length (g_taken s)" and d: "d < length (g_done s)"
    "g_done s ! d = (Flush_request i, True)" "length (filter fst (take n (g_taken s))) \<le> d"
    by (auto simp: settled_def)
  have all: "filter snd (g_done s) = g_done s"
    using keep by (auto simp: lost_items_def filter_empty_conv intro!: filter_True)
  define pre where "pre = map (\<lambda>x. request_of (fst x)) (take d (g_done s))"
  have "g_done s = take d (g_done s) @ (Flush_request i, True) # drop (Suc d) (g_done s)"
    by (rule id_take_nth_drop [OF d(1), unfolded d(2)])
  then have "map (\<lambda>x. request_of (fst x)) (g_done s) =
      pre @ Flush # map (\<lambda>x. request_of (fst x)) (drop (Suc d) (g_done s))"
    unfolding pre_def by (metis (no_types, lifting) fst_conv list.simps(9) map_append request_of.simps(2))
  moreover have "g_trace s = map (\<lambda>x. request_of (fst x)) (g_done s) @
      (if a_worker s = W_done then [Flush] else [])"
    using led all by (simp add: ledger_def)
  ultimately have "\<exists>post. g_trace s = pre @ Flush # post" by simp
  moreover have "mset (events_of (take n (g_claimed s))) \<subseteq># mset (writes pre) + mset (events_of (displaced s))"
  proof -
    let ?tk = "take n (g_taken s)"
    have "take n (g_claimed s) = map snd ?tk" using led n by (simp add: ledger_def take_map)
    then have split: "mset (events_of (take n (g_claimed s))) = mset (events_of (map snd (filter fst ?tk))) +
        mset (events_of (map snd (filter (\<lambda>x. \<not> fst x) ?tk)))"
      using mset_events_split [of ?tk] by simp
    have whole: "g_taken s = ?tk @ drop n (g_taken s)" by simp
    have "map snd (filter fst ?tk) = take (length (filter fst ?tk)) (map snd (filter fst (g_taken s)))"
      by (subst (3) whole) (simp only: filter_append map_append, simp)
    also have "\<dots> = take (length (filter fst ?tk)) (map fst (g_done s))"
      using led d(1,3) by (simp add: ledger_def by_worker_taken_def)
    finally have "mset (map snd (filter fst ?tk)) \<subseteq># mset (map fst (take d (g_done s)))"
      using d(3) mset_take_le by (metis take_map)
    then have "mset (events_of (map snd (filter fst ?tk))) \<subseteq># mset (events_of (map fst (take d (g_done s))))"
      by (rule events_of_mono)
    also have "events_of (map fst (take d (g_done s))) = writes pre"
      using writes_requests [of "map fst (take d (g_done s))"] by (simp add: pre_def comp_def)
    finally have 1: "mset (events_of (map snd (filter fst ?tk))) \<subseteq># mset (writes pre)" .
    have "mset (map snd (filter (\<lambda>x. \<not> fst x) ?tk)) \<subseteq># mset (displaced s)"
      unfolding displaced_def by (subst (2) whole) (simp only: filter_append map_append mset_append, simp)
    then have 2: "mset (events_of (map snd (filter (\<lambda>x. \<not> fst x) ?tk))) \<subseteq># mset (events_of (displaced s))"
      by (rule events_of_mono)
    from 1 2 show ?thesis unfolding split by (rule subset_mset.add_mono)
  qed
  ultimately show ?thesis by blast
qed

end
