(* ===== verification/Async_Runs.thy ===== *)
theory Async_Runs
  imports Async_Shutdown Async_Flush
begin

text \<open>
  An executable scheduler for the dispatcher's threads, and concrete runs of the asynchronous dispatcher.
\<close>

section \<open>Executing steps\<close>

definition ready_item :: "'w async_state \<Rightarrow> queue_item option" where
  "ready_item s = (case a_items s of (x, None) # ys \<Rightarrow> Some x | _ \<Rightarrow> None)"

lemma ready_itemD:
  "ready_item s = Some x \<Longrightarrow> can_take x s" "ready_item s = None \<Longrightarrow> can_miss s"
  by (auto simp: ready_item_def can_take_def can_miss_def split: list.splits option.splits)

text \<open>A step of the worker, or of the caller \<open>t\<close>; a thread that cannot move stays where it is.\<close>

definition worker_exec :: "('s, 'w) async_config \<Rightarrow> 'w async_state \<Rightarrow> 'w async_state" where
  "worker_exec c s =
     (case a_worker s of
        W_check1 \<Rightarrow> w_goto (if a_stopping s then W_decide None else W_deq1) s
      | W_deq1 \<Rightarrow> (case ready_item s of Some x \<Rightarrow> w_goto (W_decide (Some x)) (take_item Worker s)
                   | None \<Rightarrow> w_goto W_sleep s)
      | W_sleep \<Rightarrow> w_goto W_deq2 (s\<lparr>a_sleeping := True\<rparr>)
      | W_deq2 \<Rightarrow> (case ready_item s of Some x \<Rightarrow> w_goto (W_clear x) (take_item Worker s)
                   | None \<Rightarrow> w_goto W_check2 s)
      | W_clear x \<Rightarrow> w_goto (W_decide (Some x)) (s\<lparr>a_sleeping := False\<rparr>)
      | W_check2 \<Rightarrow> w_goto (if a_stopping s then W_decide None else W_lock) s
      | W_lock \<Rightarrow> if mutex_free s
                  then w_goto (if a_stopping s \<or> \<not> a_sleeping s then W_check1 else W_wait) s else s
      | W_wait \<Rightarrow> if mutex_free s then w_goto W_check1 s else s
      | W_decide held \<Rightarrow>
          if a_stopping s then w_goto (W_drain []) (settle (held_item held) s)
          else (case held of Some x \<Rightarrow> w_goto (W_fill [x]) s | None \<Rightarrow> s)
      | W_drain batch \<Rightarrow>
          (case ready_item s of
             Some x \<Rightarrow> w_goto (if cf_batch c \<le> length (batch @ [x]) then W_notify (batch @ [x])
                               else W_drain (batch @ [x])) (take_item Worker s)
           | None \<Rightarrow> w_goto (if batch = [] then W_final else W_notify batch) s)
      | W_fill batch \<Rightarrow>
          if cf_batch c \<le> length batch then w_goto (W_notify batch) s
          else (case ready_item s of Some x \<Rightarrow> w_goto (W_fill (batch @ [x])) (take_item Worker s)
                | None \<Rightarrow> w_goto (W_notify batch) s)
      | W_notify batch \<Rightarrow> if mutex_free s then w_goto (W_process batch) s else s
      | W_process batch \<Rightarrow>
          (case batch of
             [] \<Rightarrow> w_goto W_check1 s
           | Log_event e # rest \<Rightarrow> w_goto (W_process rest) (settle [(Log_event e, True)] (write_event c e s))
           | Flush_request i # rest \<Rightarrow>
               w_goto (W_complete i rest) (settle [(Flush_request i, True)] (flush_sinks c s)))
      | W_complete i rest \<Rightarrow> w_goto (W_process rest) (complete_flush i s)
      | W_final \<Rightarrow> w_goto W_done (flush_sinks c s)
      | W_done \<Rightarrow> s)"

lemma worker_exec_step: "worker_exec c s = s \<or> worker_step c s (worker_exec c s)"
proof (cases "a_worker s")
  case (W_deq1)
  then show ?thesis
    by (cases "ready_item s") (auto simp: worker_exec_def intro: worker_step.intros ready_itemD)
next
  case (W_deq2)
  then show ?thesis
    by (cases "ready_item s") (auto simp: worker_exec_def intro: worker_step.intros ready_itemD)
next
  case (W_drain batch)
  then show ?thesis
    using w_drain_take [OF W_drain, of _ c] w_drain_miss [OF W_drain, of c]
    by (cases "ready_item s") (auto simp: worker_exec_def dest: ready_itemD)
next
  case (W_fill batch)
  then show ?thesis
    by (cases "ready_item s") (auto simp: worker_exec_def not_le intro: worker_step.intros ready_itemD)
next
  case (W_process batch)
  then show ?thesis
    by (auto simp: worker_exec_def intro: worker_step.intros split: list.splits queue_item.splits)
qed (auto simp: worker_exec_def intro: worker_step.intros split: option.splits)

definition event_exec :: "('s, 'w) async_config \<Rightarrow> nat \<Rightarrow> 'w async_state \<Rightarrow> 'w async_state" where
  "event_exec c t s =
     (case a_callers s t of
        E_stop0 e \<Rightarrow> if a_stopping s then reject t e s else c_goto t (E_try0 e) s
      | E_try0 e \<Rightarrow> if can_claim c s then c_goto t E_wake (claim (Caller t) (Log_event e) s)
                    else if length (a_items s) = cf_capacity c then c_goto t (E_loop e) s else s
      | E_loop e \<Rightarrow> if can_claim c s then c_goto t E_wake (claim (Caller t) (Log_event e) s)
                    else if length (a_items s) = cf_capacity c then c_goto t (E_stop1 e) s else s
      | E_wake \<Rightarrow> if a_sleeping s then c_goto t E_wake_lock s else return_to_caller t s
      | E_wake_lock \<Rightarrow> if may_lock t s then return_to_caller t (s\<lparr>a_sleeping := False\<rparr>) else s
      | E_stop1 e \<Rightarrow> if a_stopping s then reject t e s else c_goto t (E_policy e) s
      | E_policy e \<Rightarrow>
          (case overflow (cf_options c) of
             Drop_newest \<Rightarrow> reject t e s
           | Block \<Rightarrow> c_goto t (E_lock e) s
           | Drop_oldest \<Rightarrow>
               (case ready_item s of Some x \<Rightarrow> c_goto t (E_dropped e x) (take_item (Caller t) s)
                | None \<Rightarrow> c_goto t (E_loop e) s))
      | E_dropped e x \<Rightarrow>
          c_goto t (case x of Log_event d \<Rightarrow> E_loop e | Flush_request i \<Rightarrow> F_stop0 i (K_retry e))
            (s\<lparr>a_dropped := a_dropped s + 1\<rparr>)
      | E_lock e \<Rightarrow> if may_lock t s then c_goto t (E_wait e) (s\<lparr>a_mutex := None\<rparr>) else s
      | E_wait e \<Rightarrow> if a_mutex s = None then c_goto t (E_loop e) (s\<lparr>a_mutex := Some (Caller t)\<rparr>) else s
      | _ \<Rightarrow> s)"

lemma event_exec_step: "event_exec c t s = s \<or> event_step c t s (event_exec c t s)"
proof (cases "a_callers s t")
  case (E_policy e)
  then show ?thesis
    by (cases "ready_item s"; cases "overflow (cf_options c)")
      (auto simp: event_exec_def intro: event_step.intros ready_itemD)
next
  case (E_dropped e x)
  then show ?thesis by (cases x) (auto simp: event_exec_def intro: event_step.intros)
qed (auto simp: event_exec_def can_refuse_def intro: event_step.intros)

definition flush_exec :: "('s, 'w) async_config \<Rightarrow> nat \<Rightarrow> 'w async_state \<Rightarrow> 'w async_state" where
  "flush_exec c t s =
     (case a_callers s t of
        F_stop0 i k \<Rightarrow> c_goto t (if a_stopping s then F_finish i k else F_loop i k) s
      | F_finish i k \<Rightarrow> flush_return t i k (complete_flush i s)
      | F_loop i k \<Rightarrow> if can_claim c s then c_goto t (F_wake i k) (claim (Caller t) (Flush_request i) s)
                      else if length (a_items s) = cf_capacity c then c_goto t (F_stop1 i k) s else s
      | F_wake i k \<Rightarrow> if a_sleeping s then c_goto t (F_wake_lock i k) s else flush_return t i k s
      | F_wake_lock i k \<Rightarrow> if may_lock t s then flush_return t i k (s\<lparr>a_sleeping := False\<rparr>) else s
      | F_stop1 i k \<Rightarrow> c_goto t (if a_stopping s then F_finish i k else F_lock i k) s
      | F_lock i k \<Rightarrow> if may_lock t s then c_goto t (F_wait i k) (s\<lparr>a_mutex := None\<rparr>) else s
      | F_wait i k \<Rightarrow> if a_mutex s = None then c_goto t (F_loop i k) (s\<lparr>a_mutex := Some (Caller t)\<rparr>) else s
      | Fl_wait i \<Rightarrow> if i \<le> a_completed s then c_goto t C_idle s else s
      | _ \<Rightarrow> s)"

lemma flush_exec_step: "flush_exec c t s = s \<or> flush_step c t s (flush_exec c t s)"
  by (cases "a_callers s t") (auto simp: flush_exec_def can_refuse_def intro: flush_step.intros)

definition shutdown_exec :: "nat \<Rightarrow> 'w async_state \<Rightarrow> 'w async_state" where
  "shutdown_exec t s =
     (case a_callers s t of
        S_exchange \<Rightarrow> if a_stopping s then c_goto t C_idle s else c_goto t S_lock (s\<lparr>a_stopping := True\<rparr>)
      | S_lock \<Rightarrow> if mutex_free s then c_goto t S_complete (s\<lparr>a_sleeping := False\<rparr>) else s
      | S_complete \<Rightarrow> c_goto t S_join (s\<lparr>a_completed := - 1\<rparr>)
      | S_join \<Rightarrow> if a_worker s = W_done then c_goto t C_idle s else s
      | _ \<Rightarrow> s)"

lemma shutdown_exec_step: "shutdown_exec t s = s \<or> shutdown_step t s (shutdown_exec t s)"
  by (cases "a_callers s t") (auto simp: shutdown_exec_def intro: shutdown_step.intros)

fun in_flush :: "caller_pc \<Rightarrow> bool" where
  "in_flush (F_stop0 i k) = True"
| "in_flush (F_finish i k) = True"
| "in_flush (F_loop i k) = True"
| "in_flush (F_wake i k) = True"
| "in_flush (F_wake_lock i k) = True"
| "in_flush (F_stop1 i k) = True"
| "in_flush (F_lock i k) = True"
| "in_flush (F_wait i k) = True"
| "in_flush (Fl_wait i) = True"
| "in_flush _ = False"

text \<open>The scheduler runs a thread: the pending half of its queue operation first.\<close>

definition run_thread :: "('s, 'w) async_config \<Rightarrow> thread \<Rightarrow> 'w async_state \<Rightarrow> 'w async_state" where
  "run_thread c th s =
     (case a_phase s th of
        Publishing \<Rightarrow> publish th s
      | Releasing \<Rightarrow> release th s
      | Ready \<Rightarrow>
          (case th of
             Worker \<Rightarrow> worker_exec c s
           | Caller t \<Rightarrow>
               if in_shutdown (a_callers s t) then shutdown_exec t s
               else if in_flush (a_callers s t) then flush_exec c t s else event_exec c t s))"

lemma run_thread_step: "run_thread c th s = s \<or> inner_step c s (run_thread c th s)"
proof (cases "a_phase s th")
  case Ready
  then show ?thesis
    using worker_exec_step [of c s] event_exec_step [of c _ s] flush_exec_step [of c _ s]
      shutdown_exec_step [of _ s]
    by (cases th) (auto simp: run_thread_def intro: inner_intros)
qed (auto simp: run_thread_def intro: inner_intros q_publish q_release)

lemma run_thread_reach: "async_reach orderly c s \<Longrightarrow> async_reach orderly c (run_thread c th s)"
  using run_thread_step [of c th s] by (metis reach_step inner_async)

lemma run_inner: "(inner_step c)\<^sup>*\<^sup>* s (fold (run_thread c) ths s)"
proof (induction ths arbitrary: s)
  case (Cons th ths)
  have "(inner_step c)\<^sup>*\<^sup>* s (run_thread c th s)"
    using run_thread_step [of c th s] by (metis r_into_rtranclp rtranclp.rtrancl_refl)
  with Cons show ?case by (metis comp_apply fold_simps(2) rtranclp_trans)
qed simp

lemma run_steps: "(async_step orderly c)\<^sup>*\<^sup>* s (fold (run_thread c) ths s)"
  using run_inner by (rule mono_rtranclp [rule_format, rotated]) (rule inner_async)

section \<open>Concrete runs\<close>

definition demo_config :: "overflow_policy \<Rightarrow> (unit, unit) async_config" where
  "demo_config policy =
     \<lparr>cf_options = \<lparr>queue_capacity = 2, overflow = policy, batch_size = 2, block_retry_timeout = 5000\<rparr>,
      cf_impl = noop_sink, cf_sinks = [()]\<rparr>"

lemma round_up_two: "round_up_to_power_of_2 2 = 2"
  by (simp add: round_up_to_power_of_2_def word_le_nat_alt)

lemma demo_bounds: "cf_capacity (demo_config p) = 2" "cf_batch (demo_config p) = 2"
  by (simp_all add: cf_capacity_def cf_batch_def demo_config_def round_up_two)

lemma demo_reach: "async_reach orderly (demo_config p) (async_init ())"
  by (rule reach_init) (simp add: new_async_dispatcher_def demo_config_def round_up_two mpsc_new_def)

definition begin_dispatch :: "nat \<Rightarrow> log_event \<Rightarrow> 'w async_state \<Rightarrow> 'w async_state" where
  "begin_dispatch t e s = c_goto t (E_stop0 e) s"

definition begin_flush :: "nat \<Rightarrow> 'w async_state \<Rightarrow> 'w async_state" where
  "begin_flush t s = c_goto t (F_stop0 (a_next_flush s + 1) K_flush)
     (s\<lparr>a_next_flush := a_next_flush s + 1, g_marks := g_marks s @ [length (g_claimed s)]\<rparr>)"

definition begin_shutdown :: "nat \<Rightarrow> 'w async_state \<Rightarrow> 'w async_state" where
  "begin_shutdown t s = c_goto t S_exchange s"

lemma begin_reach:
  assumes "async_reach orderly c s" "a_callers s = (\<lambda>t. C_idle)" "a_phase s = (\<lambda>th. Ready)" "\<not> a_stopping s"
  shows "async_reach orderly c (begin_dispatch t e s)" "async_reach orderly c (begin_flush t s)"
    "async_reach orderly c (begin_shutdown t s)"
  using assms unfolding begin_dispatch_def begin_flush_def begin_shutdown_def
  by (auto intro!: reach_step [OF assms(1)] by_call [of _ t] call_step.intros)

lemma run_reach: "async_reach orderly c s \<Longrightarrow> async_reach orderly c (fold (run_thread c) ths s)"
  by (rule steps_reach [OF run_steps])

lemmas run_eval = run_thread_def worker_exec_def event_exec_def flush_exec_def shutdown_exec_def
  ready_item_def can_claim_def mutex_free_def may_lock_def held_item_def
  w_goto_def c_goto_def claim_def publish_def take_item_def release_def settle_def unlock_def
  return_to_caller_def reject_def flush_return_def complete_flush_def
  write_event_def flush_sinks_def demo_bounds

lemma const_upd: "(\<lambda>t. v)(x := v) = (\<lambda>t. v)"
  by auto

lemma demo_sinks [simp]:
  "safe_write (cf_impl (demo_config p)) (cf_sinks (demo_config p)) e (f, w) = (f, w)"
  "safe_flush_sinks (cf_impl (demo_config p)) (cf_sinks (demo_config p)) (f, w) = (f, w)"
  by (simp_all add: demo_config_def noop_sink_def)

text \<open>
  The worker takes the only event, the destructor sets \<open>stopping_\<close> before the worker tests it
  again, and the event is gone.
\<close>

definition accepted_run :: "log_event \<Rightarrow> unit async_state" where
  "accepted_run e = fold (run_thread (demo_config Drop_newest))
     [Caller 0, Caller 0, Caller 0, Caller 0, Worker, Worker, Worker]
     (begin_dispatch 0 e (async_init ()))"

definition lossy_run :: "log_event \<Rightarrow> unit async_state" where
  "lossy_run e = fold (run_thread (demo_config Drop_newest))
     [Caller 0, Worker, Worker, Worker, Caller 0, Caller 0, Caller 0]
     (begin_shutdown 0 (accepted_run e))"

lemma accepted_eval:
  "accepted_run e = (async_init ())\<lparr>a_worker := W_decide (Some (Log_event e)), g_claimed := [Log_event e],
     g_taken := [(True, Log_event e)]\<rparr>"
  by (simp add: accepted_run_def begin_dispatch_def async_init_def run_eval const_upd)

lemma accepted_reach: "async_reach orderly (demo_config Drop_newest) (accepted_run e)"
  unfolding accepted_run_def
  by (intro run_reach begin_reach demo_reach) (simp_all add: async_init_def)

lemma lossy_eval:
  "lossy_run e = (async_init ())\<lparr>a_worker := W_done, a_stopping := True, a_completed := - 1,
     g_claimed := [Log_event e], g_taken := [(True, Log_event e)],
     g_done := [(Log_event e, False)], g_trace := [Flush]\<rparr>"
  by (simp add: lossy_run_def accepted_eval begin_shutdown_def async_init_def run_eval const_upd)

lemma lossy_reach: "async_reach orderly (demo_config Drop_newest) (lossy_run e)"
  unfolding lossy_run_def
  by (intro run_reach begin_reach accepted_reach) (simp_all add: accepted_eval async_init_def)

text \<open>The same event flushed instead: the flush returns when the worker has completed it.\<close>

definition flushed_run :: "log_event \<Rightarrow> unit async_state" where
  "flushed_run e = fold (run_thread (demo_config Drop_newest))
     [Caller 0, Caller 0, Caller 0, Caller 0, Worker, Worker, Worker, Worker, Worker, Worker, Worker, Worker, Worker, Worker]
     (begin_flush 0 (accepted_run e))"

lemma flushed_eval:
  "a_callers (flushed_run e) 0 = Fl_wait 1" "a_completed (flushed_run e) = 1"
  "g_marks (flushed_run e) = [1]" "g_claimed (flushed_run e) = [Log_event e, Flush_request 1]"
  "g_trace (flushed_run e) = [Write e, Flush]" "displaced (flushed_run e) = []"
  "a_stopping (flushed_run e) = False" "a_phase (flushed_run e) (Caller 0) = Ready"
  by (simp_all add: flushed_run_def accepted_eval begin_flush_def async_init_def run_eval displaced_def)

lemma flushed_reach: "async_reach orderly (demo_config Drop_newest) (flushed_run e)"
  unfolding flushed_run_def
  by (intro run_reach begin_reach accepted_reach) (simp_all add: accepted_eval async_init_def)

text \<open>Two sinks, of which the first throws.\<close>

definition throwing_config :: "(bool, unit) async_config" where
  "throwing_config =
     \<lparr>cf_options = \<lparr>queue_capacity = 2, overflow = Drop_newest, batch_size = 2, block_retry_timeout = 5000\<rparr>,
      cf_impl = \<lparr>sink_write = (\<lambda>k event w. (k, w)), sink_flush = (\<lambda>k w. (k, w))\<rparr>, cf_sinks = [True, False]\<rparr>"

definition throwing_run :: "log_event \<Rightarrow> (bool sink_call list \<times> unit) async_state" where
  "throwing_run e = fold (run_thread (recorded throwing_config))
     [Caller 0, Caller 0, Caller 0, Caller 0, Worker, Worker, Worker, Worker, Worker, Worker, Worker]
     (begin_dispatch 0 e (async_init ([], ())))"

lemma throwing_new: "new_async_dispatcher (recorded throwing_config) ([], ()) = Inr (async_init ([], ()))"
  by (simp add: new_async_dispatcher_def throwing_config_def recorded_def round_up_two mpsc_new_def)

lemma throwing_steps: "(async_step orderly (recorded throwing_config))\<^sup>*\<^sup>* (async_init ([], ())) (throwing_run e)"
proof -
  let ?s = "async_init ([], ()) :: (bool sink_call list \<times> unit) async_state"
  have "async_step orderly (recorded throwing_config) ?s (begin_dispatch 0 e ?s)"
    unfolding begin_dispatch_def by (intro by_call [of _ 0] call_dispatch) (simp_all add: async_init_def)
  with run_steps show ?thesis unfolding throwing_run_def by (rule converse_rtranclp_into_rtranclp [rotated])
qed

lemma throwing_facts:
  "cf_capacity (recorded throwing_config) = 2" "cf_batch (recorded throwing_config) = 2"
  "safe_write (cf_impl (recorded throwing_config)) (cf_sinks (recorded throwing_config)) e (f, log, w) =
     (f + 1, log @ [\<lparr>called_sink = True, called_with = Write e, call_threw = True\<rparr>,
       \<lparr>called_sink = False, called_with = Write e, call_threw = False\<rparr>], w)"
  by (simp_all add: cf_capacity_def cf_batch_def recorded_def throwing_config_def round_up_two)

lemma throwing_eval:
  "a_worker (throwing_run e) = W_process []" "g_done (throwing_run e) = [(Log_event e, True)]"
  by (simp_all add: throwing_run_def begin_dispatch_def async_init_def run_eval const_upd throwing_facts)

end
