(* ===== verification/Async_Callers.thy ===== *)
theory Async_Callers
  imports Async_Runs
begin

text \<open>
  The calls of \<^verbatim>\<open>dispatch\<close> of the asynchronous dispatcher: every event given to one was enqueued, rejected, or
  is still held by its call (\<open>dispatched_given\<close>); and with the drop-newest policy a call is at every moment a
  bounded number of steps from its return.
\<close>

section \<open>The events given to dispatch\<close>

text \<open>The event a call still holds, not yet enqueued and not rejected.\<close>

fun cont_event :: "flush_cont \<Rightarrow> log_event option" where
  "cont_event K_flush = None"
| "cont_event (K_retry e) = Some e"

fun pending_event :: "caller_pc \<Rightarrow> log_event option" where
  "pending_event (E_stop0 e) = Some e"
| "pending_event (E_try0 e) = Some e"
| "pending_event (E_loop e) = Some e"
| "pending_event (E_stop1 e) = Some e"
| "pending_event (E_policy e) = Some e"
| "pending_event (E_dropped e x) = Some e"
| "pending_event (E_lock e) = Some e"
| "pending_event (E_wait e) = Some e"
| "pending_event (F_stop0 i k) = cont_event k"
| "pending_event (F_finish i k) = cont_event k"
| "pending_event (F_loop i k) = cont_event k"
| "pending_event (F_wake i k) = cont_event k"
| "pending_event (F_wake_lock i k) = cont_event k"
| "pending_event (F_stop1 i k) = cont_event k"
| "pending_event (F_lock i k) = cont_event k"
| "pending_event (F_wait i k) = cont_event k"
| "pending_event _ = None"

definition holds_of :: "caller_pc \<Rightarrow> log_event multiset" where
  "holds_of pc = (case pending_event pc of None \<Rightarrow> {#} | Some e \<Rightarrow> {#e#})"

definition callers_holding :: "'w async_state \<Rightarrow> nat set" where
  "callers_holding s = {t. pending_event (a_callers s t) \<noteq> None}"

definition pending :: "'w async_state \<Rightarrow> log_event multiset" where
  "pending s = (\<Sum>t \<in> callers_holding s. holds_of (a_callers s t))"

text \<open>Every event ever given to \<^verbatim>\<open>dispatch\<close>, in the order of the calls.\<close>

fun begun :: "caller_pc \<Rightarrow> log_event list" where
  "begun (E_stop0 e) = [e]"
| "begun _ = []"

inductive dispatched ::
  "bool \<Rightarrow> ('s, 'w) async_config \<Rightarrow> log_event list \<Rightarrow> 'w async_state \<Rightarrow> bool" for orderly c where
  no_calls: "new_async_dispatcher c w = Inr s \<Longrightarrow> dispatched orderly c [] s"
| new_call: "dispatched orderly c es s \<Longrightarrow> a_phase s (Caller t) = Ready \<Longrightarrow> call_step orderly t s s' \<Longrightarrow>
    dispatched orderly c (es @ begun (a_callers s' t)) s'"
| any_step: "dispatched orderly c es s \<Longrightarrow> inner_step c s s' \<Longrightarrow> dispatched orderly c es s'"

lemma dispatched_reach: "dispatched orderly c es s \<Longrightarrow> async_reach orderly c s"
  by (induction rule: dispatched.induct)
    (auto intro: reach_init reach_step by_call inner_async)

lemma reach_dispatched: "async_reach orderly c s \<Longrightarrow> \<exists>es. dispatched orderly c es s"
proof (induction rule: async_reach.induct)
  case (reach_init w s)
  then show ?case by (blast intro: no_calls)
next
  case (reach_step s s')
  from reach_step.hyps(2) reach_step.IH show ?case
    by cases (blast intro: new_call any_step inner_intros)+
qed

definition given_ok :: "log_event list \<Rightarrow> 'w async_state \<Rightarrow> bool" where
  "given_ok es s \<longleftrightarrow> finite (callers_holding s) \<and>
     mset es = mset (events_of (g_claimed s)) + mset (g_rejected s) + pending s"

lemma holding_split:
  assumes "finite (callers_holding s)"
  shows "pending s = holds_of (a_callers s t) + (\<Sum>u \<in> callers_holding s - {t}. holds_of (a_callers s u))"
proof (cases "t \<in> callers_holding s")
  case True
  then show ?thesis unfolding pending_def by (rule sum.remove [OF assms])
next
  case False
  then show ?thesis by (simp add: pending_def holds_of_def callers_holding_def)
qed

lemma holding_moved:
  assumes "\<And>u. u \<noteq> t \<Longrightarrow> a_callers s' u = a_callers s u" "finite (callers_holding s)"
  shows "finite (callers_holding s')" "pending s' + holds_of (a_callers s t) = pending s + holds_of (a_callers s' t)"
proof -
  have rest: "callers_holding s' - {t} = callers_holding s - {t}" using assms(1) by (auto simp: callers_holding_def)
  then show fin: "finite (callers_holding s')" using assms(2) by (metis finite_Diff_insert finite.emptyI finite_Diff2)
  have "(\<Sum>u \<in> callers_holding s' - {t}. holds_of (a_callers s' u)) = (\<Sum>u \<in> callers_holding s - {t}. holds_of (a_callers s u))"
    unfolding rest using assms(1) by (intro sum.cong) auto
  then show "pending s' + holds_of (a_callers s t) = pending s + holds_of (a_callers s' t)"
    using holding_split [OF fin, of t] holding_split [OF assms(2), of t] by (simp add: add_ac)
qed

text \<open>What a step of caller \<open>t\<close> changes, it moves between the parts.\<close>

lemma given_moved:
  assumes "given_ok es s" "\<And>u. u \<noteq> t \<Longrightarrow> a_callers s' u = a_callers s u"
    "mset new + mset (events_of (g_claimed s)) + mset (g_rejected s) + holds_of (a_callers s t) =
      mset (events_of (g_claimed s')) + mset (g_rejected s') + holds_of (a_callers s' t)"
  shows "given_ok (es @ new) s'"
proof -
  have fin: "finite (callers_holding s)" and given: "mset es = mset (events_of (g_claimed s)) + mset (g_rejected s) + pending s"
    using assms(1) by (simp_all add: given_ok_def)
  have moved: "finite (callers_holding s')" "pending s' + holds_of (a_callers s t) = pending s + holds_of (a_callers s' t)"
    by (rule holding_moved [of t s' s]; use assms(2) fin in simp)+
  have "mset (es @ new) + holds_of (a_callers s t) =
      (mset new + mset (events_of (g_claimed s)) + mset (g_rejected s) + holds_of (a_callers s t)) + pending s"
    by (simp add: given add_ac)
  also have "\<dots> = mset (events_of (g_claimed s')) + mset (g_rejected s') + (pending s + holds_of (a_callers s' t))"
    unfolding assms(3) by (simp add: add_ac)
  also have "\<dots> = mset (events_of (g_claimed s')) + mset (g_rejected s') + pending s' + holds_of (a_callers s t)"
    by (simp only: moved(2) [symmetric] add.assoc)
  finally show ?thesis using moved(1) by (simp add: given_ok_def)
qed

lemma given_kept:
  "given_ok es s \<Longrightarrow> a_callers s' = a_callers s \<Longrightarrow> g_claimed s' = g_claimed s \<Longrightarrow> g_rejected s' = g_rejected s \<Longrightarrow>
    given_ok es s'"
  by (simp add: given_ok_def pending_def callers_holding_def)

lemmas given_same = given_moved [where new = "[]", simplified]

lemma given_queue: "queue_step s s' \<Longrightarrow> given_ok es s \<Longrightarrow> given_ok es s'"
  by (erule queue_step.cases; erule given_kept; simp add: async_ops)

lemma given_worker: "worker_step c s s' \<Longrightarrow> given_ok es s \<Longrightarrow> given_ok es s'"
  by (erule worker_step.cases; erule given_kept; simp add: async_ops split: prod.splits)

lemma given_event: "event_step c t s s' \<Longrightarrow> given_ok es s \<Longrightarrow> given_ok es s'"
  by (induction rule: event_step.induct; erule given_same [of _ _ t]; simp add: async_ops holds_of_def)

lemma given_flush: "flush_step c t s s' \<Longrightarrow> given_ok es s \<Longrightarrow> given_ok es s'"
  by (induction rule: flush_step.induct; erule given_same [of _ _ t];
      simp add: async_ops holds_of_def split: flush_cont.split)

lemma given_shutdown: "shutdown_step t s s' \<Longrightarrow> given_ok es s \<Longrightarrow> given_ok es s'"
  by (induction rule: shutdown_step.induct; erule given_same [of _ _ t]; simp add: async_ops holds_of_def)

lemma given_inner: "inner_step c s s' \<Longrightarrow> given_ok es s \<Longrightarrow> given_ok es s'"
  unfolding inner_step_def by (blast intro: given_queue given_worker given_event given_flush given_shutdown)

lemma given_call: "call_step orderly t s s' \<Longrightarrow> given_ok es s \<Longrightarrow> given_ok (es @ begun (a_callers s' t)) s'"
  by (induction rule: call_step.induct; erule given_moved [of _ _ t]; simp add: async_ops holds_of_def)

lemma dispatched_given: "dispatched orderly c es s \<Longrightarrow> given_ok es s"
proof (induction rule: dispatched.induct)
  case (no_calls w s)
  then have "s = async_init w" by (auto simp: new_async_dispatcher_def split: if_splits sum.splits)
  then show ?case by (simp add: given_ok_def callers_holding_def pending_def async_init_def)
qed (blast intro: given_call given_inner)+

lemma dispatched_steps: "(inner_step c)\<^sup>*\<^sup>* s s' \<Longrightarrow> dispatched orderly c es s \<Longrightarrow> dispatched orderly c es s'"
  by (induction rule: rtranclp_induct) (auto intro: any_step)

lemma dispatched_begin:
  assumes "dispatched orderly c es s" "a_callers s t = C_idle" "a_phase s (Caller t) = Ready" "\<not> a_stopping s"
    "\<And>u. a_callers s u \<notin> {S_exchange, S_lock, S_complete, S_join}"
  shows "dispatched orderly c (es @ [e]) (begin_dispatch t e s)"
proof -
  have "call_step orderly t s (begin_dispatch t e s)"
    unfolding begin_dispatch_def using assms(2,4,5) by (intro call_dispatch) auto
  from new_call [OF assms(1,3) this] show ?thesis by (simp add: begin_dispatch_def c_goto_def)
qed

text \<open>Two events fill the queue, the third is refused and counted, and a fourth is under way.\<close>

definition offer :: "nat \<Rightarrow> log_event \<Rightarrow> unit async_state \<Rightarrow> unit async_state" where
  "offer n e s = fold (run_thread (demo_config Drop_newest)) (replicate n (Caller 0)) (begin_dispatch 0 e s)"

definition refused_run :: "log_event \<Rightarrow> unit async_state" where
  "refused_run e = begin_dispatch 1 e (offer 5 e (offer 4 e (offer 4 e (async_init ()))))"

definition holding :: "log_event list \<Rightarrow> unit async_state" where
  "holding es = (async_init ())\<lparr>a_items := map (\<lambda>e. (Log_event e, None)) es, g_claimed := map Log_event es\<rparr>"

lemmas offer_eval = offer_def holding_def begin_dispatch_def async_init_def run_eval const_upd eval_nat_numeral

lemma offer_accepted: "length es < 2 \<Longrightarrow> offer 4 e (holding es) = holding (es @ [e])"
  by (cases es) (simp_all add: offer_eval)

lemma demo_policy [simp]: "overflow (cf_options (demo_config p)) = p"
  by (simp add: demo_config_def)

lemma offer_refused:
  "offer 5 e (holding [a, b]) = (holding [a, b])\<lparr>a_dropped := 1, g_rejected := [e]\<rparr>"
  by (simp add: offer_eval)

lemma refused_eval:
  "refused_run e = (holding [e, e])\<lparr>a_dropped := 1, g_rejected := [e], a_callers := (\<lambda>t. C_idle)(1 := E_stop0 e)\<rparr>"
proof -
  have "async_init () = holding []" by (simp add: holding_def async_init_def)
  then show ?thesis
    unfolding refused_run_def by (simp add: offer_accepted offer_refused)
      (simp add: begin_dispatch_def c_goto_def holding_def async_init_def)
qed

lemma offer_dispatched:
  assumes "dispatched orderly (demo_config Drop_newest) es (holding ds)"
  shows "dispatched orderly (demo_config Drop_newest) (es @ [e]) (offer n e (holding ds))"
  unfolding offer_def
  by (rule dispatched_steps [OF run_inner], rule dispatched_begin [OF assms])
    (simp_all add: holding_def async_init_def)

lemma refused_pending: "pending (refused_run e) = {#e#}"
proof -
  have "callers_holding (refused_run e) = {1}"
    by (auto simp: callers_holding_def refused_eval holding_def async_init_def)
  then show ?thesis by (simp add: pending_def holds_of_def refused_eval)
qed

lemma refused_facts:
  "events_of (g_claimed (refused_run e)) = [e, e]" "uncounted (refused_run e) = {}" "displaced (refused_run e) = []"
  by (simp_all add: refused_eval holding_def async_init_def uncounted_def displaced_def)

lemma refused_dispatched: "dispatched orderly (demo_config Drop_newest) [e, e, e, e] (refused_run e)"
proof -
  have "dispatched orderly (demo_config Drop_newest) [] (holding [])"
    by (rule no_calls [of _ "()"])
      (simp add: new_async_dispatcher_def demo_config_def round_up_two mpsc_new_def holding_def async_init_def)
  from offer_dispatched [OF this, of e 4]
  have "dispatched orderly (demo_config Drop_newest) [e] (holding [e])" by (simp add: offer_accepted)
  from offer_dispatched [OF this, of e 4]
  have "dispatched orderly (demo_config Drop_newest) [e, e] (holding [e, e])" by (simp add: offer_accepted)
  from offer_dispatched [OF this, of e 5]
  have d: "dispatched orderly (demo_config Drop_newest) [e, e, e] ((holding [e, e])\<lparr>a_dropped := 1, g_rejected := [e]\<rparr>)"
    by (simp add: offer_refused)
  have "refused_run e = begin_dispatch 1 e ((holding [e, e])\<lparr>a_dropped := 1, g_rejected := [e]\<rparr>)"
    by (simp add: refused_eval begin_dispatch_def c_goto_def holding_def async_init_def)
  with dispatched_begin [OF d, of 1 e] show ?thesis by (simp add: holding_def async_init_def)
qed

section \<open>A dispatch ends\<close>

text \<open>A move of caller \<open>t\<close>: a step of its call, or the second half of its queue operation.\<close>

definition caller_move :: "('s, 'w) async_config \<Rightarrow> nat \<Rightarrow> 'w async_state \<Rightarrow> 'w async_state \<Rightarrow> bool" where
  "caller_move c t s s' \<longleftrightarrow>
     (case a_phase s (Caller t) of
        Ready \<Rightarrow> event_step c t s s' \<or> flush_step c t s s'
      | Publishing \<Rightarrow> s' = publish (Caller t) s
      | Releasing \<Rightarrow> s' = release (Caller t) s)"

fun in_dispatch :: "caller_pc \<Rightarrow> bool" where
  "in_dispatch (E_stop0 e) = True"
| "in_dispatch (E_try0 e) = True"
| "in_dispatch (E_loop e) = True"
| "in_dispatch E_wake = True"
| "in_dispatch E_wake_lock = True"
| "in_dispatch (E_stop1 e) = True"
| "in_dispatch (E_policy e) = True"
| "in_dispatch _ = False"

text \<open>Where a dispatch never is with the drop-newest policy, and where a flush may hold the mutex.\<close>

fun other_policy :: "caller_pc \<Rightarrow> bool" where
  "other_policy (E_dropped e x) = True"
| "other_policy (E_lock e) = True"
| "other_policy (E_wait e) = True"
| "other_policy _ = False"

fun may_hold :: "caller_pc \<Rightarrow> bool" where
  "may_hold (F_loop i k) = True"
| "may_hold (F_wake i k) = True"
| "may_hold (F_wake_lock i k) = True"
| "may_hold (F_stop1 i k) = True"
| "may_hold (F_lock i k) = True"
| "may_hold (F_finish i k) = True"
| "may_hold _ = False"

definition newest_ok :: "'w async_state \<Rightarrow> bool" where
  "newest_ok s \<longleftrightarrow> (\<forall>t. \<not> other_policy (a_callers s t)) \<and> a_mutex s \<noteq> Some Worker \<and>
     (\<forall>u. a_mutex s = Some (Caller u) \<longrightarrow> may_hold (a_callers s u))"

text \<open>The own steps a dispatch, and a flush that holds the mutex, may still take.\<close>

fun dispatch_steps :: "caller_pc \<Rightarrow> nat" where
  "dispatch_steps (E_stop0 e) = 6"
| "dispatch_steps (E_try0 e) = 5"
| "dispatch_steps (E_loop e) = 4"
| "dispatch_steps E_wake = 2"
| "dispatch_steps (E_stop1 e) = 2"
| "dispatch_steps (E_policy e) = 1"
| "dispatch_steps E_wake_lock = 1"
| "dispatch_steps _ = 0"

fun hold_steps :: "caller_pc \<Rightarrow> nat" where
  "hold_steps (F_loop i k) = 4"
| "hold_steps (F_wake i k) = 2"
| "hold_steps (F_stop1 i k) = 2"
| "hold_steps (F_wake_lock i k) = 1"
| "hold_steps (F_lock i k) = 1"
| "hold_steps (F_finish i k) = 1"
| "hold_steps _ = 0"

definition half_done :: "nat \<Rightarrow> 'w async_state \<Rightarrow> nat" where
  "half_done t s = (if a_phase s (Caller t) = Ready then 0 else 1)"

definition dispatch_left :: "nat \<Rightarrow> 'w async_state \<Rightarrow> nat" where
  "dispatch_left t s = dispatch_steps (a_callers s t) + half_done t s"

definition hold_left :: "nat \<Rightarrow> 'w async_state \<Rightarrow> nat" where
  "hold_left t s =
     (case a_mutex s of
        Some (Caller u) \<Rightarrow> if u = t then 0 else hold_steps (a_callers s u) + half_done u s
      | _ \<Rightarrow> 0)"

lemma move_inner: "caller_move c t s s' \<Longrightarrow> inner_step c s s'"
  by (auto simp: caller_move_def intro: inner_intros q_publish q_release split: queue_phase.splits)

lemma newest_event:
  assumes "event_step c t s s'" "overflow (cf_options c) = Drop_newest" "newest_ok s"
  shows "newest_ok s'"
proof -
  have "\<not> other_policy (a_callers s t)" using assms(3) by (simp add: newest_ok_def)
  with assms(1) assms(2,3) show ?thesis
    by (induction rule: event_step.induct) (auto simp: newest_ok_def async_ops)
qed

lemma newest_flush: "flush_step c t s s' \<Longrightarrow> newest_ok s \<Longrightarrow> newest_ok s'"
  by (induction rule: flush_step.induct)
    (auto simp: newest_ok_def async_ops may_lock_def split: flush_cont.split)

lemma newest_queue: "queue_step s s' \<Longrightarrow> newest_ok s \<Longrightarrow> newest_ok s'"
  by (induction rule: queue_step.induct) (simp_all add: newest_ok_def async_ops)

lemma newest_worker: "worker_step c s s' \<Longrightarrow> newest_ok s \<Longrightarrow> newest_ok s'"
  by (induction rule: worker_step.induct) (simp_all add: newest_ok_def async_ops split: prod.splits)

lemma newest_shutdown: "shutdown_step t s s' \<Longrightarrow> newest_ok s \<Longrightarrow> newest_ok s'"
  by (induction rule: shutdown_step.induct) (auto simp: newest_ok_def async_ops)

lemma newest_call: "call_step orderly t s s' \<Longrightarrow> newest_ok s \<Longrightarrow> newest_ok s'"
  by (induction rule: call_step.induct) (auto simp: newest_ok_def async_ops)

lemma reach_newest: "async_reach orderly c s \<Longrightarrow> overflow (cf_options c) = Drop_newest \<Longrightarrow> newest_ok s"
proof (induction rule: async_invariant)
  case (init w)
  show ?case by (simp add: newest_ok_def async_init_def)
qed (blast intro: newest_event newest_flush newest_queue newest_worker newest_shutdown newest_call)+

lemma claim_or_refuse:
  assumes "within_bounds c s"
  obtains "can_claim c s" | "can_refuse c s"
  using assms by (auto simp: within_bounds_def can_claim_def can_refuse_def le_less)

lemma dispatch_moves:
  assumes "within_bounds c s" "overflow (cf_options c) = Drop_newest" "in_dispatch (a_callers s t)"
    and free: "a_callers s t = E_wake_lock \<Longrightarrow> may_lock t s"
  shows "\<exists>s'. caller_move c t s s'"
proof (cases "a_phase s (Caller t)")
  case Ready
  have "\<exists>s'. event_step c t s s'"
    by (rule claim_or_refuse [OF assms(1)]; use assms(3) in \<open>cases "a_callers s t"\<close>;
        use assms(2) free in \<open>simp; blast intro: event_step.intros\<close>)
  then show ?thesis using Ready by (auto simp: caller_move_def)
qed (auto simp: caller_move_def)

lemma holder_moves:
  assumes "within_bounds c s" "a_mutex s = Some (Caller u)" "may_hold (a_callers s u)"
  shows "\<exists>s'. caller_move c u s s'"
proof (cases "a_phase s (Caller u)")
  case Ready
  have lock: "may_lock u s" using assms(2) by (simp add: may_lock_def)
  have "\<exists>s'. flush_step c u s s'"
    by (rule claim_or_refuse [OF assms(1)]; use assms(3) in \<open>cases "a_callers s u"\<close>;
        use lock in \<open>simp; blast intro: flush_step.intros\<close>)
  then show ?thesis using Ready by (auto simp: caller_move_def)
qed (auto simp: caller_move_def)

lemma own_step:
  assumes "event_step c t s s'" "overflow (cf_options c) = Drop_newest" "in_dispatch (a_callers s t)"
    and "a_phase s (Caller t) = Ready"
  shows "dispatch_left t s' < dispatch_left t s \<and> hold_left t s' \<le> hold_left t s \<and>
    (in_dispatch (a_callers s' t) \<or> a_callers s' t = C_idle)"
  using assms
  by (induction rule: event_step.induct)
    (auto simp: dispatch_left_def hold_left_def half_done_def async_ops split: option.split thread.split)

lemma own_move:
  assumes "caller_move c t s s'" "overflow (cf_options c) = Drop_newest" "in_dispatch (a_callers s t)"
  shows "dispatch_left t s' < dispatch_left t s \<and> hold_left t s' \<le> hold_left t s \<and>
    (in_dispatch (a_callers s' t) \<or> a_callers s' t = C_idle)"
proof (cases "a_phase s (Caller t)")
  case Ready
  have "\<not> flush_step c t s s'" using assms(3) by (auto elim: flush_step.cases)
  then have "event_step c t s s'" using assms(1) Ready by (simp add: caller_move_def)
  from this assms(2,3) Ready show ?thesis by (rule own_step)
qed (use assms in \<open>auto simp: caller_move_def dispatch_left_def hold_left_def half_done_def async_ops
    split: option.split thread.split\<close>)

lemma holder_step:
  assumes "flush_step c u s s'" "a_mutex s = Some (Caller u)" "may_hold (a_callers s u)" "u \<noteq> t"
    and "a_phase s (Caller u) = Ready"
  shows "hold_left t s' < hold_left t s \<and> dispatch_left t s' = dispatch_left t s \<and> a_callers s' t = a_callers s t"
  using assms
  by (induction rule: flush_step.induct)
    (auto simp: hold_left_def dispatch_left_def half_done_def async_ops split: flush_cont.split)

lemma holder_move:
  assumes "caller_move c u s s'" "a_mutex s = Some (Caller u)" "may_hold (a_callers s u)" "u \<noteq> t"
  shows "hold_left t s' < hold_left t s \<and> dispatch_left t s' = dispatch_left t s \<and> a_callers s' t = a_callers s t"
proof (cases "a_phase s (Caller u)")
  case Ready
  have "\<not> event_step c u s s'" using assms(3) by (auto elim: event_step.cases)
  then have "flush_step c u s s'" using assms(1) Ready by (simp add: caller_move_def)
  from this assms(2-4) Ready show ?thesis by (rule holder_step)
qed (use assms in \<open>auto simp: caller_move_def hold_left_def dispatch_left_def half_done_def async_ops\<close>)

text \<open>The moves a dispatch needs: its own, and those of the caller whose mutex it waits for.\<close>

definition dispatch_move :: "('s, 'w) async_config \<Rightarrow> nat \<Rightarrow> 'w async_state \<Rightarrow> 'w async_state \<Rightarrow> bool" where
  "dispatch_move c t s s' \<longleftrightarrow> caller_move c t s s' \<or>
     (\<exists>u. u \<noteq> t \<and> a_callers s t = E_wake_lock \<and> a_mutex s = Some (Caller u) \<and> caller_move c u s s')"

definition dispatch_work :: "nat \<Rightarrow> 'w async_state \<Rightarrow> nat" where
  "dispatch_work t s = dispatch_left t s + hold_left t s"

lemma dispatch_left_le: "dispatch_left t s \<le> 7"
  by (cases "a_callers s t") (auto simp: dispatch_left_def half_done_def)

lemma hold_left_le: "hold_left t s \<le> 5"
proof -
  have "hold_steps pc \<le> 4" for pc by (cases pc) auto
  then have "hold_steps pc \<le> 5" for pc by (rule le_trans) simp
  with \<open>\<And>pc. hold_steps pc \<le> 4\<close> show ?thesis
    by (auto simp: hold_left_def half_done_def split: option.split thread.split)
qed

lemma dispatch_work_le: "dispatch_work t s \<le> 12"
  using dispatch_left_le [of t s] hold_left_le [of t s] by (simp add: dispatch_work_def)

lemma dispatch_move_reach: "async_reach orderly c s \<Longrightarrow> dispatch_move c t s s' \<Longrightarrow> async_reach orderly c s'"
  by (auto simp: dispatch_move_def intro: reach_step inner_async move_inner)

lemma dispatch_enabled:
  assumes "async_reach orderly c s" "overflow (cf_options c) = Drop_newest" "in_dispatch (a_callers s t)"
  shows "\<exists>s'. dispatch_move c t s s'"
proof (cases "a_callers s t = E_wake_lock \<and> \<not> may_lock t s")
  case True
  then obtain th where th: "a_mutex s = Some th" "th \<noteq> Caller t" by (auto simp: may_lock_def)
  with reach_newest [OF assms(1,2)] obtain u where u: "a_mutex s = Some (Caller u)" "may_hold (a_callers s u)" "u \<noteq> t"
    by (cases th) (auto simp: newest_ok_def)
  from holder_moves [OF reach_bounds [OF assms(1)] u(1,2)] obtain s' where "caller_move c u s s'" ..
  with True u show ?thesis by (auto simp: dispatch_move_def)
next
  case False
  then have "\<exists>s'. caller_move c t s s'"
    using dispatch_moves [OF reach_bounds [OF assms(1)] assms(2,3)] by blast
  then show ?thesis by (auto simp: dispatch_move_def)
qed

lemma dispatch_decreases:
  assumes "async_reach orderly c s" "overflow (cf_options c) = Drop_newest" "in_dispatch (a_callers s t)"
    and "dispatch_move c t s s'"
  shows "dispatch_work t s' < dispatch_work t s \<and> (in_dispatch (a_callers s' t) \<or> a_callers s' t = C_idle)"
  using assms(4) unfolding dispatch_move_def
proof (elim disjE exE conjE)
  assume "caller_move c t s s'"
  from own_move [OF this assms(2,3)] show ?thesis by (simp add: dispatch_work_def)
next
  fix u assume u: "u \<noteq> t" "a_mutex s = Some (Caller u)" "caller_move c u s s'"
  have "may_hold (a_callers s u)" using reach_newest [OF assms(1,2)] u(2) by (simp add: newest_ok_def)
  from holder_move [OF u(3,2) this u(1)] assms(3) show ?thesis by (simp add: dispatch_work_def)
qed

lemma dispatch_returns:
  assumes "async_reach orderly c s" "overflow (cf_options c) = Drop_newest" "in_dispatch (a_callers s t)"
  shows "\<exists>n s'. n \<le> 12 \<and> (dispatch_move c t ^^ n) s s' \<and> a_callers s' t = C_idle"
proof -
  have "\<exists>n s'. n \<le> dispatch_work t s \<and> (dispatch_move c t ^^ n) s s' \<and> a_callers s' t = C_idle \<and>
      async_reach orderly c s' \<and> (in_dispatch (a_callers s' t) \<or> a_callers s' t = C_idle)"
    using assms dispatch_enabled dispatch_decreases dispatch_move_reach
    by (intro measured_run [where R = "dispatch_move c t" and m = "dispatch_work t"]) blast+
  with dispatch_work_le [of t s] show ?thesis by (meson le_trans)
qed

text \<open>No other step disturbs a dispatch.\<close>

lemma others_leave:
  assumes "async_step orderly c s s'" "in_dispatch (a_callers s t)" "\<not> caller_move c t s s'"
  shows "a_callers s' t = a_callers s t \<and> dispatch_left t s' = dispatch_left t s"
proof -
  note simps = dispatch_left_def half_done_def async_ops
  show ?thesis using assms(1)
  proof cases
    case by_queue
    from by_queue assms(2,3) show ?thesis by cases (auto simp: simps caller_move_def)
  next
    case by_worker
    from by_worker(2) show ?thesis by cases (auto simp: simps split: prod.splits)
  next
    case (by_event u)
    have "u \<noteq> t" using by_event assms(3) by (auto simp: caller_move_def)
    with by_event(2) show ?thesis by cases (auto simp: simps)
  next
    case (by_flush u)
    have "u \<noteq> t" using by_flush assms(3) by (auto simp: caller_move_def)
    with by_flush(2) show ?thesis by cases (auto simp: simps split: flush_cont.split)
  next
    case (by_shutdown u)
    from by_shutdown(2) assms(2) show ?thesis by cases (auto simp: simps)
  next
    case (by_call u)
    from by_call(2) assms(2) show ?thesis by cases (auto simp: simps)
  qed
qed

text \<open>A run during a dispatch of caller \<open>t\<close>, with the number of the steps that are the caller's own.\<close>

inductive during ::
  "bool \<Rightarrow> ('s, 'w) async_config \<Rightarrow> nat \<Rightarrow> nat \<Rightarrow> 'w async_state \<Rightarrow> 'w async_state \<Rightarrow> bool" for orderly c t where
  during_start: "during orderly c t 0 s s"
| during_own: "during orderly c t n s s' \<Longrightarrow> in_dispatch (a_callers s' t) \<Longrightarrow> async_step orderly c s' s'' \<Longrightarrow>
    caller_move c t s' s'' \<Longrightarrow> during orderly c t (Suc n) s s''"
| during_other: "during orderly c t n s s' \<Longrightarrow> in_dispatch (a_callers s' t) \<Longrightarrow> async_step orderly c s' s'' \<Longrightarrow>
    \<not> caller_move c t s' s'' \<Longrightarrow> during orderly c t n s s''"

lemma during_left:
  assumes "during orderly c t n s s'" "overflow (cf_options c) = Drop_newest" "in_dispatch (a_callers s t)"
  shows "n + dispatch_left t s' \<le> dispatch_left t s \<and> (in_dispatch (a_callers s' t) \<or> a_callers s' t = C_idle)"
  using assms(1,3)
proof (induction rule: during.induct)
  case (during_own n s s' s'')
  from own_move [OF during_own.hyps(4) assms(2) during_own.hyps(2)] during_own.IH [OF during_own.prems]
  show ?case by simp
next
  case (during_other n s s' s'')
  from others_leave [OF during_other.hyps(3,2,4)] during_other.IH [OF during_other.prems] during_other.hyps(2)
  show ?case by simp
qed simp

lemma during_bound:
  assumes "during orderly c t n s s'" "overflow (cf_options c) = Drop_newest" "in_dispatch (a_callers s t)"
  shows "n \<le> 7 \<and> (in_dispatch (a_callers s' t) \<or> a_callers s' t = C_idle)"
  using during_left [OF assms] dispatch_left_le [of t s] by linarith

lemma dispatch_or_holder:
  assumes "async_reach orderly c s" "overflow (cf_options c) = Drop_newest" "in_dispatch (a_callers s t)"
  shows "(\<exists>s'. caller_move c t s s') \<or>
    a_callers s t = E_wake_lock \<and> (\<exists>u s'. a_mutex s = Some (Caller u) \<and> may_hold (a_callers s u) \<and> caller_move c u s s')"
proof -
  from dispatch_enabled [OF assms] reach_newest [OF assms(1,2)] show ?thesis
    by (auto simp: dispatch_move_def newest_ok_def)
qed

end
