(* ===== verification/Async_Properties.thy ===== *)
theory Async_Properties
  imports Async_Callers
begin

text \<open>
  The properties of the asynchronous dispatcher, for every interleaving of its worker with any
  number of callers.
\<close>

section \<open>Conservation and order\<close>

lemma mset_done_split:
  "mset (events_of (map fst xs)) =
     mset (events_of (map fst (filter snd xs))) + mset (events_of (map fst (filter (\<lambda>x. \<not> snd x) xs)))"
proof (induction xs)
  case (Cons x xs)
  then show ?case by (cases x; cases "fst x") auto
qed simp

lemma trace_writes: "ledger s \<Longrightarrow> writes (g_trace s) = events_of (map fst (filter snd (g_done s)))"
  using writes_requests [of "map fst (filter snd (g_done s))"] by (simp add: ledger_def comp_def)

lemma ledger_conservation:
  assumes "ledger s"
  shows "mset (events_of (g_claimed s)) = mset (writes (g_trace s)) + mset (events_of (lost_items s)) +
    mset (events_of (worker_holds (a_worker s))) + mset (events_of (displaced s)) +
    mset (events_of (map fst (a_items s)))"
proof -
  have "mset (events_of (g_claimed s)) =
      mset (events_of (map snd (g_taken s))) + mset (events_of (map fst (a_items s)))"
    using assms by (simp add: ledger_def)
  also have "mset (events_of (map snd (g_taken s))) =
      mset (events_of (by_worker_taken s)) + mset (events_of (displaced s))"
    by (simp add: mset_events_split [of "g_taken s"] by_worker_taken_def displaced_def)
  also have "mset (events_of (by_worker_taken s)) =
      mset (events_of (map fst (g_done s))) + mset (events_of (worker_holds (a_worker s)))"
    using assms by (simp add: ledger_def)
  also have "mset (events_of (map fst (g_done s))) =
      mset (writes (g_trace s)) + mset (events_of (lost_items s))"
    by (simp add: mset_done_split [of "g_done s"] trace_writes [OF assms] lost_items_def)
  finally show ?thesis by (simp add: add_ac)
qed

text \<open>
  C1. No event is duplicated and none disappears unaccounted: at every moment, the events whose
  enqueue succeeded are exactly those written to the sinks, those in the worker's hands, those
  waiting in the queue, those displaced by drop-oldest producers and at most one lost event, and
  that one only after \<^verbatim>\<open>stopping_\<close> was set.
\<close>

theorem async_conservation:
  assumes "async_reach orderly c s"
  shows "mset (events_of (g_claimed s)) = mset (writes (g_trace s)) + mset (events_of (lost_items s)) +
      mset (events_of (worker_holds (a_worker s))) + mset (events_of (displaced s)) +
      mset (events_of (map fst (a_items s))) \<and>
    length (lost_items s) \<le> 1 \<and> (lost_items s = [] \<or> a_stopping s)"
  using ledger_conservation [OF reach_ledger [OF assms]] reach_loss [OF assms]
  by (auto simp: loss_ok_def split: list.splits)

theorem async_conservation_witness:
  "writes (g_trace (flushed_run demo_event)) = [demo_event] \<and> mset (events_of (g_claimed (flushed_run demo_event))) = {#demo_event#}"
  using async_conservation [OF flushed_reach [of True demo_event]] by (simp add: flushed_eval)

lemma subseq_events: "subseq xs ys \<Longrightarrow> subseq (events_of xs) (events_of ys)"
proof (induction rule: list_emb.induct)
  case (list_emb_Cons xs ys y)
  then show ?case by (cases y) auto
next
  case (list_emb_Cons2 x y xs ys)
  then show ?case by (cases x) auto
qed simp

lemma subseq_prefix: "subseq xs (xs @ ys)"
  by (rule prefix_imp_subseq) simp

text \<open>
  C12. Order: the sinks see the events in the order in which they were enqueued, whatever was
  displaced, lost or flushed in between.
\<close>

theorem async_order:
  assumes "async_reach orderly c s"
  shows "subseq (writes (g_trace s)) (events_of (g_claimed s))"
proof -
  note led = reach_ledger [OF assms]
  have "subseq (map fst (filter snd (g_done s))) (map fst (g_done s))"
    by (intro subseq_map subseq_filter_left)
  also have "subseq (map fst (g_done s)) (by_worker_taken s)"
    using led by (simp add: ledger_def subseq_prefix)
  also have "subseq (by_worker_taken s) (map snd (g_taken s))"
    unfolding by_worker_taken_def by (intro subseq_map subseq_filter_left)
  also have "subseq (map snd (g_taken s)) (g_claimed s)"
    using led by (simp add: ledger_def subseq_prefix)
  finally show ?thesis using subseq_events trace_writes [OF led] by metis
qed

theorem async_order_witness: "subseq [demo_event] (events_of [Log_event demo_event, Flush_request 1])"
  using async_order [OF flushed_reach [of True demo_event]] by (simp add: flushed_eval)

section \<open>Flush\<close>

text \<open>
  C2. The guarantee of \<^verbatim>\<open>flush()\<close>: when a flush returns while the dispatcher is not stopping, every
  event enqueued before the flush took its id has been written to every sink, followed by a flush of
  the sinks, or has been displaced by a drop-oldest producer. It holds although flush requests of
  different callers may overtake each other and be displaced and enqueued again. The ids are 64 bits
  wide; fewer than \<open>2 ^ 64\<close> flushes are assumed.
\<close>

theorem flush_guarantee:
  assumes "async_reach orderly c s" "\<not> a_stopping s" "length (g_marks s) < 2 ^ 64"
    "a_callers s t = Fl_wait i" "flush_step c t s s'"
  shows "\<exists>pre post. g_trace s = pre @ Flush # post \<and>
    mset (events_of (take (mark_of s i) (g_claimed s)))
      \<subseteq># mset (writes pre) + mset (events_of (displaced s))"
proof -
  have inv: "flush_inv s" using reach_flush [OF assms(1)] assms(3) by blast
  have done_i: "i \<le> a_completed s" using assms(5,4) by cases auto
  have "issued s i" using flush_inv_ids [OF inv, of i t] assms(4) by simp
  moreover from done_i have "unat i \<le> unat (a_completed s)" by (simp add: word_le_nat_alt)
  ultimately have "settled s (mark_of s i)"
    using inv assms(2) by (auto simp: flush_inv_def completion_ok_def issued_def mark_of_def)
  moreover have "lost_items s = []"
    using reach_loss [OF assms(1)] assms(2) by (auto simp: loss_ok_def split: list.splits)
  ultimately show ?thesis using settled_written reach_ledger [OF assms(1)] by blast
qed

theorem flush_guarantee_witness:
  "\<exists>pre post. [Write demo_event, Flush] = pre @ Flush # post \<and> {#demo_event#} \<subseteq># mset (writes pre)"
proof -
  let ?s = "flushed_run demo_event"
  have "flush_step (demo_config Drop_newest) 0 ?s (c_goto 0 C_idle ?s)"
    by (rule f_completed [of _ _ 1]) (simp_all add: flushed_eval)
  from flush_guarantee [OF flushed_reach _ _ _ this] show ?thesis
    by (simp add: flushed_eval mark_of_def)
qed

section \<open>Shutdown\<close>

text \<open>
  C7. An orderly shutdown drains: when the destructor overlaps no other call, the worker ends with an
  empty queue and empty hands, so every event accepted before was written or displaced, or is the
  one event the worker may lose, and the sinks were flushed last.
\<close>

theorem shutdown_drains:
  assumes "async_reach True c s" "a_worker s = W_done"
  shows "a_items s = [] \<and>
    mset (events_of (g_claimed s)) =
      mset (writes (g_trace s)) + mset (events_of (displaced s)) + mset (events_of (lost_items s)) \<and>
    length (lost_items s) \<le> 1 \<and> last (g_trace s) = Flush"
proof -
  have "a_items s = []" using reach_drained [OF assms(1)] assms(2) by (simp add: drained_def)
  moreover have "last (g_trace s) = Flush"
    using reach_ledger [OF assms(1)] assms(2) by (simp add: ledger_def)
  moreover have "length (lost_items s) \<le> 1"
    using reach_loss [OF assms(1)] by (auto simp: loss_ok_def split: list.splits)
  ultimately show ?thesis
    using ledger_conservation [OF reach_ledger [OF assms(1)]] assms(2) by (simp add: add_ac)
qed

theorem shutdown_drains_witness:
  "a_items (lossy_run demo_event) = [] \<and> last (g_trace (lossy_run demo_event)) = Flush"
  using shutdown_drains [OF lossy_reach [of True demo_event]] by (simp add: lossy_eval)

text \<open>
  C9. The worker ends: in an orderly run, once \<^verbatim>\<open>stopping_\<close> is set the worker reaches the end of its
  loop within a bounded number of its own steps, and no schedule lets it take more: each of its
  steps lowers the work left. So the join of the destructor returns.
\<close>

theorem worker_terminates:
  assumes "async_reach True c s" "a_stopping s"
  shows "(\<exists>n s'. n \<le> work_left s \<and> (worker_move c ^^ n) s s' \<and> a_worker s' = W_done) \<and>
    (\<forall>s'. worker_move c s s' \<longrightarrow> work_left s' < work_left s)"
  using worker_finishes [OF assms] work_decreases assms(2) by blast

theorem worker_terminates_witness:
  "\<exists>n s'. (worker_move (demo_config Drop_newest) ^^ n) (lossy_run demo_event) s' \<and> a_worker s' = W_done"
  using worker_terminates [OF lossy_reach [of True demo_event]] by (auto simp: lossy_eval)

text \<open>
  C29. A race at shutdown loses an accepted event: when \<^verbatim>\<open>stopping_\<close> is set after the worker has
  dequeued an item and before it tests \<^verbatim>\<open>stopping_\<close> again, the item is dropped without being written
  and without being counted, although the destructor has drained and joined in order.
\<close>

theorem shutdown_loses_event:
  "\<exists>s. async_reach True (demo_config Drop_newest) s \<and> a_worker s = W_done \<and>
     a_callers s = (\<lambda>t. C_idle) \<and> g_claimed s = [Log_event e] \<and> writes (g_trace s) = [] \<and>
     a_items s = [] \<and> async_dropped_events s = 0"
  using lossy_reach [of True e] by (intro exI [of _ "lossy_run e"]) (simp add: lossy_eval async_init_def async_dropped_events_def)

section \<open>Counters and bounds\<close>



text \<open>
  C21. Every event given to \<^verbatim>\<open>dispatch\<close> is accounted for: it was enqueued, a call still holds it, or it is
  counted as dropped. Modulo \<open>2 ^ 64\<close> the counter is the number of the events that are neither enqueued nor
  held, plus the number of displaced items, less the displacements not yet counted.
\<close>

theorem dispatches_accounted:
  assumes "dispatched orderly c es s"
  shows "mset (events_of (g_claimed s)) + pending s \<subseteq># mset es \<and> finite (uncounted s) \<and>
    async_dropped_events s + of_nat (card (uncounted s)) =
      of_nat (size (mset es - (mset (events_of (g_claimed s)) + pending s)) + length (displaced s))"
proof -
  have given: "mset es = (mset (events_of (g_claimed s)) + pending s) + mset (g_rejected s)"
    using dispatched_given [OF assms] by (simp add: given_ok_def add_ac)
  with reach_drops [OF dispatched_reach [OF assms]] show ?thesis
    by (simp add: drops_ok_def async_dropped_events_def)
qed

theorem dispatches_accounted_witness:
  "pending (refused_run demo_event) = {#demo_event#} \<and> async_dropped_events (refused_run demo_event) = 1"
  using dispatches_accounted [OF refused_dispatched [of True demo_event]]
  by (simp add: refused_facts refused_pending)

text \<open>
  Bounds: the queue never holds more than the requested capacity rounded up to a power of two,
  and no batch exceeds the configured size.
\<close>

theorem async_bounds:
  assumes "async_reach orderly c s"
  shows "length (a_items s) \<le> unat (round_up_to_power_of_2 (queue_capacity (cf_options c))) \<and>
    length (batch_of (a_worker s)) \<le> unat (batch_size (cf_options c))"
  using reach_bounds [OF assms] by (simp add: within_bounds_def cf_capacity_def cf_batch_def)

theorem async_bounds_witness: "length (a_items (lossy_run demo_event)) \<le> 2"
  using async_bounds [OF lossy_reach [of True demo_event]] by (simp add: demo_config_def round_up_two)

text \<open>
  C34. The sinks are served: with every call of a sink recorded, the record holds, for each item the worker
  has processed, in the order in which it dequeued them, one call of every sink in order, and a last flush at
  its end. A sink that throws is counted, and neither stops the worker nor keeps a request from the other
  sinks. What the worker dequeued it has processed or still holds, or it is lost as in C1.
\<close>

theorem async_sinks_served:
  assumes "new_async_dispatcher (recorded c) ([], w) = Inr s0" "(async_step orderly (recorded c))\<^sup>*\<^sup>* s0 s"
  shows "map the_call (fst (a_world s)) =
      every_sink (cf_sinks c) (map request_of (processed s) @ (if a_worker s = W_done then [Flush] else [])) \<and>
    async_sink_failures s = count_failures (fst (a_world s)) \<and>
    by_worker_taken s = map fst (g_done s) @ worker_holds (a_worker s)"
proof -
  have "s0 = async_init ([], w)" using assms(1) by (auto simp: new_async_dispatcher_def split: if_splits sum.splits)
  then have "calls_ok (cf_sinks c) s0" by (simp add: calls_ok_def every_sink_def async_init_def)
  with steps_calls [OF assms(2)] have "calls_ok (cf_sinks c) s" by blast
  moreover have "ledger s" using steps_reach [OF assms(2) reach_init [OF assms(1)]] by (rule reach_ledger)
  ultimately show ?thesis
    by (auto simp: calls_ok_def ledger_def processed_def async_sink_failures_def comp_def)
qed

theorem async_sinks_served_witness:
  "map the_call (fst (a_world (throwing_run demo_event))) = [(True, Write demo_event), (False, Write demo_event)]"
  using async_sinks_served [OF throwing_new throwing_steps [of True demo_event]]
  by (simp add: throwing_eval processed_def every_sink_def) (simp add: throwing_config_def)

text \<open>
  The constructor throws exactly for a zero queue capacity, a zero batch size, or a capacity
  beyond \<open>2 ^ 63\<close>, whose rounding wraps to zero; otherwise the dispatcher starts empty.
\<close>

theorem async_constructor:
  "isl (new_async_dispatcher c w) \<longleftrightarrow>
     queue_capacity (cf_options c) = 0 \<or> batch_size (cf_options c) = 0 \<or>
     2 ^ 63 < unat (queue_capacity (cf_options c))"
proof -
  let ?q = "queue_capacity (cf_options c)"
  have "mpsc_new (Flush_request 0) (round_up_to_power_of_2 ?q) =
      Inl (Invalid_Argument ''capacity must be a power of 2'')" if "2 ^ 63 < unat ?q"
    using rounding_cases [of ?q] that by (simp add: mpsc_new_def)
  moreover have "\<exists>q :: queue_item mpsc_queue. mpsc_new (Flush_request 0) (round_up_to_power_of_2 ?q) = Inr q"
    if le: "unat ?q \<le> 2 ^ 63"
  proof -
    obtain k where k: "1 \<le> k" "k < 64" "round_up_to_power_of_2 ?q = 2 ^ k"
      by (rule rounded_power [OF le])
    from mpsc_new_inv [OF k(1,2), of "Flush_request 0"] show ?thesis unfolding k(3) by metis
  qed
  ultimately show ?thesis
    by (cases "unat ?q \<le> 2 ^ 63") (auto simp: new_async_dispatcher_def not_le)
qed



end
