(* ===== verification/Async_Queue.thy ===== *)
theory Async_Queue
  imports Async_Runs
begin

text \<open>
  The seam between the dispatcher and its queue: the queue inside the dispatcher's model is the
  ticket queue of theory \<open>Ticket_Queue\<close>, which the steps of \<^verbatim>\<open>detail/mpsc_queue.hpp\<close> refine. What the
  dispatcher's model lets a call of \<^verbatim>\<open>enqueue\<close> or \<^verbatim>\<open>dequeue\<close> do is exactly what the ticket queue does.
\<close>

section \<open>The queue of a dispatcher\<close>

inductive_simps tq_step_simps:
  "tq_step cap (T_claim x) q q'" "tq_step cap T_refuse q q'" "tq_step cap (T_take x) q q'"
  "tq_step cap T_nothing q q'"

definition releasing :: "'w async_state \<Rightarrow> thread set" where
  "releasing s = {th. a_phase s th = Releasing}"

definition publishing :: "'w async_state \<Rightarrow> thread set" where
  "publishing s = {th. a_phase s th = Publishing}"

definition async_queue :: "'w async_state \<Rightarrow> queue_item tqueue" where
  "async_queue s =
     \<lparr>tq_items = map (\<lambda>(x, w). (x, w = None)) (a_items s), tq_busy = card (releasing s)\<rparr>"

definition item_writers :: "'w async_state \<Rightarrow> thread list" where
  "item_writers s = List.map_filter snd (a_items s)"

text \<open>Every thread between a claim and its publication is writing exactly one item.\<close>

definition pending_ok :: "'w async_state \<Rightarrow> bool" where
  "pending_ok s \<longleftrightarrow> distinct (item_writers s) \<and>
     set (item_writers s) = publishing s \<and> finite (releasing s)"

subsection \<open>The four operations\<close>

definition same_queue :: "'w async_state \<Rightarrow> 'w async_state \<Rightarrow> bool" where
  "same_queue s s' \<longleftrightarrow> a_items s' = a_items s \<and> a_phase s' = a_phase s \<and>
     g_claimed s' = g_claimed s \<and> g_taken s' = g_taken s"

lemma same_queue_kept:
  "same_queue s s' \<Longrightarrow> pending_ok s \<Longrightarrow> pending_ok s'"
  "same_queue s s' \<Longrightarrow> async_queue s' = async_queue s"
  by (simp_all add: same_queue_def pending_ok_def item_writers_def releasing_def publishing_def async_queue_def)

lemma phase_sets:
  "a_phase s th = Ready \<Longrightarrow> releasing (claim th x s) = releasing s"
  "publishing (claim th x s) = insert th (publishing s)"
  "a_phase s th = Publishing \<Longrightarrow> releasing (publish th s) = releasing s"
  "publishing (publish th s) = publishing s - {th}"
  "releasing (take_item th s) = insert th (releasing s)"
  "a_phase s th = Ready \<Longrightarrow> publishing (take_item th s) = publishing s"
  "releasing (release th s) = releasing s - {th}"
  "a_phase s th = Releasing \<Longrightarrow> publishing (release th s) = publishing s"
  by (auto simp: releasing_def publishing_def claim_def publish_def take_item_def release_def)

lemma writers_claim: "item_writers (claim th x s) = item_writers s @ [th]"
  by (simp add: item_writers_def claim_def map_filter_simps List.map_filter_def)

lemma writers_publish: "item_writers (publish th s) = filter (\<lambda>u. u \<noteq> th) (item_writers s)"
proof -
  have "List.map_filter snd (map (\<lambda>(x, w). (x, if w = Some th then None else w)) xs) =
      filter (\<lambda>u. u \<noteq> th) (List.map_filter snd xs)" for xs :: "(queue_item \<times> thread option) list"
    by (induction xs) (auto simp: map_filter_simps split: option.splits)
  then show ?thesis by (simp add: item_writers_def publish_def)
qed

lemma writers_take: "can_take x s \<Longrightarrow> item_writers (take_item th s) = item_writers s"
  by (auto simp: item_writers_def take_item_def map_filter_simps elim!: can_takeE)

lemma writers_release: "item_writers (release th s) = item_writers s"
  by (simp add: item_writers_def release_def)

lemmas item_writers_ops = writers_claim writers_publish writers_take writers_release

lemma pending_claim: "pending_ok s \<Longrightarrow> a_phase s th = Ready \<Longrightarrow> pending_ok (claim th x s)"
  by (simp add: pending_ok_def item_writers_ops phase_sets) (simp add: publishing_def)

lemma pending_publish: "pending_ok s \<Longrightarrow> a_phase s th = Publishing \<Longrightarrow> pending_ok (publish th s)"
  by (auto simp: pending_ok_def item_writers_ops phase_sets)

lemma pending_take: "pending_ok s \<Longrightarrow> a_phase s th = Ready \<Longrightarrow> can_take x s \<Longrightarrow> pending_ok (take_item th s)"
  by (simp add: pending_ok_def item_writers_ops phase_sets)

lemma pending_release: "pending_ok s \<Longrightarrow> a_phase s th = Releasing \<Longrightarrow> pending_ok (release th s)"
  by (simp add: pending_ok_def item_writers_ops phase_sets)

subsection \<open>Steps of the ticket queue\<close>

lemma queue_claim:
  "a_phase s th = Ready \<Longrightarrow>
    async_queue (claim th x s) = (async_queue s)\<lparr>tq_items := tq_items (async_queue s) @ [(x, False)]\<rparr>"
  by (simp add: async_queue_def phase_sets) (simp add: claim_def)

lemma queue_take:
  "pending_ok s \<Longrightarrow> a_phase s th = Ready \<Longrightarrow>
    async_queue (take_item th s) = (async_queue s)\<lparr>tq_items := tl (tq_items (async_queue s)),
      tq_busy := tq_busy (async_queue s) + 1\<rparr>"
  by (simp add: async_queue_def phase_sets pending_ok_def)
    (simp add: take_item_def releasing_def map_tl)





section \<open>What a step does to the queue\<close>

definition queue_use :: "('s, 'w) async_config \<Rightarrow> thread \<Rightarrow> 'w async_state \<Rightarrow> 'w async_state \<Rightarrow> bool" where
  "queue_use c th s s' \<longleftrightarrow> same_queue s s' \<or>
     (\<exists>x. can_claim c s \<and> same_queue (claim th x s) s') \<or>
     (\<exists>x. can_take x s \<and> same_queue (take_item th s) s')"

lemma use_worker: "worker_step c s s' \<Longrightarrow> queue_use c Worker s s'"
  by (induction rule: worker_step.induct)
    (auto simp: queue_use_def same_queue_def async_ops split: prod.splits)

lemma use_event: "event_step c t s s' \<Longrightarrow> queue_use c (Caller t) s s'"
  by (induction rule: event_step.induct) (auto simp: queue_use_def same_queue_def async_ops)

lemma use_flush: "flush_step c t s s' \<Longrightarrow> queue_use c (Caller t) s s'"
  by (induction rule: flush_step.induct) (auto simp: queue_use_def same_queue_def async_ops)

lemma use_shutdown: "shutdown_step t s s' \<Longrightarrow> queue_use c (Caller t) s s'"
  by (induction rule: shutdown_step.induct) (auto simp: queue_use_def same_queue_def async_ops)

lemma use_call: "call_step orderly t s s' \<Longrightarrow> queue_use c (Caller t) s s'"
  by (induction rule: call_step.induct) (auto simp: queue_use_def same_queue_def async_ops)

lemmas step_uses = use_worker use_event use_flush use_shutdown use_call

lemma pending_use: "queue_use c th s s' \<Longrightarrow> pending_ok s \<Longrightarrow> a_phase s th = Ready \<Longrightarrow> pending_ok s'"
  unfolding queue_use_def using same_queue_kept(1) pending_claim pending_take by blast

lemma pending_queue: "queue_step s s' \<Longrightarrow> pending_ok s \<Longrightarrow> pending_ok s'"
  by (induction rule: queue_step.induct) (blast intro: pending_publish pending_release)+

lemma reach_pending: "async_reach orderly c s \<Longrightarrow> pending_ok s"
proof (induction rule: async_invariant)
  case (init w)
  show ?case by (simp add: pending_ok_def item_writers_def publishing_def releasing_def async_init_def map_filter_simps)
qed (blast intro: pending_queue pending_use step_uses)+









section \<open>Properties\<close>






text \<open>
  And nothing the queue may do is left out: at a call of \<^verbatim>\<open>enqueue\<close> or \<^verbatim>\<open>dequeue\<close> the dispatcher's
  model can claim, be refused, take an element or find none exactly when the ticket queue can, with
  the same queue afterwards: the dispatcher's guards are no stronger.
\<close>

lemma async_queue_exact:
  assumes "async_reach orderly c s" "a_phase s th = Ready"
  shows "(tq_step (cf_capacity c) (T_claim x) (async_queue s) q \<longleftrightarrow>
      can_claim c s \<and> q = async_queue (claim th x s)) \<and>
    (tq_step (cf_capacity c) T_refuse (async_queue s) q \<longleftrightarrow> can_refuse c s \<and> q = async_queue s) \<and>
    (tq_step (cf_capacity c) (T_take x) (async_queue s) q \<longleftrightarrow>
      can_take x s \<and> q = async_queue (take_item th s)) \<and>
    (tq_step (cf_capacity c) T_nothing (async_queue s) q \<longleftrightarrow> can_miss s \<and> q = async_queue s)"
proof -
  note pending = reach_pending [OF assms(1)]
  have take: "tq_items (async_queue s) = (x, True) # rest \<longleftrightarrow> can_take x s \<and> rest = tl (tq_items (async_queue s))"
    for rest by (auto simp: async_queue_def can_take_def split: list.split)
  have busy: "0 < tq_busy (async_queue s) \<longleftrightarrow> (\<exists>th. a_phase s th = Releasing)"
    using pending by (auto simp: async_queue_def pending_ok_def card_gt_0_iff releasing_def)
  have miss: "tq_items (async_queue s) = [] \<or> \<not> snd (hd (tq_items (async_queue s))) \<longleftrightarrow> can_miss s"
    by (auto simp: async_queue_def can_miss_def split: list.split)
  have length: "length (tq_items (async_queue s)) = length (a_items s)" by (simp add: async_queue_def)
  show ?thesis
    unfolding queue_claim [OF assms(2)] queue_take [OF pending assms(2)]
    by (auto simp: tq_step_simps take busy miss length can_claim_def can_refuse_def)
qed

end
