(* ===== verification/Net_Socket.thy ===== *)
theory Net_Socket
  imports Prelude "HOL-Library.Multiset" "HOL-Library.Sublist"
begin

text \<open>
  \<^verbatim>\<open>src/net/socket.cpp\<close>, its POSIX branch: the TCP and UDP clients over the socket calls of the
  operating system. The kernel is a parameter, a record of functions over an arbitrary state \<open>'o\<close>;
  every call made on it is appended to a log, from which the properties read what was opened,
  closed and sent. A loop that an interrupting kernel may keep alive is a partial function: None
  is a call that does not return.
\<close>

section \<open>The kernel and the log of its calls\<close>

datatype sock_kind = SOCK_STREAM | SOCK_DGRAM

record addr_info =
  ai_family :: int
  ai_protocol :: int
  ai_addr :: bytes

text \<open>The results of \<^verbatim>\<open>send\<close> and \<^verbatim>\<open>sendto\<close> are the count and whether \<^verbatim>\<open>errno\<close> is \<^verbatim>\<open>EINTR\<close>.\<close>

record 'o kernel =
  k_network_enabled :: bool
  k_getaddrinfo :: "bytes \<Rightarrow> bytes \<Rightarrow> sock_kind \<Rightarrow> 'o \<Rightarrow> addr_info list option \<times> 'o"
  k_socket :: "addr_info \<Rightarrow> sock_kind \<Rightarrow> 'o \<Rightarrow> int \<times> 'o"
  k_setsockopt :: "int \<Rightarrow> int \<Rightarrow> int \<Rightarrow> 'o \<Rightarrow> 'o"
  k_connect :: "int \<Rightarrow> bytes \<Rightarrow> 'o \<Rightarrow> bool \<times> 'o"
  k_send :: "int \<Rightarrow> bytes \<Rightarrow> 'o \<Rightarrow> (int \<times> bool) \<times> 'o"
  k_sendto :: "int \<Rightarrow> bytes \<Rightarrow> bytes \<Rightarrow> 'o \<Rightarrow> (int \<times> bool) \<times> 'o"
  k_close :: "int \<Rightarrow> 'o \<Rightarrow> 'o"
  k_sleep :: "u32 \<Rightarrow> 'o \<Rightarrow> 'o"

datatype os_call =
    Resolve bytes bytes sock_kind bool
  | Free_addresses
  | Open_socket sock_kind int
  | Set_timeout int int int
  | Connect int bool
  | Close int
  | Send int bytes int
  | Send_to int bytes bytes int
  | Sleep u32

type_synonym 'o net = "os_call list \<times> 'o"

definition logged :: "os_call \<Rightarrow> 'o net \<Rightarrow> 'o net" where
  "logged c n = (fst n @ [c], snd n)"

definition os_getaddrinfo ::
  "'o kernel \<Rightarrow> bytes \<Rightarrow> bytes \<Rightarrow> sock_kind \<Rightarrow> 'o net \<Rightarrow> addr_info list option \<times> 'o net" where
  "os_getaddrinfo k host service kind n =
     (case k_getaddrinfo k host service kind (snd n) of
        (r, s) \<Rightarrow> (r, logged (Resolve host service kind (r \<noteq> None)) (fst n, s)))"

definition os_socket :: "'o kernel \<Rightarrow> addr_info \<Rightarrow> sock_kind \<Rightarrow> 'o net \<Rightarrow> int \<times> 'o net" where
  "os_socket k a kind n =
     (case k_socket k a kind (snd n) of (h, s) \<Rightarrow> (h, logged (Open_socket kind h) (fst n, s)))"

definition os_connect :: "'o kernel \<Rightarrow> int \<Rightarrow> bytes \<Rightarrow> 'o net \<Rightarrow> bool \<times> 'o net" where
  "os_connect k h addr n =
     (case k_connect k h addr (snd n) of (ok, s) \<Rightarrow> (ok, logged (Connect h ok) (fst n, s)))"

definition os_send :: "'o kernel \<Rightarrow> int \<Rightarrow> bytes \<Rightarrow> 'o net \<Rightarrow> (int \<times> bool) \<times> 'o net" where
  "os_send k h data n =
     (case k_send k h data (snd n) of (r, s) \<Rightarrow> (r, logged (Send h data (fst r)) (fst n, s)))"

definition os_sendto :: "'o kernel \<Rightarrow> int \<Rightarrow> bytes \<Rightarrow> bytes \<Rightarrow> 'o net \<Rightarrow> (int \<times> bool) \<times> 'o net" where
  "os_sendto k h data dest n =
     (case k_sendto k h data dest (snd n) of
        (r, s) \<Rightarrow> (r, logged (Send_to h data dest (fst r)) (fst n, s)))"

definition freeaddrinfo :: "'o net \<Rightarrow> 'o net" where
  "freeaddrinfo n = logged Free_addresses n"

definition sleep_for :: "'o kernel \<Rightarrow> u32 \<Rightarrow> 'o net \<Rightarrow> 'o net" where
  "sleep_for k ms n = logged (Sleep ms) (fst n, k_sleep k ms (snd n))"

section \<open>Opening sockets\<close>

definition invalid_socket :: int where
  "invalid_socket = - 1"

definition close_socket :: "'o kernel \<Rightarrow> int \<Rightarrow> 'o net \<Rightarrow> 'o net" where
  "close_socket k h n = (if h \<ge> 0 then logged (Close h) (fst n, k_close k h (snd n)) else n)"

text \<open>The fields of \<^verbatim>\<open>struct timeval\<close>, for a timeout that is not negative.\<close>

definition set_socket_timeout :: "'o kernel \<Rightarrow> int \<Rightarrow> int \<Rightarrow> 'o net \<Rightarrow> 'o net" where
  "set_socket_timeout k h timeout_ms n =
     (let tv_sec = timeout_ms div 1000; tv_usec = (timeout_ms mod 1000) * 1000
      in logged (Set_timeout h tv_sec tv_usec) (fst n, k_setsockopt k h tv_sec tv_usec (snd n)))"

fun connect_addresses :: "'o kernel \<Rightarrow> addr_info list \<Rightarrow> 'o net \<Rightarrow> int option \<times> 'o net" where
  "connect_addresses k [] n = (None, n)"
| "connect_addresses k (current # addrs) n =
     (case os_socket k current SOCK_STREAM n of
        (h, n) \<Rightarrow>
          if h = invalid_socket then connect_addresses k addrs n
          else
            (case os_connect k h (ai_addr current) (set_socket_timeout k h 5000 n) of
               (ok, n) \<Rightarrow>
                 if ok then (Some h, n)
                 else connect_addresses k addrs (close_socket k h n)))"

definition connect_tcp_socket ::
  "'o kernel \<Rightarrow> bytes \<Rightarrow> u16 \<Rightarrow> 'o net \<Rightarrow> (cpp_exception + int) \<times> 'o net" where
  "connect_tcp_socket k host port n =
     (case os_getaddrinfo k host (dec_nat (unat port)) SOCK_STREAM n of
        (None, n) \<Rightarrow> (Inl (Runtime_Error ''getaddrinfo failed''), n)
      | (Some addrs, n) \<Rightarrow>
          (case connect_addresses k addrs n of
             (Some h, n) \<Rightarrow> (Inr h, freeaddrinfo n)
           | (None, n) \<Rightarrow> (Inl (Runtime_Error ''tcp connect failed''), freeaddrinfo n)))"

fun udp_addresses :: "'o kernel \<Rightarrow> addr_info list \<Rightarrow> 'o net \<Rightarrow> (int \<times> bytes) option \<times> 'o net" where
  "udp_addresses k [] n = (None, n)"
| "udp_addresses k (current # addrs) n =
     (case os_socket k current SOCK_DGRAM n of
        (h, n) \<Rightarrow>
          if h = invalid_socket then udp_addresses k addrs n
          else (Some (h, ai_addr current), set_socket_timeout k h 5000 n))"

definition configure_udp_socket ::
  "'o kernel \<Rightarrow> bytes \<Rightarrow> u16 \<Rightarrow> 'o net \<Rightarrow> (cpp_exception + int \<times> bytes) \<times> 'o net" where
  "configure_udp_socket k host port n =
     (case os_getaddrinfo k host (dec_nat (unat port)) SOCK_DGRAM n of
        (None, n) \<Rightarrow> (Inl (Runtime_Error ''getaddrinfo failed''), n)
      | (Some addrs, n) \<Rightarrow>
          (case udp_addresses k addrs n of
             (Some r, n) \<Rightarrow> (Inr r, freeaddrinfo n)
           | (None, n) \<Rightarrow> (Inl (Runtime_Error ''udp socket creation failed''), freeaddrinfo n)))"

section \<open>The TCP client\<close>

record tcp_client =
  tcp_connected :: bool
  tcp_handle :: int

definition new_tcp_client :: tcp_client where
  "new_tcp_client = \<lparr>tcp_connected = False, tcp_handle = invalid_socket\<rparr>"

text \<open>Every operation throws this when the library is built without network support.\<close>

definition network_disabled :: cpp_exception where
  "network_disabled = Runtime_Error ''network support is disabled''"

definition tcp_close :: "'o kernel \<Rightarrow> tcp_client \<times> 'o net \<Rightarrow> tcp_client \<times> 'o net" where
  "tcp_close k st =
     (case st of (c, n) \<Rightarrow>
        if \<not> tcp_connected c then (c, n)
        else (c\<lparr>tcp_handle := invalid_socket, tcp_connected := False\<rparr>, close_socket k (tcp_handle c) n))"

definition tcp_connect ::
  "'o kernel \<Rightarrow> bytes \<Rightarrow> u16 \<Rightarrow> tcp_client \<times> 'o net \<Rightarrow> (cpp_exception + unit) \<times> tcp_client \<times> 'o net" where
  "tcp_connect k host port st =
     (if \<not> k_network_enabled k then (Inl network_disabled, st)
      else
        (case tcp_close k st of (c, n) \<Rightarrow>
           (case connect_tcp_socket k host port n of
              (Inl e, n) \<Rightarrow> (Inl e, c, n)
            | (Inr h, n) \<Rightarrow> (Inr (), c\<lparr>tcp_handle := h, tcp_connected := True\<rparr>, n))))"

partial_function (option) send_loop ::
  "'o kernel \<Rightarrow> bytes \<Rightarrow> nat \<Rightarrow> tcp_client \<Rightarrow> 'o net \<Rightarrow> ((cpp_exception + unit) \<times> tcp_client \<times> 'o net) option"
where
  "send_loop k payload offset c n =
     (if offset < length payload
      then
        (case os_send k (tcp_handle c) (drop offset payload) n of
           ((sent, interrupted), n) \<Rightarrow>
             if sent < 0 \<and> interrupted then send_loop k payload offset c n
             else if sent \<le> 0
             then Some (Inl (Runtime_Error ''tcp send failed''), tcp_close k (c, n))
             else send_loop k payload (offset + nat sent) c n)
      else Some (Inr (), c, n))"

definition send_all ::
  "'o kernel \<Rightarrow> bytes \<Rightarrow> tcp_client \<times> 'o net \<Rightarrow> ((cpp_exception + unit) \<times> tcp_client \<times> 'o net) option" where
  "send_all k payload st =
     (if \<not> k_network_enabled k then Some (Inl network_disabled, st)
      else (case st of (c, n) \<Rightarrow>
        if \<not> tcp_connected c then Some (Inl (Runtime_Error ''tcp socket is not connected''), c, n)
        else send_loop k payload 0 c n))"

section \<open>The UDP client\<close>

record udp_client =
  udp_handle :: int
  udp_destination :: bytes

definition new_udp_client :: udp_client where
  "new_udp_client = \<lparr>udp_handle = invalid_socket, udp_destination = []\<rparr>"

definition udp_configured :: "udp_client \<Rightarrow> bool" where
  "udp_configured c \<longleftrightarrow> udp_destination c \<noteq> []"

definition udp_close :: "'o kernel \<Rightarrow> udp_client \<times> 'o net \<Rightarrow> udp_client \<times> 'o net" where
  "udp_close k st =
     (case st of (c, n) \<Rightarrow>
        if udp_destination c = [] then (c, n)
        else (c\<lparr>udp_destination := [], udp_handle := invalid_socket\<rparr>, close_socket k (udp_handle c) n))"

definition udp_configure ::
  "'o kernel \<Rightarrow> bytes \<Rightarrow> u16 \<Rightarrow> udp_client \<times> 'o net \<Rightarrow> (cpp_exception + unit) \<times> udp_client \<times> 'o net" where
  "udp_configure k host port st =
     (if \<not> k_network_enabled k then (Inl network_disabled, st)
      else
        (case udp_close k st of (c, n) \<Rightarrow>
           (case configure_udp_socket k host port n of
              (Inl e, n) \<Rightarrow> (Inl e, c, n)
            | (Inr (h, dest), n) \<Rightarrow> (Inr (), c\<lparr>udp_handle := h, udp_destination := dest\<rparr>, n))))"

partial_function (option) udp_send_loop ::
  "'o kernel \<Rightarrow> bytes \<Rightarrow> udp_client \<Rightarrow> 'o net \<Rightarrow> ((cpp_exception + unit) \<times> udp_client \<times> 'o net) option"
where
  "udp_send_loop k payload c n =
     (case os_sendto k (udp_handle c) payload (udp_destination c) n of
        ((sent, interrupted), n) \<Rightarrow>
          if sent < 0 \<and> interrupted then udp_send_loop k payload c n
          else if sent < 0 then Some (Inl (Runtime_Error ''udp send failed''), udp_close k (c, n))
          else Some (Inr (), c, n))"

definition udp_send ::
  "'o kernel \<Rightarrow> bytes \<Rightarrow> udp_client \<times> 'o net \<Rightarrow> ((cpp_exception + unit) \<times> udp_client \<times> 'o net) option" where
  "udp_send k payload st =
     (if \<not> k_network_enabled k then Some (Inl network_disabled, st)
      else (case st of (c, n) \<Rightarrow>
        if udp_destination c = [] then Some (Inl (Runtime_Error ''udp socket is not configured''), c, n)
        else udp_send_loop k payload c n))"

end
