(* ===== verification/Net_Clients.thy ===== *)
theory Net_Clients
  imports Net_Socket
begin

text \<open>
  What the socket clients guarantee, read from the log of kernel calls: which sockets and address
  lists are open, which bytes each connection carries, and that sending returns.
\<close>

section \<open>Assumptions on the kernel\<close>

text \<open>POSIX: a descriptor is -1 or not negative, an address is never empty, no more is sent than offered.\<close>

definition posix_kernel :: "'o kernel \<Rightarrow> bool" where
  "posix_kernel k \<longleftrightarrow>
     (\<forall>a kind s. - 1 \<le> fst (k_socket k a kind s)) \<and>
     (\<forall>host service kind s addrs. fst (k_getaddrinfo k host service kind s) = Some addrs \<longrightarrow>
        (\<forall>a \<in> set addrs. ai_addr a \<noteq> [])) \<and>
     (\<forall>h data s. fst (fst (k_send k h data s)) \<le> int (length data))"

text \<open>A call is interrupted only finitely often in a row: \<open>\<mu>\<close> bounds the interruptions to come.\<close>

definition interrupts_end :: "'o kernel \<Rightarrow> ('o \<Rightarrow> nat) \<Rightarrow> bool" where
  "interrupts_end k \<mu> \<longleftrightarrow>
     (\<forall>h data s. \<mu> (snd (k_send k h data s)) \<le> \<mu> s \<and>
        (fst (fst (k_send k h data s)) < 0 \<and> snd (fst (k_send k h data s)) \<longrightarrow>
           \<mu> (snd (k_send k h data s)) < \<mu> s)) \<and>
     (\<forall>h data dest s. fst (fst (k_sendto k h data dest s)) < 0 \<and> snd (fst (k_sendto k h data dest s)) \<longrightarrow>
        \<mu> (snd (k_sendto k h data dest s)) < \<mu> s)"

section \<open>Open sockets and address lists\<close>

fun open_step :: "int multiset \<Rightarrow> os_call \<Rightarrow> int multiset" where
  "open_step hs (Open_socket kind h) = (if h = invalid_socket then hs else add_mset h hs)"
| "open_step hs (Close h) = hs - {#h#}"
| "open_step hs _ = hs"

definition open_handles :: "os_call list \<Rightarrow> int multiset" where
  "open_handles calls = foldl open_step {#} calls"

fun list_step :: "int \<Rightarrow> os_call \<Rightarrow> int" where
  "list_step n (Resolve host service kind ok) = (if ok then n + 1 else n)"
| "list_step n Free_addresses = n - 1"
| "list_step n _ = n"

definition open_lists :: "os_call list \<Rightarrow> int" where
  "open_lists calls = foldl list_step 0 calls"

lemma open_append [simp]:
  "open_handles [] = {#}" "open_lists [] = 0"
  "open_handles (calls @ cs) = foldl open_step (open_handles calls) cs"
  "open_lists (calls @ cs) = foldl list_step (open_lists calls) cs"
  by (simp_all add: open_handles_def open_lists_def)

text \<open>What a client holds: its socket while it is connected, and no address list.\<close>

definition tcp_holds :: "tcp_client \<times> 'o net \<Rightarrow> int multiset \<Rightarrow> int \<Rightarrow> bool" where
  "tcp_holds st hs n \<longleftrightarrow>
     (case st of (c, calls, s) \<Rightarrow>
        open_handles calls = hs + (if tcp_connected c then {#tcp_handle c#} else {#}) \<and>
        (tcp_connected c \<longrightarrow> 0 \<le> tcp_handle c) \<and> open_lists calls = n)"

definition udp_holds :: "udp_client \<times> 'o net \<Rightarrow> int multiset \<Rightarrow> int \<Rightarrow> bool" where
  "udp_holds st hs n \<longleftrightarrow>
     (case st of (c, calls, s) \<Rightarrow>
        open_handles calls = hs + (if udp_configured c then {#udp_handle c#} else {#}) \<and>
        (udp_configured c \<longrightarrow> 0 \<le> udp_handle c) \<and> open_lists calls = n)"

lemmas os_ops = os_getaddrinfo_def os_socket_def os_connect_def os_send_def os_sendto_def
  freeaddrinfo_def sleep_for_def close_socket_def set_socket_timeout_def logged_def Let_def

lemma socket_handle: "posix_kernel k \<Longrightarrow> k_socket k a kind s = (h, s') \<Longrightarrow> h \<noteq> invalid_socket \<Longrightarrow> 0 \<le> h"
proof -
  assume "posix_kernel k" "k_socket k a kind s = (h, s')" "h \<noteq> invalid_socket"
  moreover have "- 1 \<le> fst (k_socket k a kind s)" using calculation(1) by (simp add: posix_kernel_def)
  ultimately have "- 1 \<le> h" "h \<noteq> - 1" by (simp_all add: invalid_socket_def)
  then show ?thesis by simp
qed

lemma connect_addresses_holds:
  assumes "posix_kernel k" "connect_addresses k addrs n = (r, n')"
  shows "open_handles (fst n') =
      open_handles (fst n) + (case r of Some h \<Rightarrow> {#h#} | None \<Rightarrow> {#}) \<and>
    (\<forall>h. r = Some h \<longrightarrow> 0 \<le> h) \<and> open_lists (fst n') = open_lists (fst n)"
  using assms(2)
proof (induction addrs arbitrary: n)
  case (Cons a addrs)
  show ?case
    using Cons.prems socket_handle [OF assms(1)]
    by (auto simp: os_ops split: prod.splits if_splits dest!: Cons.IH)
qed simp

lemma udp_addresses_holds:
  assumes "posix_kernel k" "udp_addresses k addrs n = (r, n')" "\<forall>a \<in> set addrs. ai_addr a \<noteq> []"
  shows "open_handles (fst n') =
      open_handles (fst n) + (case r of Some (h, d) \<Rightarrow> {#h#} | None \<Rightarrow> {#}) \<and>
    (\<forall>h d. r = Some (h, d) \<longrightarrow> 0 \<le> h \<and> d \<noteq> []) \<and> open_lists (fst n') = open_lists (fst n)"
  using assms(2,3)
proof (induction addrs arbitrary: n)
  case (Cons a addrs)
  show ?case
    using Cons.prems socket_handle [OF assms(1)]
    by (auto simp: os_ops split: prod.splits if_splits dest!: Cons.IH)
qed simp

lemma tcp_close_holds:
  "tcp_holds st hs n \<Longrightarrow> tcp_holds (tcp_close k st) hs n \<and> \<not> tcp_connected (fst (tcp_close k st))"
  by (auto simp: tcp_holds_def tcp_close_def os_ops split: prod.splits)

lemma udp_close_holds:
  "udp_holds st hs n \<Longrightarrow> udp_holds (udp_close k st) hs n \<and> \<not> udp_configured (fst (udp_close k st))"
  by (auto simp: udp_holds_def udp_close_def udp_configured_def os_ops split: prod.splits)

lemma tcp_connect_holds:
  assumes "posix_kernel k" "tcp_holds st hs n"
  shows "tcp_holds (snd (tcp_connect k host port st)) hs n"
proof (cases "k_network_enabled k")
  case True
  obtain c m where closed: "tcp_close k st = (c, m)" by (cases "tcp_close k st")
  with tcp_close_holds [OF assms(2), of k] have m: "tcp_holds (c, m) hs n" "\<not> tcp_connected c" by simp_all
  obtain r m1 where res: "os_getaddrinfo k host (dec_nat (unat port)) SOCK_STREAM m = (r, m1)" by (cases "os_getaddrinfo k host (dec_nat (unat port)) SOCK_STREAM m")
  show ?thesis
  proof (cases r)
    case None
    with res m closed True show ?thesis
      by (auto simp: tcp_connect_def connect_tcp_socket_def tcp_holds_def os_ops split: prod.splits)
  next
    case (Some addrs)
    obtain r' m2 where con: "connect_addresses k addrs m1 = (r', m2)" by (cases "connect_addresses k addrs m1")
    have "open_handles (fst m1) = hs" "open_lists (fst m1) = n + 1"
      using res m Some by (auto simp: os_ops tcp_holds_def split: prod.splits)
    with connect_addresses_holds [OF assms(1) con] res m closed True Some con show ?thesis
      by (cases r') (auto simp: tcp_connect_def connect_tcp_socket_def tcp_holds_def os_ops split: prod.splits)
  qed
qed (simp add: tcp_connect_def assms(2))

lemma udp_configure_holds:
  assumes "posix_kernel k" "udp_holds st hs n"
  shows "udp_holds (snd (udp_configure k host port st)) hs n"
proof (cases "k_network_enabled k")
  case True
  obtain c m where closed: "udp_close k st = (c, m)" by (cases "udp_close k st")
  with udp_close_holds [OF assms(2), of k] have m: "udp_holds (c, m) hs n" "\<not> udp_configured c" by simp_all
  obtain r m1 where res: "os_getaddrinfo k host (dec_nat (unat port)) SOCK_DGRAM m = (r, m1)" by (cases "os_getaddrinfo k host (dec_nat (unat port)) SOCK_DGRAM m")
  show ?thesis
  proof (cases r)
    case None
    with res m closed True show ?thesis
      by (auto simp: udp_configure_def configure_udp_socket_def udp_holds_def os_ops split: prod.splits)
  next
    case (Some addrs)
    obtain r' m2 where con: "udp_addresses k addrs m1 = (r', m2)" by (cases "udp_addresses k addrs m1")
    have addr: "\<forall>a \<in> set addrs. ai_addr a \<noteq> []"
      using assms(1) res Some by (auto simp: posix_kernel_def os_ops split: prod.splits) (metis fst_conv)
    have "open_handles (fst m1) = hs" "open_lists (fst m1) = n + 1"
      using res m Some by (auto simp: os_ops udp_holds_def split: prod.splits)
    note opened = udp_addresses_holds [OF assms(1) con addr]
    have run: "udp_configure k host port st =
        (case r' of Some (h, dest) \<Rightarrow> (Inr (), c\<lparr>udp_handle := h, udp_destination := dest\<rparr>, freeaddrinfo m2)
         | None \<Rightarrow> (Inl (Runtime_Error ''udp socket creation failed''), c, freeaddrinfo m2))"
      using True closed res Some con
      by (simp add: udp_configure_def configure_udp_socket_def split: option.split prod.split)
    have "open_lists (fst m2) = n + 1" "open_handles (fst m2) = hs + (case r' of Some (h, d) \<Rightarrow> {#h#} | None \<Rightarrow> {#})"
      using opened \<open>open_handles (fst m1) = hs\<close> \<open>open_lists (fst m1) = n + 1\<close> by simp_all
    with opened m show ?thesis
      unfolding run by (auto simp: udp_holds_def udp_configured_def freeaddrinfo_def logged_def split: option.split)
  qed
qed (simp add: udp_configure_def assms(2))

section \<open>Bytes on a connection\<close>

text \<open>What a call adds to the connection of its socket.\<close>

fun accepted :: "os_call \<Rightarrow> bytes" where
  "accepted (Send h data r) = take (nat r) data"
| "accepted _ = []"

fun sends_on :: "int \<Rightarrow> os_call \<Rightarrow> bool" where
  "sends_on h (Send h' data r) = (h' = h)"
| "sends_on h _ = False"

definition closing :: "int \<Rightarrow> os_call list" where
  "closing h = (if h \<ge> 0 then [Close h] else [])"

definition delivery :: "tcp_client \<Rightarrow> os_call list \<Rightarrow> bytes \<Rightarrow> (cpp_exception + unit) \<times> tcp_client \<times> 'o net \<Rightarrow> bool" where
  "delivery c calls payload res \<longleftrightarrow>
     (case res of (r, c', calls', s) \<Rightarrow>
        \<exists>sends. list_all (sends_on (tcp_handle c)) sends \<and>
          (if r = Inr () then c' = c \<and> calls' = calls @ sends \<and> concat (map accepted sends) = payload
           else r = Inl (Runtime_Error ''tcp send failed'') \<and>
             c' = c\<lparr>tcp_handle := invalid_socket, tcp_connected := False\<rparr> \<and>
             calls' = calls @ sends @ closing (tcp_handle c) \<and>
             strict_prefix (concat (map accepted sends)) payload))"

lemma delivery_step:
  assumes "delivery c (calls @ [Send (tcp_handle c) data r]) rest res" "payload = take (nat r) data @ rest"
  shows "delivery c calls payload res"
proof -
  obtain r' c' calls' s where res: "res = (r', c', calls', s)" by (cases res)
  from assms(1) obtain sends where "list_all (sends_on (tcp_handle c)) sends"
    "if r' = Inr () then c' = c \<and> calls' = (calls @ [Send (tcp_handle c) data r]) @ sends \<and> concat (map accepted sends) = rest
     else r' = Inl (Runtime_Error ''tcp send failed'') \<and>
       c' = c\<lparr>tcp_handle := invalid_socket, tcp_connected := False\<rparr> \<and>
       calls' = (calls @ [Send (tcp_handle c) data r]) @ sends @ closing (tcp_handle c) \<and>
       strict_prefix (concat (map accepted sends)) rest"
    unfolding delivery_def res by auto
  then show ?thesis
    unfolding delivery_def res prod.case using assms(2)
    by (intro exI [of _ "Send (tcp_handle c) data r # sends"]) (auto simp: strict_prefix_def split: if_splits)
qed

lemma send_loop_delivers:
  "send_loop k payload offset c n = Some res \<Longrightarrow> posix_kernel k \<Longrightarrow> tcp_connected c \<Longrightarrow>
     offset \<le> length payload \<Longrightarrow> delivery c (fst n) (drop offset payload) res"
proof (induction k payload offset c n res rule: send_loop.raw_induct [rotated 1, consumes 1])
  case (1 f k payload offset c n res)
  note IH = 1(1) and run = 1(2) and posix = 1(3) and con = 1(4) and le = 1(5)
  show ?case
  proof (cases "offset < length payload")
    case False
    with run have "res = (Inr (), c, fst n, snd n)" by simp
    with False le show ?thesis
      by (auto simp: delivery_def case_prod_unfold intro!: exI [of _ "[]"])
  next
    case True
    let ?data = "drop offset payload"
    obtain sent interrupted s where send: "k_send k (tcp_handle c) ?data (snd n) = ((sent, interrupted), s)"
      by (metis surj_pair)
    let ?n = "(fst n @ [Send (tcp_handle c) ?data sent], s)"
    have os: "os_send k (tcp_handle c) ?data n = ((sent, interrupted), ?n)"
      by (simp add: os_send_def send logged_def)
    have "fst (fst (k_send k (tcp_handle c) ?data (snd n))) \<le> int (length ?data)"
      using posix unfolding posix_kernel_def by blast
    then have "sent \<le> int (length ?data)" by (simp only: send fst_conv)
    then have fits: "nat sent \<le> length payload - offset" using True by simp
    consider "sent < 0" "interrupted" | "sent \<le> 0" "\<not> (sent < 0 \<and> interrupted)" | "0 < sent" by linarith
    then show ?thesis
    proof cases
      case 1
      with run True os have "f k payload offset c ?n = Some res" by simp
      from IH [OF this posix con le] have "delivery c (fst ?n) ?data res" .
      with 1 show ?thesis using delivery_step [of c "fst n" ?data sent ?data res] by simp
    next
      case 2
      with run True os have "res = (Inl (Runtime_Error ''tcp send failed''), tcp_close k (c, ?n))" by simp
      with 2 True con show ?thesis
        by (auto simp: delivery_def tcp_close_def close_socket_def logged_def closing_def strict_prefix_def
            intro!: exI [of _ "[Send (tcp_handle c) ?data sent]"])
    next
      case 3
      with run True os have step: "f k payload (offset + nat sent) c ?n = Some res" by simp
      have "delivery c (fst ?n) (drop (offset + nat sent) payload) res"
        by (rule IH [OF step posix con]) (use fits True in linarith)
      moreover have "?data = take (nat sent) ?data @ drop (offset + nat sent) payload"
        by (metis append_take_drop_id drop_drop add.commute)
      ultimately show ?thesis
        using delivery_step [of c "fst n" ?data sent "drop (offset + nat sent) payload" res ?data]
        by (simp only: fst_conv)
    qed
  qed
qed

text \<open>A kernel that stops interrupting lets the loop return.\<close>

lemma send_loop_returns:
  assumes "interrupts_end k \<mu>"
  shows "send_loop k payload offset c n \<noteq> None"
proof (induction "length payload - offset + \<mu> (snd n)" arbitrary: offset n rule: less_induct)
  case less
  show ?case
  proof (cases "offset < length payload")
    case True
    obtain sent interrupted s where
      send: "k_send k (tcp_handle c) (drop offset payload) (snd n) = ((sent, interrupted), s)"
      by (metis surj_pair)
    let ?n = "(fst n @ [Send (tcp_handle c) (drop offset payload) sent], s)"
    have os: "os_send k (tcp_handle c) (drop offset payload) n = ((sent, interrupted), ?n)"
      by (simp add: os_send_def send logged_def)
    have fewer: "\<mu> s \<le> \<mu> (snd n)" "sent < 0 \<and> interrupted \<longrightarrow> \<mu> s < \<mu> (snd n)"
      using assms send unfolding interrupts_end_def by (metis fst_conv snd_conv)+
    note unfold = send_loop.simps [of k payload offset c n]
    consider "sent < 0" "interrupted" | "sent \<le> 0" "\<not> (sent < 0 \<and> interrupted)" | "0 < sent" by linarith
    then show ?thesis
    proof cases
      case 1
      with less [of offset ?n] fewer show ?thesis unfolding unfold using True os by simp
    next
      case 2
      moreover obtain c' n' where "tcp_close k (c, ?n) = (c', n')" by (cases "tcp_close k (c, ?n)")
      ultimately show ?thesis unfolding unfold using True os by auto
    next
      case 3
      with less [of "offset + nat sent" ?n] fewer True show ?thesis
        unfolding unfold using os by simp
    qed
  qed (simp add: send_loop.simps)
qed

lemma udp_send_loop_returns:
  assumes "interrupts_end k \<mu>"
  shows "udp_send_loop k payload c n \<noteq> None"
proof (induction "\<mu> (snd n)" arbitrary: n rule: less_induct)
  case less
  obtain sent interrupted s where
    send: "k_sendto k (udp_handle c) payload (udp_destination c) (snd n) = ((sent, interrupted), s)"
    by (metis surj_pair)
  let ?n = "(fst n @ [Send_to (udp_handle c) payload (udp_destination c) sent], s)"
  have os: "os_sendto k (udp_handle c) payload (udp_destination c) n = ((sent, interrupted), ?n)"
    by (simp add: os_sendto_def send logged_def)
  have "sent < 0 \<and> interrupted \<longrightarrow> \<mu> s < \<mu> (snd n)"
    using assms send unfolding interrupts_end_def by (metis fst_conv snd_conv)
  moreover obtain c' n' where "udp_close k (c, ?n) = (c', n')" by (cases "udp_close k (c, ?n)")
  ultimately show ?case
    unfolding udp_send_loop.simps [of k payload c n] using os less [of ?n] by auto
qed

end
