(* ===== verification/Net_Retry.thy ===== *)
theory Net_Retry
  imports Net_Clients
begin

text \<open>
  What the three network sinks share: the statistics of
  \<^verbatim>\<open>include/logspine/sinks/network_sink_statistics.hpp\<close>, the contract of their write loop (try,
  count, back off, try again) as a locale, and what a connection carries over many deliveries.
\<close>

section \<open>Statistics\<close>

record network_sink_statistics =
  write_attempts :: u64
  write_failures :: u64
  reconnect_attempts :: u64

definition no_statistics :: network_sink_statistics where
  "no_statistics = \<lparr>write_attempts = 0, write_failures = 0, reconnect_attempts = 0\<rparr>"

definition count_failure :: "network_sink_statistics \<Rightarrow> network_sink_statistics" where
  "count_failure s = s\<lparr>write_failures := write_failures s + 1\<rparr>"

definition count_reconnect :: "network_sink_statistics \<Rightarrow> network_sink_statistics" where
  "count_reconnect s = s\<lparr>reconnect_attempts := reconnect_attempts s + 1\<rparr>"

definition count_attempt :: "network_sink_statistics \<Rightarrow> network_sink_statistics" where
  "count_attempt s = s\<lparr>write_attempts := write_attempts s + 1\<rparr>"

lemmas counting = count_failure_def count_reconnect_def count_attempt_def

text \<open>\<^verbatim>\<open>error.what()\<close>; every exception the transports throw derives from \<^verbatim>\<open>std::exception\<close>.\<close>

fun what :: "cpp_exception \<Rightarrow> bytes" where
  "what (Invalid_Argument m) = m"
| "what (Runtime_Error m) = m"

definition next_backoff :: "u32 \<Rightarrow> u32" where
  "next_backoff ms = min (ms * 2) 1000"

section \<open>The contract of a write loop\<close>

type_synonym 'x outcome = "(cpp_exception + unit) \<times> 'x"

locale write_retry =
  fixes attempt :: "'x \<Rightarrow> 'x outcome option"
    and recover :: "u32 \<Rightarrow> 'x \<Rightarrow> 'x outcome"
    and loop :: "nat \<Rightarrow> u32 \<Rightarrow> 'x \<Rightarrow> 'x outcome option"
    and stats :: "'x \<Rightarrow> network_sink_statistics"
  assumes loop_step: "loop n backoff x =
      (case attempt x of
         None \<Rightarrow> None
       | Some (Inr u, x) \<Rightarrow> Some (Inr u, x)
       | Some (Inl e, x) \<Rightarrow>
           (case n of
              0 \<Rightarrow> Some (Inl e, x)
            | Suc m \<Rightarrow>
                (case recover backoff x of
                   (Inl e, x) \<Rightarrow> Some (Inl e, x)
                 | (Inr u, x) \<Rightarrow> loop m (next_backoff backoff) x)))"
    and attempt_counts: "attempt x = Some (r, x') \<Longrightarrow>
      stats x' = (if r = Inr () then stats x else count_failure (stats x))"
    and recover_counts: "stats (snd (recover backoff x)) = count_reconnect (stats x)"
begin

text \<open>The loop ends when every attempt does: it makes at most one more attempt than it has retries.\<close>

lemma loop_returns:
  assumes "\<And>x. attempt x \<noteq> None"
  shows "loop n backoff x \<noteq> None"
proof (induction n arbitrary: backoff x)
  case 0
  show ?case unfolding loop_step [of 0] using assms [of x] by (auto split: sum.splits)
next
  case (Suc n)
  show ?case unfolding loop_step [of "Suc n"] using assms [of x] Suc by (auto split: sum.splits prod.splits)
qed

lemma loop_cases:
  assumes "loop n backoff x = Some (r, x')"
  obtains (ended) "attempt x = Some (r, x')" "r = Inr () \<or> n = 0"
  | (stuck) e y m where "attempt x = Some (Inl e, y)" "n = Suc m" "recover backoff y = (r, x')" "r \<noteq> Inr ()"
  | (again) e y m z where "attempt x = Some (Inl e, y)" "n = Suc m" "recover backoff y = (Inr (), z)"
      "loop m (next_backoff backoff) z = Some (r, x')"
proof -
  obtain a y where a: "attempt x = Some (a, y)"
    using assms loop_step [of n backoff x] by (cases "attempt x") auto
  show thesis
  proof (cases a)
    case (Inr u)
    with assms loop_step [of n backoff x] a ended show thesis by simp
  next
    case (Inl e)
    show thesis
    proof (cases n)
      case 0
      with assms loop_step [of n backoff x] a Inl ended show thesis by simp
    next
      case (Suc m)
      obtain b z where b: "recover backoff y = (b, z)" by (cases "recover backoff y")
      show thesis
        using assms loop_step [of n backoff x] a Inl Suc b stuck again by (cases b) simp_all
    qed
  qed
qed

text \<open>What an attempt keeps when it fails and establishes when it succeeds, the loop does.\<close>

lemma loop_establishes:
  assumes "\<And>x r x'. P x \<Longrightarrow> attempt x = Some (r, x') \<Longrightarrow> if r = Inr () then Q x' else P x'"
    and "\<And>x b. P x \<Longrightarrow> P (snd (recover b x))"
    and "P x" "loop n backoff x = Some (r, x')"
  shows "if r = Inr () then Q x' else P x'"
  using assms(3,4)
proof (induction n arbitrary: backoff x)
  case (Suc n)
  from Suc.prems(2) show ?case
  proof (cases rule: loop_cases)
    case ended
    then show ?thesis using assms(1) [OF Suc.prems(1)] by blast
  next
    case (stuck e y m)
    with assms(1) [OF Suc.prems(1) stuck(1)] assms(2) [of y backoff] show ?thesis by simp
  next
    case (again e y m z)
    with assms(1) [OF Suc.prems(1) again(1)] assms(2) [of y backoff] have "P z" by simp
    moreover have "loop n (next_backoff backoff) z = Some (r, x')" using again by simp
    ultimately show ?thesis by (rule Suc.IH)
  qed
next
  case 0
  from 0(2) have "attempt x = Some (r, x')" by (cases rule: loop_cases) simp_all
  then show ?case by (rule assms(1) [OF 0(1)])
qed

text \<open>
  Accounting: each failure is counted and each retry is counted; a loop that gives up after its
  retries has failed once more than it retried, one whose recovery threw as often as it retried.
\<close>

lemma loop_accounting:
  assumes "loop n backoff x = Some (r, x')"
  shows "\<exists>f c. stats x' = (stats x)\<lparr>write_failures := write_failures (stats x) + of_nat f,
      reconnect_attempts := reconnect_attempts (stats x) + of_nat c\<rparr> \<and>
    c \<le> n \<and> (f = c \<or> f = Suc c \<and> r \<noteq> Inr () \<and> c = n) \<and>
    (f = c \<longrightarrow> r = Inr () \<or> (\<exists>b y. recover b y = (r, x')))"
  using assms
proof (induction n arbitrary: backoff x)
  case 0
  then have "attempt x = Some (r, x')" by (cases rule: loop_cases) simp_all
  note counts = attempt_counts [OF this]
  show ?case
  proof (cases "r = Inr ()")
    case True
    with counts show ?thesis by (intro exI [of _ "0::nat"]) simp
  next
    case False
    with counts show ?thesis
      by (intro exI [of _ "Suc 0"] exI [of _ "0::nat"]) (simp add: counting)
  qed
next
  case (Suc n)
  from Suc.prems show ?case
  proof (cases rule: loop_cases)
    case ended
    with attempt_counts [OF ended(1)] show ?thesis by (intro exI [of _ "0::nat"]) simp
  next
    case (stuck e y m)
    with attempt_counts [OF stuck(1)] recover_counts [of backoff y]
    show ?thesis by (intro exI [of _ "Suc 0"]) (auto simp: counting)
  next
    case (again e y m z)
    then have "loop n (next_backoff backoff) z = Some (r, x')" by simp
    from Suc.IH [OF this] obtain f c where fc:
      "stats x' = (stats z)\<lparr>write_failures := write_failures (stats z) + of_nat f,
        reconnect_attempts := reconnect_attempts (stats z) + of_nat c\<rparr>"
      "c \<le> n" "f = c \<or> f = Suc c \<and> r \<noteq> Inr () \<and> c = n"
      "f = c \<longrightarrow> r = Inr () \<or> (\<exists>b y. recover b y = (r, x'))" by blast
    have "stats z = count_reconnect (count_failure (stats x))"
      using attempt_counts [OF again(1)] recover_counts [of backoff y] again(3) by simp
    then have "stats x' = (stats x)\<lparr>write_failures := write_failures (stats x) + of_nat (Suc f),
        reconnect_attempts := reconnect_attempts (stats x) + of_nat (Suc c)\<rparr>"
      using fc(1) by (simp add: counting add_ac)
    with fc(2-4) show ?thesis by (intro exI [of _ "Suc f"] exI [of _ "Suc c"]) auto
  qed
qed

end

end
