(* ===== verification/Net_Streams.thy ===== *)
theory Net_Streams
  imports Net_Retry Sink
begin

text \<open>
  What the TCP connections of a client carry over many deliveries: the bytes of each connection, in
  the order in which the connections were made, as whole payloads and at most one torn payload at
  the end of a connection that is closed.
\<close>

section \<open>Connections\<close>

fun stream_step :: "bytes list \<Rightarrow> os_call \<Rightarrow> bytes list" where
  "stream_step ss (Connect h ok) = (if ok then ss @ [[]] else ss)"
| "stream_step ss (Send h data r) = (if ss = [] then [] else butlast ss @ [last ss @ take (nat r) data])"
| "stream_step ss _ = ss"

definition streams :: "os_call list \<Rightarrow> bytes list" where
  "streams calls = foldl stream_step [] calls"

lemma streams_append [simp]:
  "streams [] = []" "streams (calls @ cs) = foldl stream_step (streams calls) cs"
  by (simp_all add: streams_def)

definition extend :: "bytes \<Rightarrow> bytes list \<Rightarrow> bytes list" where
  "extend p ss = (if ss = [] then [] else butlast ss @ [last ss @ p])"

lemma extend_extend: "extend q (extend p ss) = extend (p @ q) ss"
  by (simp add: extend_def)

lemma sends_extend:
  "list_all (sends_on h) sends \<Longrightarrow> foldl stream_step ss sends = extend (concat (map accepted sends)) ss"
proof (induction sends arbitrary: ss)
  case Nil
  then show ?case by (simp add: extend_def)
next
  case (Cons c sends)
  then obtain data r where c: "c = Send h data r" by (cases c) auto
  with Cons show ?case using extend_extend [of _ "accepted c" ss] by (simp add: extend_def)
qed

lemma closing_streams [simp]: "foldl stream_step ss (closing h) = ss"
  by (simp add: closing_def)

lemma tcp_close_streams: "streams (fst (snd (tcp_close k st))) = streams (fst (snd st))"
  by (auto simp: tcp_close_def close_socket_def logged_def split: prod.splits)

lemma connect_addresses_streams:
  "connect_addresses k addrs n = (r, n') \<Longrightarrow>
     streams (fst n') = streams (fst n) @ (if r = None then [] else [[]])"
proof (induction addrs arbitrary: n)
  case (Cons a addrs)
  then show ?case by (auto simp: os_ops split: prod.splits if_splits dest!: Cons.IH)
qed simp

lemma tcp_connect_streams:
  assumes "tcp_connect k host port st = (r, st')"
  shows "streams (fst (snd st')) = streams (fst (snd st)) @ (if r = Inr () then [[]] else []) \<and>
    (r = Inr () \<longrightarrow> tcp_connected (fst st')) \<and>
    (r \<noteq> Inr () \<longrightarrow> tcp_connected (fst st') \<longrightarrow> st' = st)"
proof (cases "k_network_enabled k")
  case True
  obtain c m where closed: "tcp_close k st = (c, m)" by (cases "tcp_close k st")
  have c: "\<not> tcp_connected c" using closed by (auto simp: tcp_close_def split: prod.splits if_splits)
  have m: "streams (fst m) = streams (fst (snd st))" using tcp_close_streams [of k st] closed by simp
  obtain q m1 where res: "os_getaddrinfo k host (dec_nat (unat port)) SOCK_STREAM m = (q, m1)"
    by (cases "os_getaddrinfo k host (dec_nat (unat port)) SOCK_STREAM m")
  have m1: "streams (fst m1) = streams (fst m)" using res by (auto simp: os_ops split: prod.splits)
  show ?thesis
  proof (cases q)
    case None
    with assms True closed res c m m1 show ?thesis
      by (auto simp: tcp_connect_def connect_tcp_socket_def)
  next
    case (Some addrs)
    obtain h m2 where con: "connect_addresses k addrs m1 = (h, m2)" by (cases "connect_addresses k addrs m1")
    from connect_addresses_streams [OF con] assms True closed res Some con c m m1 show ?thesis
      by (cases h) (auto simp: tcp_connect_def connect_tcp_socket_def freeaddrinfo_def logged_def)
  qed
qed (use assms in \<open>auto simp: tcp_connect_def\<close>)

section \<open>Deliveries\<close>

text \<open>The try block shared by the TCP sinks: connect unless connected, then send everything.\<close>

definition deliver ::
  "'o kernel \<Rightarrow> bytes \<Rightarrow> u16 \<Rightarrow> bytes \<Rightarrow> tcp_client \<times> 'o net \<Rightarrow> (tcp_client \<times> 'o net) outcome option" where
  "deliver k host port payload st =
     (case (if tcp_connected (fst st) then (Inr (), st) else tcp_connect k host port st) of
        (Inl e, st) \<Rightarrow> Some (Inl e, st)
      | (Inr u, st) \<Rightarrow> send_all k payload st)"

definition segment_bytes :: "bytes list \<times> bytes \<Rightarrow> bytes" where
  "segment_bytes seg = concat (fst seg) @ snd seg"

definition carries :: "(bytes \<Rightarrow> bool) \<Rightarrow> tcp_client \<times> 'o net \<Rightarrow> bytes list \<Rightarrow> bool" where
  "carries P st delivered \<longleftrightarrow>
     (\<exists>segs. streams (fst (snd st)) = map segment_bytes segs \<and> concat (map fst segs) = delivered \<and>
        (\<forall>seg \<in> set segs. snd seg = [] \<or> (\<exists>p. P p \<and> strict_prefix (snd seg) p)) \<and>
        (tcp_connected (fst st) \<longrightarrow> segs \<noteq> [] \<and> snd (last segs) = []))"

lemma carries_disconnect:
  "carries P st delivered \<Longrightarrow> carries P (tcp_close k st) delivered"
  unfolding carries_def tcp_close_streams
  by (auto simp: tcp_close_def split: prod.splits)

lemma carries_extend:
  assumes "carries P (c, calls, s) delivered" "tcp_connected c"
    and "streams calls' = extend q (streams calls)"
    and "r \<and> q = p \<and> c' = c \<or> \<not> r \<and> P p \<and> strict_prefix q p \<and> \<not> tcp_connected c'"
  shows "carries P (c', calls', s') (delivered @ (if r then [p] else []))"
proof -
  from assms(1,2) obtain segs where segs: "streams calls = map segment_bytes segs"
    "concat (map fst segs) = delivered"
    "\<forall>seg \<in> set segs. snd seg = [] \<or> (\<exists>p. P p \<and> strict_prefix (snd seg) p)"
    "segs \<noteq> []" "snd (last segs) = []" by (auto simp: carries_def)
  then obtain init ps where init: "segs = init @ [(ps, [])]"
    by (metis append_butlast_last_id prod.collapse)
  let ?segs = "init @ [if r then (ps @ [p], []) else (ps, q)]"
  have "streams calls' = map segment_bytes ?segs"
    using assms(3,4) segs(1) by (auto simp: init extend_def segment_bytes_def)
  moreover have "concat (map fst ?segs) = delivered @ (if r then [p] else [])"
    using segs(2) by (simp add: init)
  moreover have "\<forall>seg \<in> set ?segs. snd seg = [] \<or> (\<exists>p. P p \<and> strict_prefix (snd seg) p)"
    using segs(3) assms(4) by (auto simp: init)
  moreover have "tcp_connected c' \<longrightarrow> ?segs \<noteq> [] \<and> snd (last ?segs) = []" using assms(4) by auto
  ultimately show ?thesis unfolding carries_def fst_conv snd_conv by blast
qed

lemma carries_connect:
  assumes "carries P st delivered" "tcp_connect k host port st = (r, st')"
  shows "carries P st' delivered"
proof -
  note con = tcp_connect_streams [OF assms(2)]
  from assms(1) obtain segs where segs: "streams (fst (snd st)) = map segment_bytes segs"
    "concat (map fst segs) = delivered"
    "\<forall>seg \<in> set segs. snd seg = [] \<or> (\<exists>p. P p \<and> strict_prefix (snd seg) p)" by (auto simp: carries_def)
  show ?thesis
  proof (cases "r = Inr ()")
    case True
    with con segs have "streams (fst (snd st')) = map segment_bytes (segs @ [([], [])])"
      by (simp add: segment_bytes_def)
    with segs show ?thesis unfolding carries_def by (intro exI [of _ "segs @ [([], [])]"]) auto
  next
    case False
    with con segs have "streams (fst (snd st')) = map segment_bytes segs" by simp
    with con False segs assms(1) show ?thesis
      by (cases "tcp_connected (fst st')") (auto simp: carries_def)
  qed
qed

text \<open>A receiver that decodes each connection for itself recovers what was delivered.\<close>

lemma carried_messages:
  assumes "carries P (c, calls, s) (map enc xs)"
    and "\<And>ps q. set ps \<subseteq> range enc \<Longrightarrow> q = [] \<or> (\<exists>p. P p \<and> strict_prefix q p) \<Longrightarrow>
      decode (concat ps @ q) = map dec ps"
  shows "concat (map decode (streams calls)) = map (\<lambda>x. dec (enc x)) xs"
proof -
  from assms(1) obtain segs where segs: "streams calls = map segment_bytes segs"
    "concat (map fst segs) = map enc xs"
    "\<forall>seg \<in> set segs. snd seg = [] \<or> (\<exists>p. P p \<and> strict_prefix (snd seg) p)"
    unfolding carries_def by auto
  have "decode (segment_bytes seg) = map dec (fst seg)" if "seg \<in> set segs" for seg
  proof -
    have "set (fst seg) \<subseteq> set (concat (map fst segs))" using that by auto
    then have "set (fst seg) \<subseteq> range enc" unfolding segs(2) by auto
    with segs(3) that assms(2) [of "fst seg" "snd seg"] show ?thesis by (auto simp: segment_bytes_def)
  qed
  then have "concat (map decode (streams calls)) = concat (map (\<lambda>seg. map dec (fst seg)) segs)"
    unfolding segs(1) by (auto intro!: arg_cong [of _ _ concat])
  also have "\<dots> = map dec (concat (map fst segs))" by (induction segs) simp_all
  also have "\<dots> = map (\<lambda>x. dec (enc x)) xs" unfolding segs(2) by simp
  finally show ?thesis .
qed

text \<open>One delivery adds its payload when it succeeds, and a strict prefix of it otherwise.\<close>

lemma deliver_carries:
  assumes "carries P st delivered" "P payload" "posix_kernel k"
    "deliver k host port payload st = Some (r, st')"
  shows "carries P st' (delivered @ (if r = Inr () then [payload] else []))"
proof -
  obtain r1 st1 where con:
    "(if tcp_connected (fst st) then (Inr (), st) else tcp_connect k host port st) = (r1, st1)"
    by (cases "if tcp_connected (fst st) then (Inr (), st) else tcp_connect k host port st")
  have c1: "carries P st1 delivered"
    using con assms(1) carries_connect [OF assms(1), of k host port r1 st1]
    by (cases "tcp_connected (fst st)") simp_all
  show ?thesis
  proof (cases r1)
    case (Inl e)
    with con assms(4) c1 show ?thesis by (auto simp: deliver_def split: prod.splits if_splits)
  next
    case (Inr u)
    with con assms(4) have send: "send_all k payload st1 = Some (r, st')"
      by (simp add: deliver_def)
    obtain c calls s where st1: "st1 = (c, calls, s)" by (cases st1)
    obtain c' calls' s' where st': "st' = (c', calls', s')" by (cases st')
    show ?thesis
    proof (cases "k_network_enabled k \<and> tcp_connected c")
      case False
      with send st1 c1 show ?thesis by (auto simp: send_all_def split: if_splits)
    next
      case True
      with send st1 have "send_loop k payload 0 c (calls, s) = Some (r, st')" by (simp add: send_all_def)
      with send_loop_delivers [OF this assms(3)] True have "delivery c calls payload (r, c', calls', s')"
        by (simp add: st')
      then obtain sends where sends: "list_all (sends_on (tcp_handle c)) sends"
        "if r = Inr () then c' = c \<and> calls' = calls @ sends \<and> concat (map accepted sends) = payload
         else c' = c\<lparr>tcp_handle := invalid_socket, tcp_connected := False\<rparr> \<and>
           calls' = calls @ sends @ closing (tcp_handle c) \<and>
           strict_prefix (concat (map accepted sends)) payload"
        unfolding delivery_def by (auto split: if_splits)
      have "streams calls' = extend (concat (map accepted sends)) (streams calls)"
        using sends sends_extend [OF sends(1), of "streams calls"] by (auto split: if_splits)
      from carries_extend [OF c1 [unfolded st1] _ this, of "r = Inr ()" payload c' s'] True sends(2) assms(2)
      show ?thesis by (auto simp: st' split: if_splits)
    qed
  qed
qed

text \<open>Ownership of the socket through one delivery, and that it returns.\<close>

lemma open_sends: "list_all (sends_on h) sends \<Longrightarrow> foldl open_step hs sends = hs \<and> foldl list_step n sends = n"
proof (induction sends)
  case (Cons c sends)
  then show ?case by (cases c) auto
qed simp

lemma deliver_holds:
  assumes "posix_kernel k" "tcp_holds st hs m" "deliver k host port payload st = Some (r, st')"
  shows "tcp_holds st' hs m"
proof -
  obtain r1 st1 where con:
    "(if tcp_connected (fst st) then (Inr (), st) else tcp_connect k host port st) = (r1, st1)"
    by (cases "if tcp_connected (fst st) then (Inr (), st) else tcp_connect k host port st")
  have c1: "tcp_holds st1 hs m"
    using con assms(2) tcp_connect_holds [OF assms(1,2), of host port] by (auto split: if_splits)
  show ?thesis
  proof (cases r1)
    case (Inl e)
    with con assms(3) c1 show ?thesis by (auto simp: deliver_def split: prod.splits if_splits)
  next
    case (Inr u)
    with con assms(3) have send: "send_all k payload st1 = Some (r, st')" by (simp add: deliver_def)
    obtain c calls s where st1: "st1 = (c, calls, s)" by (cases st1)
    obtain c' calls' s' where st': "st' = (c', calls', s')" by (cases st')
    show ?thesis
    proof (cases "k_network_enabled k \<and> tcp_connected c")
      case False
      with send st1 c1 show ?thesis by (auto simp: send_all_def split: if_splits)
    next
      case True
      with send st1 have "send_loop k payload 0 c (calls, s) = Some (r, st')" by (simp add: send_all_def)
      with send_loop_delivers [OF this assms(1)] True have "delivery c calls payload (r, c', calls', s')"
        by (simp add: st')
      then obtain sends where sends: "list_all (sends_on (tcp_handle c)) sends"
        "if r = Inr () then c' = c \<and> calls' = calls @ sends
         else c' = c\<lparr>tcp_handle := invalid_socket, tcp_connected := False\<rparr> \<and>
           calls' = calls @ sends @ closing (tcp_handle c)"
        unfolding delivery_def by (auto split: if_splits)
      with c1 True open_sends [OF sends(1)] show ?thesis
        by (auto simp: tcp_holds_def st1 st' closing_def split: if_splits)
    qed
  qed
qed

lemma deliver_returns: "interrupts_end k \<mu> \<Longrightarrow> deliver k host port payload st \<noteq> None"
  using send_loop_returns [of k \<mu> payload 0]
  by (auto simp: deliver_def send_all_def simp del: not_None_eq split: prod.splits sum.splits)

lemma carries_sleep: "carries P (c, n) d \<Longrightarrow> carries P (c, sleep_for k b n) d"
  by (simp add: carries_def sleep_for_def logged_def)

lemma holds_sleep: "tcp_holds (c, n) hs m \<Longrightarrow> tcp_holds (c, sleep_for k b n) hs m"
  by (auto simp: tcp_holds_def sleep_for_def logged_def split: prod.splits)

text \<open>The events whose write returned normally, given the results of a sequence of writes.\<close>

definition accepted_events :: "log_event list \<Rightarrow> (cpp_exception + unit) list \<Rightarrow> log_event list" where
  "accepted_events events rs = map fst (filter (\<lambda>(e, r). r = Inr ()) (zip events rs))"

section \<open>The write loop of a TCP sink\<close>

text \<open>
  A write loop whose attempt delivers one payload over the client and whose recovery closes the
  client and sleeps. \<open>conf\<close> is the configuration of the sink, which writing leaves alone.
\<close>

locale tcp_write_retry = write_retry attempt recover loop stats
  for attempt :: "'x \<Rightarrow> 'x outcome option" and recover :: "u32 \<Rightarrow> 'x \<Rightarrow> 'x outcome"
    and loop :: "nat \<Rightarrow> u32 \<Rightarrow> 'x \<Rightarrow> 'x outcome option" and stats :: "'x \<Rightarrow> network_sink_statistics" +
  fixes k :: "'o kernel" and payload :: bytes
    and client :: "'x \<Rightarrow> tcp_client \<times> 'o net" and conf :: "'x \<Rightarrow> 'c"
  assumes attempt_delivers: "attempt x = Some (r, x') \<Longrightarrow>
      \<exists>host port. deliver k host port payload (client x) = Some (r, client x') \<and> conf x' = conf x"
    and attempt_returns: "(\<And>host port. deliver k host port payload (client x) \<noteq> None) \<Longrightarrow> attempt x \<noteq> None"
    and recover_closes: "client (snd (recover b x)) =
      (fst (tcp_close k (client x)), sleep_for k b (snd (tcp_close k (client x))))"
    and recover_conf: "conf (snd (recover b x)) = conf x"
begin

lemma loop_carries:
  assumes "posix_kernel k" "P payload" "carries P (client x) d" "loop n b x = Some (r, x')"
  shows "carries P (client x') (d @ (if r = Inr () then [payload] else [])) \<and> conf x' = conf x"
proof -
  let ?I = "\<lambda>d y. carries P (client y) d \<and> conf y = conf x"
  have "if r = Inr () then ?I (d @ [payload]) x' else ?I d x'"
  proof (rule loop_establishes [where P = "?I d" and Q = "?I (d @ [payload])", OF _ _ _ assms(4)])
    fix y q y'
    assume y: "?I d y" and "attempt y = Some (q, y')"
    from attempt_delivers [OF this(2)] obtain host port where
      "deliver k host port payload (client y) = Some (q, client y')" "conf y' = conf y" by blast
    with deliver_carries [of P "client y" d payload k host port q "client y'"] y assms(1,2)
    show "if q = Inr () then ?I (d @ [payload]) y' else ?I d y'" by auto
  next
    fix y c
    assume "?I d y"
    then show "?I d (snd (recover c y))"
      using carries_disconnect [of P "client y" d k] by (simp add: recover_closes recover_conf carries_sleep)
  qed (use assms(3) in simp)
  then show ?thesis by (auto split: if_splits)
qed

lemma loop_holds:
  assumes "posix_kernel k" "tcp_holds (client x) hs m" "loop n b x = Some (r, x')"
  shows "tcp_holds (client x') hs m"
proof -
  let ?I = "\<lambda>y. tcp_holds (client y) hs m"
  have "if r = Inr () then ?I x' else ?I x'"
  proof (rule loop_establishes [where P = ?I and Q = ?I, OF _ _ _ assms(3)])
    fix y q y'
    assume "?I y" "attempt y = Some (q, y')"
    moreover from attempt_delivers [OF this(2)] obtain host port where
      "deliver k host port payload (client y) = Some (q, client y')" by blast
    ultimately show "if q = Inr () then ?I y' else ?I y'"
      using deliver_holds [OF assms(1), of "client y" hs m host port payload q "client y'"] by simp
  next
    fix y c
    assume "?I y"
    then show "?I (snd (recover c y))"
      using tcp_close_holds [of "client y" hs m k] by (simp add: recover_closes holds_sleep)
  qed (use assms(2) in simp)
  then show ?thesis by simp
qed

lemma loop_ends: "interrupts_end k \<mu> \<Longrightarrow> loop n b x \<noteq> None"
  by (intro loop_returns attempt_returns deliver_returns)

end

end
