(* ===== verification/Net_Writers.thy ===== *)
theory Net_Writers
  imports Net_Streams
begin

text \<open>
  Several threads writing through one network sink. A write holds the mutex of the sink from its
  start to its first failure, gives it up while it sleeps, and holds it again for each further
  attempt; a section under the mutex is one step, and between two sections of a write the sections
  of other writes may run. What is sent is made before the first lock.
\<close>

section \<open>Steps\<close>

text \<open>
  The operations of \<^verbatim>\<open>write\<close> of a sink whose state is \<open>'x\<close>, by the parts between which it may stop: a
  call \<open>'e\<close> makes a payload \<open>'p\<close>, which may change what the threads share, or never return.
\<close>

record ('x, 'e, 'p) write_ops =
  wo_accepts :: "'x \<Rightarrow> 'e \<Rightarrow> bool"
  wo_payload :: "'e \<Rightarrow> 'x \<Rightarrow> ('p \<times> 'x) option"
  wo_retries :: "'x \<Rightarrow> nat"
  wo_begin :: "'x \<Rightarrow> 'x"
  wo_attempt :: "'p \<Rightarrow> 'x \<Rightarrow> 'x outcome option"
  wo_close :: "'x \<Rightarrow> 'x"
  wo_sleep :: "u32 \<Rightarrow> 'x \<Rightarrow> 'x"
  wo_reopen :: "'x \<Rightarrow> 'x outcome"

text \<open>
  Outside \<^verbatim>\<open>write\<close>; before the first lock; asleep; awake again and about to lock. The numbers are
  \<^verbatim>\<open>retries_remaining\<close> and \<^verbatim>\<open>backoff_ms\<close>.
\<close>

datatype ('e, 'p) writer_pc =
    Wr_idle
  | Wr_first 'e 'p
  | Wr_sleep 'e 'p nat u32
  | Wr_next 'e 'p nat u32

record ('x, 'e, 'p) writers =
  ws_sink :: 'x
  ws_pc :: "nat \<Rightarrow> ('e, 'p) writer_pc"
  ws_returned :: "('e \<times> 'p \<times> (cpp_exception + unit)) list"

definition writers_init :: "'x \<Rightarrow> ('x, 'e, 'p) writers" where
  "writers_init x = \<lparr>ws_sink = x, ws_pc = (\<lambda>t. Wr_idle), ws_returned = []\<rparr>"

definition writer_goto :: "nat \<Rightarrow> ('e, 'p) writer_pc \<Rightarrow> ('x, 'e, 'p) writers \<Rightarrow> ('x, 'e, 'p) writers" where
  "writer_goto t pc s = s\<lparr>ws_pc := (ws_pc s)(t := pc)\<rparr>"

definition writer_return ::
  "nat \<Rightarrow> 'e \<Rightarrow> 'p \<Rightarrow> cpp_exception + unit \<Rightarrow> ('x, 'e, 'p) writers \<Rightarrow> ('x, 'e, 'p) writers" where
  "writer_return t e p r s = writer_goto t Wr_idle (s\<lparr>ws_returned := ws_returned s @ [(e, p, r)]\<rparr>)"

text \<open>One pass through the loop: try, and on a failure with a retry left close and go to sleep.\<close>

definition write_section ::
  "('x, 'e, 'p) write_ops \<Rightarrow> nat \<Rightarrow> 'e \<Rightarrow> 'p \<Rightarrow> nat \<Rightarrow> u32 \<Rightarrow> ('x, 'e, 'p) writers \<Rightarrow> ('x, 'e, 'p) writers option"
where
  "write_section ops t e payload retries_remaining backoff_ms s =
     (case wo_attempt ops payload (ws_sink s) of
        None \<Rightarrow> None
      | Some (Inr u, x) \<Rightarrow> Some (writer_return t e payload (Inr u) (s\<lparr>ws_sink := x\<rparr>))
      | Some (Inl ex, x) \<Rightarrow>
          (case retries_remaining of
             0 \<Rightarrow> Some (writer_return t e payload (Inl ex) (s\<lparr>ws_sink := x\<rparr>))
           | Suc n \<Rightarrow> Some (writer_goto t (Wr_sleep e payload n backoff_ms) (s\<lparr>ws_sink := wo_close ops x\<rparr>))))"

text \<open>A further pass, which first reopens the transport where the sink does that under the mutex.\<close>

definition next_section ::
  "('x, 'e, 'p) write_ops \<Rightarrow> nat \<Rightarrow> 'e \<Rightarrow> 'p \<Rightarrow> nat \<Rightarrow> u32 \<Rightarrow> ('x, 'e, 'p) writers \<Rightarrow> ('x, 'e, 'p) writers option"
where
  "next_section ops t e payload retries_remaining backoff_ms s =
     (case wo_reopen ops (ws_sink s) of
        (Inl ex, x) \<Rightarrow> Some (writer_return t e payload (Inl ex) (s\<lparr>ws_sink := x\<rparr>))
      | (Inr u, x) \<Rightarrow> write_section ops t e payload retries_remaining backoff_ms (s\<lparr>ws_sink := x\<rparr>))"

inductive writer_step ::
  "('x, 'e, 'p) write_ops \<Rightarrow> nat \<Rightarrow> ('x, 'e, 'p) writers \<Rightarrow> ('x, 'e, 'p) writers \<Rightarrow> bool" for ops t where
  wr_skip: "ws_pc s t = Wr_idle \<Longrightarrow> \<not> wo_accepts ops (ws_sink s) e \<Longrightarrow> writer_step ops t s s"
| wr_call: "ws_pc s t = Wr_idle \<Longrightarrow> wo_accepts ops (ws_sink s) e \<Longrightarrow>
    wo_payload ops e (ws_sink s) = Some (payload, x) \<Longrightarrow>
    writer_step ops t s (writer_goto t (Wr_first e payload) (s\<lparr>ws_sink := x\<rparr>))"
| wr_first: "ws_pc s t = Wr_first e payload \<Longrightarrow>
    write_section ops t e payload (wo_retries ops (ws_sink s)) 10 (s\<lparr>ws_sink := wo_begin ops (ws_sink s)\<rparr>) = Some s' \<Longrightarrow>
    writer_step ops t s s'"
| wr_sleep: "ws_pc s t = Wr_sleep e payload n backoff_ms \<Longrightarrow>
    writer_step ops t s (writer_goto t (Wr_next e payload n (next_backoff backoff_ms))
      (s\<lparr>ws_sink := wo_sleep ops backoff_ms (ws_sink s)\<rparr>))"
| wr_next: "ws_pc s t = Wr_next e payload n backoff_ms \<Longrightarrow>
    next_section ops t e payload n backoff_ms s = Some s' \<Longrightarrow> writer_step ops t s s'"

inductive writers_reach :: "('x, 'e, 'p) write_ops \<Rightarrow> 'x \<Rightarrow> ('x, 'e, 'p) writers \<Rightarrow> bool" for ops x where
  writers_start: "writers_reach ops x (writers_init x)"
| writers_next: "writers_reach ops x s \<Longrightarrow> writer_step ops t s s' \<Longrightarrow> writers_reach ops x s'"

lemma reach_steps: "(writer_step ops t)\<^sup>*\<^sup>* s s' \<Longrightarrow> writers_reach ops x s \<Longrightarrow> writers_reach ops x s'"
  by (induction rule: rtranclp_induct) (auto intro: writers_next)

lemma writer_moved [simp]:
  "ws_sink (writer_goto t pc s) = ws_sink s" "ws_returned (writer_goto t pc s) = ws_returned s"
  "ws_sink (writer_return t e p r s) = ws_sink s"
  "ws_returned (writer_return t e p r s) = ws_returned s @ [(e, p, r)]"
  "ws_pc (writer_goto t pc s) = (ws_pc s)(t := pc)" "ws_pc (writer_return t e p r s) = (ws_pc s)(t := Wr_idle)"
  by (simp_all add: writer_goto_def writer_return_def)

lemma write_sectionE:
  assumes "write_section ops t e p n b s = Some s'"
  obtains (returned) r x where "wo_attempt ops p (ws_sink s) = Some (r, x)" "r = Inr () \<or> n = 0"
      "s' = writer_return t e p r (s\<lparr>ws_sink := x\<rparr>)"
  | (retrying) ex x m where "wo_attempt ops p (ws_sink s) = Some (Inl ex, x)" "n = Suc m"
      "s' = writer_goto t (Wr_sleep e p m b) (s\<lparr>ws_sink := wo_close ops x\<rparr>)"
  using assms that by (auto simp: write_section_def split: option.splits sum.splits nat.splits)

lemma next_sectionE:
  assumes "next_section ops t e p n b s = Some s'"
  obtains (stuck) ex x where "wo_reopen ops (ws_sink s) = (Inl ex, x)"
      "s' = writer_return t e p (Inl ex) (s\<lparr>ws_sink := x\<rparr>)"
  | (reopened) x where "wo_reopen ops (ws_sink s) = (Inr (), x)"
      "write_section ops t e p n b (s\<lparr>ws_sink := x\<rparr>) = Some s'"
  using assms that by (auto simp: next_section_def split: prod.splits sum.splits)

text \<open>The steps a concrete run takes.\<close>

lemma first_returns:
  "ws_pc s t = Wr_first e p \<Longrightarrow> wo_attempt ops p (wo_begin ops (ws_sink s)) = Some (Inr u, x) \<Longrightarrow>
    writer_step ops t s (writer_return t e p (Inr u) (s\<lparr>ws_sink := x\<rparr>))"
  by (rule wr_first) (auto simp: write_section_def)

lemma first_sleeps:
  "ws_pc s t = Wr_first e p \<Longrightarrow> wo_retries ops (ws_sink s) = Suc m \<Longrightarrow>
    wo_attempt ops p (wo_begin ops (ws_sink s)) = Some (Inl ex, x) \<Longrightarrow>
    writer_step ops t s (writer_goto t (Wr_sleep e p m 10) (s\<lparr>ws_sink := wo_close ops x\<rparr>))"
  by (rule wr_first) (auto simp: write_section_def)

lemma next_returns:
  "ws_pc s t = Wr_next e p n b \<Longrightarrow> wo_reopen ops (ws_sink s) = (Inr (), y) \<Longrightarrow>
    wo_attempt ops p y = Some (Inr u, x) \<Longrightarrow>
    writer_step ops t s (writer_return t e p (Inr u) (s\<lparr>ws_sink := x\<rparr>))"
  by (rule wr_next) (auto simp: write_section_def next_section_def)

section \<open>What a run delivers\<close>

text \<open>The writes that returned normally, with what they sent.\<close>

definition completed :: "('x, 'e, 'p) writers \<Rightarrow> ('e \<times> 'p) list" where
  "completed s = map (\<lambda>(e, p, r). (e, p)) (filter (\<lambda>(e, p, r). r = Inr ()) (ws_returned s))"

definition returned_events :: "('x, 'e, 'p) writers \<Rightarrow> 'e list" where
  "returned_events s = map fst (completed s)"

lemma completed_simps [simp]:
  "completed (writer_goto t pc s) = completed s" "completed (s\<lparr>ws_sink := x\<rparr>) = completed s"
  "completed (writer_return t e p r s) = completed s @ (if r = Inr () then [(e, p)] else [])"
  by (simp_all add: completed_def writer_goto_def writer_return_def)

fun pc_payload :: "('e, 'p) writer_pc \<Rightarrow> ('e \<times> 'p) option" where
  "pc_payload (Wr_first e p) = Some (e, p)"
| "pc_payload (Wr_sleep e p n b) = Some (e, p)"
| "pc_payload (Wr_next e p n b) = Some (e, p)"
| "pc_payload Wr_idle = None"

definition payloads_ok :: "('x \<Rightarrow> 'e \<Rightarrow> 'p \<Rightarrow> bool) \<Rightarrow> ('x, 'e, 'p) writers \<Rightarrow> bool" where
  "payloads_ok ok s \<longleftrightarrow> (\<forall>t e p. pc_payload (ws_pc s t) = Some (e, p) \<longrightarrow> ok (ws_sink s) e p)"

lemma payloads_okD:
  "payloads_ok ok s \<Longrightarrow> ws_pc s t = Wr_first e p \<Longrightarrow> ok (ws_sink s) e p"
  "payloads_ok ok s \<Longrightarrow> ws_pc s t = Wr_sleep e p n b \<Longrightarrow> ok (ws_sink s) e p"
  "payloads_ok ok s \<Longrightarrow> ws_pc s t = Wr_next e p n b \<Longrightarrow> ok (ws_sink s) e p"
  unfolding payloads_ok_def by (metis pc_payload.simps)+

lemma payloads_sink: "payloads_ok ok s \<Longrightarrow> ok (ws_sink s) \<le> ok x \<Longrightarrow> payloads_ok ok (s\<lparr>ws_sink := x\<rparr>)"
  by (auto simp: payloads_ok_def le_fun_def)

lemma payloads_goto:
  "payloads_ok ok s \<Longrightarrow> pc_payload pc = None \<or> (\<exists>e p. pc_payload pc = Some (e, p) \<and> ok (ws_sink s) e p) \<Longrightarrow>
    payloads_ok ok (writer_goto t pc s)"
  by (auto simp: payloads_ok_def)

lemma payloads_return: "payloads_ok ok s \<Longrightarrow> payloads_ok ok (writer_return t e p r s)"
  by (auto simp: payloads_ok_def)

text \<open>
  \<open>J x ds\<close>: the sink is in state \<open>x\<close> and has delivered the calls and payloads \<open>ds\<close>; \<open>ok x e p\<close>: in state
  \<open>x\<close>, \<open>p\<close> may be on its way for the call \<open>e\<close>. What each part of a write keeps, every interleaving of
  writes keeps.
\<close>

locale shared_writers =
  fixes ops :: "('x, 'e, 'p) write_ops" and J :: "'x \<Rightarrow> ('e \<times> 'p) list \<Rightarrow> bool"
    and ok :: "'x \<Rightarrow> 'e \<Rightarrow> 'p \<Rightarrow> bool"
  assumes payload: "J x ds \<Longrightarrow> wo_payload ops e x = Some (p, x') \<Longrightarrow> J x' ds \<and> ok x' e p \<and> ok x \<le> ok x'"
    and J_begin: "J x ds \<Longrightarrow> J (wo_begin ops x) ds \<and> ok x \<le> ok (wo_begin ops x)"
    and J_attempt: "J x ds \<Longrightarrow> ok x e p \<Longrightarrow> wo_attempt ops p x = Some (r, x') \<Longrightarrow>
      J x' (ds @ (if r = Inr () then [(e, p)] else [])) \<and> ok x \<le> ok x'"
    and J_close: "J x ds \<Longrightarrow> J (wo_close ops x) ds \<and> ok x \<le> ok (wo_close ops x)"
    and J_sleep: "J x ds \<Longrightarrow> J (wo_sleep ops b x) ds \<and> ok x \<le> ok (wo_sleep ops b x)"
    and J_reopen: "J x ds \<Longrightarrow> J (snd (wo_reopen ops x)) ds \<and> ok x \<le> ok (snd (wo_reopen ops x))"
begin

definition fine :: "('x, 'e, 'p) writers \<Rightarrow> bool" where
  "fine s \<longleftrightarrow> J (ws_sink s) (completed s) \<and> payloads_ok ok s"

lemma fine_sink:
  "fine s \<Longrightarrow> J x (completed s) \<and> ok (ws_sink s) \<le> ok x \<Longrightarrow> fine (s\<lparr>ws_sink := x\<rparr>)"
  by (simp add: fine_def payloads_sink)

lemma fine_goto:
  "fine s \<Longrightarrow> ok (ws_sink s) e p \<Longrightarrow> pc_payload pc = Some (e, p) \<Longrightarrow> fine (writer_goto t pc s)"
  by (auto simp: fine_def intro!: payloads_goto)

lemma section_fine:
  assumes "write_section ops t e p n b s = Some s'" "fine s" "ok (ws_sink s) e p"
  shows "fine s'"
  using assms(1)
proof (cases rule: write_sectionE)
  case (returned r x)
  from J_attempt [OF _ assms(3) returned(1)] assms(2)
  have J: "J x (completed s @ (if r = Inr () then [(e, p)] else []))" "ok (ws_sink s) \<le> ok x"
    by (auto simp: fine_def)
  then have "payloads_ok ok (s\<lparr>ws_sink := x\<rparr>)" using assms(2) by (simp add: fine_def payloads_sink)
  with J(1) show ?thesis by (simp add: returned(3) fine_def payloads_return)
next
  case (retrying ex x m)
  from J_attempt [OF _ assms(3) retrying(1)] assms(2)
  have J: "J x (completed s)" "ok (ws_sink s) \<le> ok x" by (auto simp: fine_def)
  let ?s = "s\<lparr>ws_sink := wo_close ops x\<rparr>"
  have close: "J (wo_close ops x) (completed s)" "ok (ws_sink s) \<le> ok (wo_close ops x)"
    using J_close [OF J(1)] J(2) by auto
  then have "fine ?s" by (intro fine_sink [OF assms(2)]) simp
  moreover have "ok (ws_sink ?s) e p" using close(2) assms(3) by (auto simp: le_fun_def)
  ultimately show ?thesis unfolding retrying(3) by (rule fine_goto) simp
qed

lemma next_fine:
  assumes "next_section ops t e p n b s = Some s'" "fine s" "ok (ws_sink s) e p"
  shows "fine s'"
proof -
  let ?x = "snd (wo_reopen ops (ws_sink s))"
  have re: "J ?x (completed s) \<and> ok (ws_sink s) \<le> ok ?x"
    using J_reopen [of "ws_sink s" "completed s"] assms(2) by (simp add: fine_def)
  then have f: "fine (s\<lparr>ws_sink := ?x\<rparr>)" "ok ?x e p"
    using fine_sink [OF assms(2)] assms(3) by (auto simp: le_fun_def)
  from assms(1) show ?thesis
  proof (cases rule: next_sectionE)
    case (stuck ex x)
    with f(1) show ?thesis by (simp add: fine_def payloads_return)
  next
    case (reopened x)
    with section_fine [OF reopened(2)] f show ?thesis by simp
  qed
qed

lemma step_fine:
  assumes "writer_step ops t s s'" "fine s"
  shows "fine s'"
  using assms(1)
proof cases
  case (wr_call e p x)
  have "J x (completed s) \<and> ok x e p \<and> ok (ws_sink s) \<le> ok x"
    using payload [of "ws_sink s" "completed s", OF _ wr_call(4)] assms(2) by (simp add: fine_def)
  then show ?thesis unfolding wr_call(1) by (intro fine_goto [OF fine_sink [OF assms(2)]]) simp_all
next
  case (wr_first e p)
  let ?x = "wo_begin ops (ws_sink s)"
  have b: "J ?x (completed s) \<and> ok (ws_sink s) \<le> ok ?x" using J_begin [of "ws_sink s" "completed s"] assms(2) by (simp add: fine_def)
  moreover have "ok (ws_sink s) e p" using assms(2) wr_first(1) by (simp add: fine_def payloads_okD)
  ultimately have "ok ?x e p" by (auto simp: le_fun_def)
  with section_fine [OF wr_first(2) fine_sink [OF assms(2) b]] show ?thesis by simp
next
  case (wr_sleep e p n b)
  let ?x = "wo_sleep ops b (ws_sink s)"
  have b: "J ?x (completed s) \<and> ok (ws_sink s) \<le> ok ?x" using J_sleep [of "ws_sink s" "completed s" b] assms(2) by (simp add: fine_def)
  moreover have "ok (ws_sink s) e p" using assms(2) wr_sleep(2) by (simp add: fine_def payloads_okD)
  ultimately have "ok ?x e p" by (auto simp: le_fun_def)
  then show ?thesis unfolding wr_sleep(1) by (intro fine_goto [OF fine_sink [OF assms(2) b]]) simp_all
next
  case (wr_next e p n b)
  then show ?thesis using assms(2) by (intro next_fine [OF wr_next(2)]) (simp_all add: fine_def payloads_okD)
qed (use assms(2) in simp_all)

lemma reach_fine: "writers_reach ops x s \<Longrightarrow> J x [] \<Longrightarrow> fine s"
proof (induction rule: writers_reach.induct)
  case writers_start
  then show ?case by (simp add: writers_init_def completed_def payloads_ok_def fine_def)
next
  case (writers_next s t s')
  then show ?case using step_fine [of t s s'] by blast
qed

theorem reach_delivers: "writers_reach ops x s \<Longrightarrow> J x [] \<Longrightarrow> J (ws_sink s) (completed s)"
  using reach_fine by (simp add: fine_def)

end

section \<open>Counting\<close>

fun in_write :: "('e, 'p) writer_pc \<Rightarrow> bool" where
  "in_write (Wr_sleep e p n b) = True"
| "in_write (Wr_next e p n b) = True"
| "in_write _ = False"

definition writing :: "('x, 'e, 'p) writers \<Rightarrow> nat set" where
  "writing s = {t. in_write (ws_pc s t)}"

definition failed_writes :: "('x, 'e, 'p) writers \<Rightarrow> nat" where
  "failed_writes s = length (filter (\<lambda>(e, p, r). r \<noteq> Inr ()) (ws_returned s))"

lemma writing_goto:
  "writing (writer_goto t pc s) = (if in_write pc then insert t (writing s) else writing s - {t})"
  "writing (writer_return t e p r s) = writing s - {t}"
  by (auto simp: writing_def)

lemma writing_fields [simp]: "writing (s\<lparr>ws_sink := x\<rparr>) = writing s" "writing (s\<lparr>ws_returned := l\<rparr>) = writing s"
  by (simp_all add: writing_def)

text \<open>
  What the steps of a run did, in order: a write began; a try failed and will be made again; a try failed
  and the write threw; a write succeeded.
\<close>

datatype write_mark = Began | Retried | Threw | Wrote

definition section_mark :: "nat \<Rightarrow> ('x, 'e, 'p) writers \<Rightarrow> write_mark" where
  "section_mark t s' =
     (case ws_pc s' t of
        Wr_sleep e p n b \<Rightarrow> Retried
      | _ \<Rightarrow> if snd (snd (last (ws_returned s'))) = Inr () then Wrote else Threw)"

definition step_marks :: "nat \<Rightarrow> ('x, 'e, 'p) writers \<Rightarrow> ('x, 'e, 'p) writers \<Rightarrow> write_mark list" where
  "step_marks t s s' =
     (case ws_pc s t of
        Wr_first e p \<Rightarrow> [Began, section_mark t s']
      | Wr_next e p n b \<Rightarrow> [section_mark t s']
      | _ \<Rightarrow> [])"

inductive writers_history ::
  "('x, 'e, 'p) write_ops \<Rightarrow> 'x \<Rightarrow> write_mark list \<Rightarrow> ('x, 'e, 'p) writers \<Rightarrow> bool" for ops x where
  history_start: "writers_history ops x [] (writers_init x)"
| history_next: "writers_history ops x h s \<Longrightarrow> writer_step ops t s s' \<Longrightarrow>
    writers_history ops x (h @ step_marks t s s') s'"

lemma history_exists: "writers_reach ops x s \<Longrightarrow> \<exists>h. writers_history ops x h s"
proof (induction rule: writers_reach.induct)
  case writers_start
  show ?case by (blast intro: history_start)
next
  case (writers_next s t s')
  then show ?case by (blast intro: history_next)
qed

lemma history_reach: "writers_history ops x h s \<Longrightarrow> writers_reach ops x s"
  by (induction rule: writers_history.induct) (auto intro: writers_start writers_next)

lemma section_markE:
  assumes "write_section ops t e p n b s = Some s'"
  obtains (wrote) x where "wo_attempt ops p (ws_sink s) = Some (Inr (), x)"
      "s' = writer_return t e p (Inr ()) (s\<lparr>ws_sink := x\<rparr>)" "section_mark t s' = Wrote"
  | (threw) ex x where "wo_attempt ops p (ws_sink s) = Some (Inl ex, x)"
      "s' = writer_return t e p (Inl ex) (s\<lparr>ws_sink := x\<rparr>)" "section_mark t s' = Threw"
  | (retried) ex x m where "wo_attempt ops p (ws_sink s) = Some (Inl ex, x)" "n = Suc m"
      "s' = writer_goto t (Wr_sleep e p m b) (s\<lparr>ws_sink := wo_close ops x\<rparr>)" "section_mark t s' = Retried"
  using assms
proof (cases rule: write_sectionE)
  case (returned r x)
  then show thesis using that(1) [of x] that(2) [of _ x] by (cases r) (auto simp: section_mark_def)
next
  case (retrying ex x m)
  then show thesis using that(3) by (auto simp: section_mark_def)
qed

definition marks_ok :: "write_mark list \<Rightarrow> ('x, 'e, 'p) writers \<Rightarrow> bool" where
  "marks_ok h s \<longleftrightarrow> finite (writing s) \<and> count_list h Began = length (ws_returned s) + card (writing s) \<and>
     count_list h Threw = failed_writes s"

fun mark_stats :: "write_mark \<Rightarrow> network_sink_statistics \<Rightarrow> network_sink_statistics" where
  "mark_stats Began st = count_attempt st"
| "mark_stats Retried st = count_reconnect (count_failure st)"
| "mark_stats Threw st = count_failure st"
| "mark_stats Wrote st = st"

lemma marked_stats:
  "fold mark_stats h st =
    \<lparr>write_attempts = write_attempts st + of_nat (count_list h Began),
     write_failures = write_failures st + of_nat (count_list h Retried + count_list h Threw),
     reconnect_attempts = reconnect_attempts st + of_nat (count_list h Retried)\<rparr>"
proof (induction h arbitrary: st)
  case (Cons m h)
  then show ?case by (cases m) (simp_all add: counting algebra_simps)
qed simp

locale counted_writers =
  fixes ops :: "('x, 'e, 'p) write_ops" and stats :: "'x \<Rightarrow> network_sink_statistics"
  assumes begin_counts: "stats (wo_begin ops x) = count_attempt (stats x)"
    and attempt_counts: "wo_attempt ops p x = Some (r, x') \<Longrightarrow>
      stats x' = (if r = Inr () then stats x else count_failure (stats x))"
    and close_counts: "stats (wo_close ops x) = count_reconnect (stats x)"
    and sleep_counts: "stats (wo_sleep ops b x) = stats x"
    and payload_counts: "wo_payload ops e x = Some (p, x') \<Longrightarrow> stats x' = stats x"
    and reopen_counts: "wo_reopen ops x = (Inr (), x)"
begin

lemma section_counted:
  assumes "write_section ops t e p n b s = Some s'"
  shows "stats (ws_sink s') = mark_stats (section_mark t s') (stats (ws_sink s))"
  using assms
proof (cases rule: section_markE)
  case (wrote x)
  with attempt_counts [OF wrote(1)] show ?thesis by simp
next
  case (threw ex x)
  with attempt_counts [OF threw(1)] show ?thesis by simp
next
  case (retried ex x m)
  with attempt_counts [OF retried(1)] show ?thesis by (simp add: close_counts)
qed

lemma next_is_section: "next_section ops t e p n b s = write_section ops t e p n b s"
  by (simp add: next_section_def reopen_counts)

lemma step_counted: "writer_step ops t s s' \<Longrightarrow> stats (ws_sink s') = fold mark_stats (step_marks t s s') (stats (ws_sink s))"
proof (induction rule: writer_step.induct)
  case (wr_first s e p s')
  from section_counted [OF wr_first(2)] show ?case by (simp add: step_marks_def wr_first(1) begin_counts)
next
  case (wr_next s e p n b s')
  from section_counted [OF wr_next(2) [unfolded next_is_section]] show ?case by (simp add: step_marks_def wr_next(1))
qed (simp_all add: step_marks_def sleep_counts payload_counts)

lemma section_marks:
  assumes "write_section ops t e p n b s = Some s'" "finite (writing s)"
    "count_list h Began = length (ws_returned s) + card (writing s - {t}) + 1" "count_list h Threw = failed_writes s"
  shows "marks_ok (h @ [section_mark t s']) s'"
  using assms(1)
proof (cases rule: section_markE)
  case (wrote x)
  with assms(2-4) show ?thesis by (simp add: marks_ok_def writing_goto failed_writes_def)
next
  case (threw ex x)
  with assms(2-4) show ?thesis by (simp add: marks_ok_def writing_goto failed_writes_def)
next
  case (retried ex x m)
  have "card (insert t (writing s)) = card (writing s - {t}) + 1"
    using assms(2) by (simp add: card.insert_remove)
  with retried assms(2-4) show ?thesis by (simp add: marks_ok_def writing_goto failed_writes_def)
qed

lemma step_marks_ok:
  assumes "writer_step ops t s s'" "marks_ok h s"
  shows "marks_ok (h @ step_marks t s s') s'"
  using assms(1)
proof cases
  case (wr_first e p)
  have "t \<notin> writing s" by (simp add: writing_def wr_first(1))
  with assms(2) section_marks [OF wr_first(2), of "h @ [Began]"] show ?thesis
    by (simp add: step_marks_def wr_first(1) marks_ok_def failed_writes_def)
next
  case (wr_next e p n b)
  then have "t \<in> writing s" by (simp add: writing_def)
  with assms(2) have "card (writing s) = card (writing s - {t}) + 1"
    using card_Suc_Diff1 [of "writing s" t] by (simp add: marks_ok_def)
  with assms(2) section_marks [OF wr_next(2) [unfolded next_is_section], of h] show ?thesis
    by (simp add: step_marks_def wr_next(1) marks_ok_def)
next
  case (wr_call e p x)
  then have "t \<notin> writing s" by (simp add: writing_def)
  with assms(2) wr_call show ?thesis by (simp add: step_marks_def marks_ok_def writing_goto failed_writes_def)
next
  case (wr_sleep e p n b)
  then have "insert t (writing s) = writing s" by (auto simp: writing_def)
  with assms(2) wr_sleep show ?thesis by (simp add: step_marks_def marks_ok_def writing_goto failed_writes_def)
qed (use assms(2) in \<open>simp_all add: step_marks_def\<close>)

lemma history_counted:
  "writers_history ops x h s \<Longrightarrow> stats (ws_sink s) = fold mark_stats h (stats x) \<and> marks_ok h s"
proof (induction rule: writers_history.induct)
  case history_start
  show ?case by (simp add: marks_ok_def writers_init_def writing_def failed_writes_def)
next
  case (history_next h s t s')
  with step_counted [of t s s'] step_marks_ok [of t s s' h] show ?case by simp
qed

end

section \<open>A write ends\<close>

text \<open>The steps a write may still take, given its retries.\<close>

fun writer_rank :: "nat \<Rightarrow> ('e, 'p) writer_pc \<Rightarrow> nat" where
  "writer_rank retries Wr_idle = 0"
| "writer_rank retries (Wr_first e p) = 2 * retries + 1"
| "writer_rank retries (Wr_sleep e p n b) = 2 * n + 2"
| "writer_rank retries (Wr_next e p n b) = 2 * n + 1"

lemma section_rank:
  "write_section ops t e p n b s = Some s' \<Longrightarrow> writer_rank m (ws_pc s' t) < 2 * n + 1"
  by (erule write_sectionE) simp_all

lemma next_rank:
  "next_section ops t e p n b s = Some s' \<Longrightarrow> writer_rank m (ws_pc s' t) < 2 * n + 1"
  by (erule next_sectionE) (auto dest: section_rank [where m = m])

lemma step_rank:
  "writer_step ops t s s' \<Longrightarrow> ws_pc s t \<noteq> Wr_idle \<Longrightarrow>
    writer_rank (wo_retries ops (ws_sink s)) (ws_pc s' t) < writer_rank (wo_retries ops (ws_sink s)) (ws_pc s t)"
  by (erule writer_step.cases) (auto dest!: section_rank [where m = "wo_retries ops (ws_sink s)"] next_rank [where m = "wo_retries ops (ws_sink s)"])

lemma section_total:
  "wo_attempt ops p (ws_sink s) \<noteq> None \<Longrightarrow> \<exists>s'. write_section ops t e p n b s = Some s'"
  by (auto simp: write_section_def split: option.splits sum.splits nat.splits)

lemma next_total:
  "(\<And>x. wo_attempt ops p x \<noteq> None) \<Longrightarrow> \<exists>s'. next_section ops t e p n b s = Some s'"
  by (auto simp: next_section_def simp del: not_None_eq intro!: section_total split: prod.splits sum.splits)

text \<open>A thread in a write can go on.\<close>

lemma step_enabled:
  assumes "\<And>x p. wo_attempt ops p x \<noteq> None" "ws_pc s t \<noteq> Wr_idle"
  shows "\<exists>s'. writer_step ops t s s'"
proof (cases "ws_pc s t")
  case Wr_idle
  with assms(2) show ?thesis by contradiction
next
  case (Wr_first e p)
  then show ?thesis using section_total [OF assms(1)] wr_first by metis
next
  case (Wr_sleep e p n b)
  then show ?thesis using wr_sleep by metis
next
  case (Wr_next e p n b)
  then show ?thesis using next_total [OF assms(1)] wr_next by metis
qed

section \<open>One writer alone\<close>

text \<open>Left to itself a writer does what the sequential loop of the sink does.\<close>

locale solo_writer = write_retry attempt recover loop stats
  for attempt :: "'x \<Rightarrow> 'x outcome option" and recover :: "u32 \<Rightarrow> 'x \<Rightarrow> 'x outcome"
    and loop :: "nat \<Rightarrow> u32 \<Rightarrow> 'x \<Rightarrow> 'x outcome option" and stats :: "'x \<Rightarrow> network_sink_statistics" +
  fixes ops :: "('x, 'e, 'p) write_ops" and p :: 'p
  assumes attempts: "wo_attempt ops p = attempt"
    and recovers: "recover b x = wo_reopen ops (wo_sleep ops b (wo_close ops x))"
begin

lemma solo_section:
  "loop n b (ws_sink s) = Some (r, x') \<Longrightarrow>
    \<exists>s1. write_section ops t e p n b s = Some s1 \<and>
      (writer_step ops t)\<^sup>*\<^sup>* s1 (writer_return t e p r (s\<lparr>ws_sink := x'\<rparr>))"
proof (induction n arbitrary: b s)
  case 0
  then have "attempt (ws_sink s) = Some (r, x')" by (cases rule: loop_cases) simp_all
  then show ?case by (cases r) (simp_all add: write_section_def attempts)
next
  case (Suc n)
  note moved = writer_return_def writer_goto_def
  show ?case
  proof (cases "\<exists>ex y. attempt (ws_sink s) = Some (Inl ex, y)")
    case False
    with Suc.prems show ?thesis by (cases rule: loop_cases) (auto simp: write_section_def attempts split: sum.split)
  next
    case True
    then obtain ex y where att: "attempt (ws_sink s) = Some (Inl ex, y)" by blast
    let ?s1 = "writer_goto t (Wr_sleep e p n b) (s\<lparr>ws_sink := wo_close ops y\<rparr>)"
    let ?z = "wo_sleep ops b (wo_close ops y)"
    let ?s2 = "writer_goto t (Wr_next e p n (next_backoff b)) (?s1\<lparr>ws_sink := ?z\<rparr>)"
    have first: "write_section ops t e p (Suc n) b s = Some ?s1" using att by (simp add: write_section_def attempts)
    have slept: "writer_step ops t ?s1 ?s2" using wr_sleep [of ?s1 t e p n b ops] by simp
    obtain s3 where s3: "next_section ops t e p n (next_backoff b) ?s2 = Some s3"
      "(writer_step ops t)\<^sup>*\<^sup>* s3 (writer_return t e p r (?s2\<lparr>ws_sink := x'\<rparr>))"
    proof -
      from Suc.prems att show thesis
      proof (cases rule: loop_cases)
        case (stuck ex' y' m)
        with att obtain ex'' where "wo_reopen ops ?z = (Inl ex'', x')" "r = Inl ex''"
          by (cases r) (auto simp: recovers)
        with that show thesis by (simp add: next_section_def)
      next
        case (again ex' y' m z)
        with att have z: "wo_reopen ops ?z = (Inr (), z)" by (simp add: recovers)
        have "loop n (next_backoff b) (ws_sink (?s2\<lparr>ws_sink := z\<rparr>)) = Some (r, x')" using again by simp
        from Suc.IH [OF this] z that show thesis by (auto simp: next_section_def)
      qed simp
    qed
    have "writer_step ops t ?s2 s3" by (rule wr_next [OF _ s3(1)]) simp
    from converse_rtranclp_into_rtranclp [of "writer_step ops t", OF slept
        converse_rtranclp_into_rtranclp [of "writer_step ops t", OF this s3(2)]]
    have "(writer_step ops t)\<^sup>*\<^sup>* ?s1 (writer_return t e p r (s\<lparr>ws_sink := x'\<rparr>))" by (simp add: moved)
    with first show ?thesis by blast
  qed
qed

lemma solo_write:
  assumes "ws_pc s t = Wr_idle" "wo_accepts ops (ws_sink s) e" "wo_payload ops e (ws_sink s) = Some (p, x)"
    "loop (wo_retries ops x) 10 (wo_begin ops x) = Some (r, x')"
  shows "(writer_step ops t)\<^sup>*\<^sup>* s (writer_return t e p r (s\<lparr>ws_sink := x'\<rparr>))"
proof -
  let ?s1 = "writer_goto t (Wr_first e p) (s\<lparr>ws_sink := x\<rparr>)"
  have call: "writer_step ops t s ?s1" using wr_call [OF assms(1-3)] by simp
  let ?n = "wo_retries ops x" and ?b = "?s1\<lparr>ws_sink := wo_begin ops x\<rparr>"
  obtain s2 where s2: "write_section ops t e p ?n 10 ?b = Some s2"
    "(writer_step ops t)\<^sup>*\<^sup>* s2 (writer_return t e p r (?b\<lparr>ws_sink := x'\<rparr>))"
    using solo_section [of ?n 10 ?b r x'] assms(4) by auto
  have "writer_step ops t ?s1 s2" by (rule wr_first [of ?s1 t e p]) (use s2(1) in simp_all)
  from converse_rtranclp_into_rtranclp [of "writer_step ops t", OF call
      converse_rtranclp_into_rtranclp [of "writer_step ops t", OF this s2(2)]]
  show ?thesis by (simp add: writer_return_def writer_goto_def)
qed

end

end
