(* ===== verification/Net_Demo.thy ===== *)
theory Net_Demo
  imports Net_Streams
begin

text \<open>
  A concrete kernel that meets the assumptions made on kernels, and what deliveries do on it.
\<close>

section \<open>A kernel for the examples\<close>

text \<open>
  It resolves every host to one address and connects; its state is the script of the results of
  its sends, counted in bytes, and an exhausted script accepts everything. A negative entry -1
  interrupts, -2 fails.
\<close>

definition demo_kernel :: "int list kernel" where
  "demo_kernel =
     \<lparr>k_network_enabled = True,
      k_getaddrinfo = (\<lambda>host service kind s. (Some [\<lparr>ai_family = 2, ai_protocol = 0, ai_addr = [CHR ''a'']\<rparr>], s)),
      k_socket = (\<lambda>a kind s. (3, s)),
      k_setsockopt = (\<lambda>h sec usec s. s),
      k_connect = (\<lambda>h addr s. (True, s)),
      k_send = (\<lambda>h data s. (case s of
         [] \<Rightarrow> ((int (length data), False), [])
       | r # rs \<Rightarrow> ((if r < 0 then - 1 else min r (int (length data)), r = - 1), rs))),
      k_sendto = (\<lambda>h data dest s. (case s of
         [] \<Rightarrow> ((int (length data), False), [])
       | r # rs \<Rightarrow> ((if r < 0 then - 1 else int (length data), r = - 1), rs))),
      k_close = (\<lambda>h s. s),
      k_sleep = (\<lambda>ms s. s)\<rparr>"

lemma demo_kernel_ok: "posix_kernel demo_kernel" "interrupts_end demo_kernel length"
  by (auto simp: posix_kernel_def interrupts_end_def demo_kernel_def split: list.split)

definition dialled :: "bytes \<Rightarrow> u16 \<Rightarrow> os_call list" where
  "dialled host port =
     [Resolve host (dec_nat (unat port)) SOCK_STREAM True, Open_socket SOCK_STREAM 3, Set_timeout 3 5 0,
      Connect 3 True, Free_addresses]"

lemma demo_connect:
  "tcp_connect demo_kernel host port (new_tcp_client, calls, s) =
     (Inr (), \<lparr>tcp_connected = True, tcp_handle = 3\<rparr>, calls @ dialled host port, s)"
  by (simp add: tcp_connect_def tcp_close_def new_tcp_client_def connect_tcp_socket_def os_ops
      demo_kernel_def invalid_socket_def dialled_def)

lemma demo_send:
  "0 < length p \<Longrightarrow> send_loop demo_kernel p 0 c (calls, []) =
     Some (Inr (), c, calls @ [Send (tcp_handle c) p (int (length p))], [])"
  "2 \<le> length p \<Longrightarrow> tcp_connected c \<Longrightarrow> tcp_handle c = 3 \<Longrightarrow> send_loop demo_kernel p 0 c (calls, [1, - 2]) =
     Some (Inl (Runtime_Error ''tcp send failed''), new_tcp_client,
       calls @ [Send 3 p 1, Send 3 (drop 1 p) (- 1), Close 3], [])"
  by (simp_all add: send_loop.simps os_send_def demo_kernel_def logged_def tcp_close_def close_socket_def
      new_tcp_client_def invalid_socket_def) auto

lemma demo_flags: "\<not> tcp_connected new_tcp_client" "k_network_enabled demo_kernel"
  by (simp_all add: new_tcp_client_def demo_kernel_def)

lemma demo_deliver:
  "0 < length p \<Longrightarrow> deliver demo_kernel host port p (new_tcp_client, calls, []) =
     Some (Inr (), \<lparr>tcp_connected = True, tcp_handle = 3\<rparr>,
       calls @ dialled host port @ [Send 3 p (int (length p))], [])"
  "2 \<le> length p \<Longrightarrow> deliver demo_kernel host port p (new_tcp_client, calls, [1, - 2]) =
     Some (Inl (Runtime_Error ''tcp send failed''), new_tcp_client,
       calls @ dialled host port @ [Send 3 p 1, Send 3 (drop 1 p) (- 1), Close 3], [])"
  by (simp_all add: deliver_def demo_connect send_all_def demo_send demo_flags)

end
