(* ===== verification/Payloads.thy ===== *)
theory Payloads
  imports Json "HOL-Library.Sublist"
begin

text \<open>
  What the network and bulk sinks put on the wire: \<^verbatim>\<open>src/sinks/network_payloads.cpp\<close>, the OTLP
  document and the HTTP request of \<^verbatim>\<open>src/sinks/otlp_http_sink.cpp\<close>, and the action line of
  \<^verbatim>\<open>src/sinks/elastic_bulk_file_sink.cpp\<close>. Each JSON document is the text of a tree; a request is
  read back by a reference reader of the HTTP framing.
\<close>

section \<open>The serializers\<close>

definition make_tcp_json_lines_payload :: "log_event \<Rightarrow> bytes" where
  "make_tcp_json_lines_payload event = to_json_lines_record event"

text \<open>
  \<^verbatim>\<open>std::chrono::duration<double>\<close> of a count of nanoseconds: the count is converted to
  \<^verbatim>\<open>double\<close> and divided by \<open>1e9\<close>, each rounded to nearest. Sign, significand and scale.
\<close>

definition unix_seconds :: "int \<Rightarrow> bool \<times> nat \<times> int" where
  "unix_seconds ns =
     (let (m, q) = round_binary64 (nat \<bar>ns\<bar>) 1
      in (ns < 0, round_binary64 (m * 2 ^ nat q) (10 ^ 9 * 2 ^ nat (- q))))"

definition seconds_finite :: "bool \<times> nat \<times> int \<Rightarrow> bool" where
  "seconds_finite x = (case x of (neg, m, q) \<Rightarrow> int (bit_length m) + q \<le> 1024)"

definition seconds_text :: "int \<Rightarrow> string" where
  "seconds_text ns =
     (let seconds = unix_seconds ns
      in if seconds_finite seconds then percent_f (fst seconds) (snd seconds) else ''0.0'')"

definition append_gelf_field :: "field \<Rightarrow> string \<Rightarrow> string" where
  "append_gelf_field entry output =
     append_json_escaped (fkey entry) (output @ '',\"_'') @ ''\":'' @ to_json_value (fvalue entry)"

definition make_gelf_payload :: "log_event \<Rightarrow> bytes \<Rightarrow> string" where
  "make_gelf_payload event source_host =
     (let output = ''{\"version\":\"1.1\",\"host\":\"'';
          output = append_json_escaped source_host output;
          output = output @ ''\",\"short_message\":\"'';
          output = append_json_escaped (message event) output;
          output = output @ ''\",\"timestamp\":'';
          output = output @ seconds_text (timestamp event);
          output = output @ '',\"level\":'';
          output = output @ dec_nat (unat (to_gelf_level (severity event)));
          output = output @ '',\"_logger\":\"'';
          output = append_json_escaped (logger_name event) output;
          output = output @ ''\"''
      in fold append_gelf_field (event_fields event) output @ ''}'')"

definition make_action_line :: "bytes \<Rightarrow> string" where
  "make_action_line index_name =
     append_json_escaped index_name ''{\"index\":{\"_index\":\"'' @ ''\"}}'' @ [newline]"

text \<open>The lambda \<^verbatim>\<open>add_string\<close> of \<^verbatim>\<open>make_otlp_json\<close> and its flag \<^verbatim>\<open>first\<close>.\<close>

definition add_string :: "string \<Rightarrow> bytes \<Rightarrow> string \<times> bool \<Rightarrow> string \<times> bool" where
  "add_string key val st =
     (append_json_escaped val (append_separator st @ ''\"'' @ key @ ''\":\"'') @ ''\"'', False)"

definition append_otlp_attribute :: "field \<Rightarrow> string \<times> bool \<Rightarrow> string \<times> bool" where
  "append_otlp_attribute entry st =
     (let output = append_separator st @ ''{\"key\":\"'';
          output = append_json_escaped (fkey entry) output @ ''\",\"value\":{\"stringValue\":\"''
      in (append_json_escaped (to_json_value (fvalue entry)) output @ ''\"}}'', False))"

definition make_otlp_json :: "log_event \<Rightarrow> bytes \<Rightarrow> string" where
  "make_otlp_json event service_name =
     (let output = ''{\"resourceLogs\":[{\"resource\":{\"attributes\":[{\"key\":\"service.name\",''
                     @ ''\"value\":{\"stringValue\":\"'';
          output = append_json_escaped service_name output;
          output = output @ ''\"}}]},\"scopeLogs\":[{\"scope\":{},\"logRecords\":[{'';
          st = (append_separator (output, True)
                  @ ''\"timeUnixNano\":\"'' @ dec_int (timestamp event) @ ''\"'', False);
          st = add_string ''severityText'' (level_to_string (severity event)) st;
          st = (append_separator st
                  @ ''\"severityNumber\":'' @ dec_int (uint (level_underlying (severity event)) * 4), False);
          st = (case trace_id event of None \<Rightarrow> st | Some t \<Rightarrow> add_string ''traceId'' t st);
          st = (case span_id event of None \<Rightarrow> st | Some s \<Rightarrow> add_string ''spanId'' s st);
          st = (append_json_escaped (message event)
                  (append_separator st @ ''\"body\":{\"stringValue\":\"'') @ ''\"}'', False);
          st = (if event_fields event \<noteq> []
                then (fst (fold append_otlp_attribute (event_fields event)
                             (append_separator st @ ''\"attributes\":['', True)) @ '']'', False)
                else st)
      in fst st @ ''}]}]}]}'')"

definition crlf :: bytes where
  "crlf = [carriage_return, newline]"

definition make_http_post :: "bytes \<Rightarrow> bytes \<Rightarrow> bytes \<Rightarrow> bytes" where
  "make_http_post host path body =
     ''POST '' @ path @ '' HTTP/1.1'' @ crlf @
     ''Host: '' @ host @ crlf @
     ''Content-Type: application/json'' @ crlf @
     ''Content-Length: '' @ dec_nat (length body) @ crlf @
     ''Connection: keep-alive'' @ crlf @
     crlf @ body"

section \<open>The trees of the documents\<close>

definition gelf_json :: "log_event \<Rightarrow> bytes \<Rightarrow> json" where
  "gelf_json event source_host = JObj
     ([(''version'', JStr ''1.1''), (''host'', JStr source_host),
       (''short_message'', JStr (message event)),
       (''timestamp'', JNum (seconds_text (timestamp event))),
       (''level'', JNum (dec_nat (unat (to_gelf_level (severity event))))),
       (''_logger'', JStr (logger_name event))]
      @ map (\<lambda>f. (CHR ''_'' # fkey f, value_json (fvalue f))) (event_fields event))"

definition action_json :: "bytes \<Rightarrow> json" where
  "action_json index_name = JObj [(''index'', JObj [(''_index'', JStr index_name)])]"

definition string_value :: "bytes \<Rightarrow> json" where
  "string_value s = JObj [(''stringValue'', JStr s)]"

definition attribute_json :: "bytes \<Rightarrow> bytes \<Rightarrow> json" where
  "attribute_json k s = JObj [(''key'', JStr k), (''value'', string_value s)]"

definition otlp_record :: "log_event \<Rightarrow> json" where
  "otlp_record event = JObj
     ([(''timeUnixNano'', JStr (dec_int (timestamp event))),
       (''severityText'', JStr (level_to_string (severity event))),
       (''severityNumber'', JNum (dec_int (uint (level_underlying (severity event)) * 4)))]
      @ optional_member ''traceId'' (trace_id event)
      @ optional_member ''spanId'' (span_id event)
      @ [(''body'', string_value (message event))]
      @ (if event_fields event = [] then []
         else [(''attributes'', JArr (map (\<lambda>f. attribute_json (fkey f) (json_text (value_json (fvalue f))))
                  (event_fields event)))]))"

definition otlp_json :: "log_event \<Rightarrow> bytes \<Rightarrow> json" where
  "otlp_json event service_name = JObj
     [(''resourceLogs'', JArr [JObj
        [(''resource'', JObj [(''attributes'', JArr [attribute_json ''service.name'' service_name])]),
         (''scopeLogs'', JArr [JObj [(''scope'', JObj []),
            (''logRecords'', JArr [otlp_record event])]])]])]"

section \<open>The serializers write those trees\<close>

text \<open>Keys of printable letters need no escape.\<close>

definition plain_text :: "string \<Rightarrow> bool" where
  "plain_text s \<longleftrightarrow> list_all (\<lambda>c. c \<noteq> dquote \<and> c \<noteq> backslash \<and> 32 \<le> char_code c) s"

lemma escaped_plain: "plain_text s \<Longrightarrow> escaped s = s"
proof (induction s)
  case (Cons c s)
  then have "32 \<le> char_code c" "c \<noteq> dquote" "c \<noteq> backslash" "escaped s = s"
    by (simp_all add: plain_text_def)
  moreover from this(1) have "c \<noteq> CHR 0x08" "c \<noteq> CHR 0x0C" "c \<noteq> newline" "c \<noteq> carriage_return" "c \<noteq> CHR 0x09"
    by (auto simp: char_code_def)
  ultimately show ?case by (simp add: escaped_def escape_byte_def)
qed simp

lemma quoted_plain: "plain_text s \<Longrightarrow> quoted s = dquote # s @ [dquote]"
  by (simp add: quoted_def escaped_plain)

lemma plain_keys:
  "plain_text ''version''" "plain_text ''1.1''" "plain_text ''host''" "plain_text ''short_message''"
  "plain_text ''timestamp''" "plain_text ''level''" "plain_text ''_logger''" "plain_text ''_''"
  "plain_text ''index''" "plain_text ''_index''" "plain_text ''stringValue''" "plain_text ''key''"
  "plain_text ''value''" "plain_text ''timeUnixNano''" "plain_text ''severityText''"
  "plain_text ''severityNumber''" "plain_text ''traceId''" "plain_text ''spanId''" "plain_text ''body''"
  "plain_text ''attributes''" "plain_text ''resourceLogs''" "plain_text ''resource''"
  "plain_text ''scopeLogs''" "plain_text ''scope''" "plain_text ''logRecords''"
  "plain_text ''service.name''"
  by (simp_all add: plain_text_def char_code_def)

lemmas key_text [cpp_string] = plain_keys [THEN quoted_plain]

lemma plain_digits: "list_all is_digit s \<Longrightarrow> plain_text s"
  by (induction s) (auto simp: plain_text_def is_digit_def char_code_def)

lemma plain_dec [simp]: "plain_text (dec_nat n)" "plain_text (dec_int i)"
proof -
  have d: "plain_text (dec_nat n)" for n
    using dec_nat_digits [of n] by (simp add: plain_digits list_all_iff)
  show "plain_text (dec_nat n)" "plain_text (dec_int i)"
    using d by (auto simp: dec_int_def plain_text_def char_code_def)
qed

lemma comma_separated_Cons: "comma_separated (t # ts) = t @ concat (map (\<lambda>u. CHR '','' # u) ts)"
  by (induction ts arbitrary: t) simp_all

lemma to_json_value_text [simp]: "to_json_value v = json_text (value_json v)"
  by (simp add: to_json_value_def)

text \<open>Six decimals of a finite value are a JSON number.\<close>

lemma json_wf_percent_f: "json_wf (JNum (percent_f neg v))"
proof -
  obtain m q where v: "v = (m, q)" by (cases v)
  define micros where "micros = round_ratio (m * 10 ^ 6 * 2 ^ nat q) (2 ^ nat (- q))"
  have "hd (dec_nat (micros div 10 ^ 6)) = CHR ''0'' \<Longrightarrow> tl (dec_nat (micros div 10 ^ 6)) = []"
    using dec_nat_no_zero [of "micros div 10 ^ 6"]
    by (cases "micros div 10 ^ 6 = 0") (auto simp: dec_nat.simps [of 0])
  moreover have "dec_padded 6 (int n) \<noteq> []" for n by (simp add: dec_padded_nat)
  then have "all_digits (dec_padded 6 (int (micros mod 10 ^ 6)))"
    using dec_padded_digits by (simp add: all_digits_def list_all_iff)
  ultimately have "number_text (dec_nat (micros div 10 ^ 6) @ ''.'' @ dec_padded 6 (int (micros mod 10 ^ 6)))"
    by (intro number_text_fraction) simp_all
  then show ?thesis
    by (simp add: percent_f_def v Let_def micros_def number_text_def)
qed

lemma json_wf_seconds: "json_wf (JNum (seconds_text ns))"
proof -
  have "number_text (dec_nat 0 @ ''.'' @ dec_nat 0)"
    by (intro number_text_fraction) (simp_all, simp add: dec_nat.simps [of 0])
  then have "json_wf (JNum ''0.0'')"
    by (simp add: number_text_def dec_nat.simps [of 0] digit_char_eval)
  then show ?thesis using json_wf_percent_f by (simp add: seconds_text_def Let_def del: json_wf.simps)
qed

lemma append_gelf_fields:
  "fold append_gelf_field fs out =
     out @ concat (map (\<lambda>f. CHR '','' # member_text (CHR ''_'' # fkey f, value_json (fvalue f))) fs)"
proof (induction fs arbitrary: out)
  case (Cons f fs)
  have "quoted (CHR ''_'' # k) = CHR 0x22 # CHR ''_'' # escaped k @ [CHR 0x22]" for k
    by (simp add: quoted_def escaped_def escape_byte_def char_code_def)
  with Cons show ?case by (simp add: append_gelf_field_def append_json_escaped_eq)
qed simp

lemma make_gelf_payload_text: "make_gelf_payload event host = json_text (gelf_json event host)"
  by (simp add: make_gelf_payload_def gelf_json_def append_json_escaped_eq append_gelf_fields
      comma_separated_Cons cpp_string quoted_def [of host] quoted_def [of "message event"]
      quoted_def [of "logger_name event"] comp_def case_prod_unfold Let_def)

lemma make_action_line_text: "make_action_line name = json_text (action_json name) @ [newline]"
  by (simp add: make_action_line_def action_json_def append_json_escaped_eq cpp_string quoted_def [of name])

text \<open>The output and the flag after some members of an object, or elements of an array.\<close>

definition listed :: "string \<Rightarrow> string list \<Rightarrow> string \<times> bool" where
  "listed out ts = (out @ comma_separated ts, ts = [])"

lemma listed_start: "(out, True) = listed out []"
  by (simp add: listed_def)

lemma listed_member: "(append_separator (listed out ts) @ t, False) = listed out (ts @ [t])"
  by (simp add: listed_def append_separator_def comma_separated_snoc)

lemma add_string_listed:
  "plain_text k \<Longrightarrow> add_string k v (listed out ts) = listed out (ts @ [member_text (k, JStr v)])"
  using listed_member [of out ts "member_text (k, JStr v)"]
  by (simp add: add_string_def append_json_escaped_eq quoted_plain quoted_def [of v])

lemma add_optional_listed:
  "plain_text k \<Longrightarrow> (case v of None \<Rightarrow> listed out ts | Some t \<Rightarrow> add_string k t (listed out ts)) =
     listed out (ts @ map member_text (optional_member k v))"
  by (cases v) (simp_all add: add_string_listed optional_member_def)

lemma append_otlp_attributes:
  "fold append_otlp_attribute fs (listed out ts) =
     listed out (ts @ map (\<lambda>f. json_text (attribute_json (fkey f) (json_text (value_json (fvalue f))))) fs)"
proof (induction fs arbitrary: ts)
  case (Cons f fs)
  have "append_otlp_attribute f (listed out ts) =
      listed out (ts @ [json_text (attribute_json (fkey f) (json_text (value_json (fvalue f))))])"
    using listed_member [of out ts "json_text (attribute_json (fkey f) (json_text (value_json (fvalue f))))"]
    by (simp add: append_otlp_attribute_def append_json_escaped_eq attribute_json_def string_value_def
        cpp_string quoted_def [of "fkey f"]
        quoted_def [of "json_text (value_json (fvalue f))"] Let_def)
  with Cons show ?case by simp
qed simp

definition otlp_members :: "log_event \<Rightarrow> string list" where
  "otlp_members event = map member_text (case otlp_record event of JObj ms \<Rightarrow> ms)"

lemma otlp_record_text:
  "json_text (otlp_record event) = ''{'' @ comma_separated (otlp_members event) @ ''}''"
  by (simp add: otlp_record_def otlp_members_def case_prod_unfold)

definition otlp_prefix :: "bytes \<Rightarrow> string" where
  "otlp_prefix service_name =
     ''{\"resourceLogs\":[{\"resource\":{\"attributes\":[{\"key\":\"service.name\",\"value\":{\"stringValue\":\"''
     @ escaped service_name @ ''\"}}]},\"scopeLogs\":[{\"scope\":{},\"logRecords\":[{''"

lemma otlp_json_text:
  "json_text (otlp_json event service_name) =
     otlp_prefix service_name @ comma_separated (otlp_members event) @ ''}]}]}]}''"
  using otlp_record_text [of event]
  by (simp add: otlp_json_def otlp_prefix_def attribute_json_def string_value_def cpp_string
      quoted_def [of service_name])

lemma otlp_members_listed:
  "(append_separator (listed out ts) @ ''\"timeUnixNano\":\"'' @ dec_int i @ ''\"'', False) =
     listed out (ts @ [member_text (''timeUnixNano'', JStr (dec_int i))])"
  "(append_separator (listed out ts) @ ''\"severityNumber\":'' @ dec_int i, False) =
     listed out (ts @ [member_text (''severityNumber'', JNum (dec_int i))])"
  "(append_json_escaped v (append_separator (listed out ts) @ ''\"body\":{\"stringValue\":\"'') @ ''\"}'', False) =
     listed out (ts @ [member_text (''body'', string_value v)])"
  using listed_member [of out ts]
  by (simp_all add: append_json_escaped_eq string_value_def cpp_string quoted_plain quoted_def [of v])

lemma otlp_attributes_listed:
  "(fst (fold append_otlp_attribute fs (append_separator (listed out ts) @ ''\"attributes\":['', True)) @ '']'', False) =
     listed out (ts @ [member_text (''attributes'',
       JArr (map (\<lambda>f. attribute_json (fkey f) (json_text (value_json (fvalue f)))) fs))])"
proof -
  let ?o = "append_separator (listed out ts) @ ''\"attributes\":[''"
  have "fst (fold append_otlp_attribute fs (?o, True)) =
      ?o @ comma_separated (map (\<lambda>f. json_text (attribute_json (fkey f) (json_text (value_json (fvalue f))))) fs)"
    unfolding listed_start append_otlp_attributes by (simp add: listed_def)
  then show ?thesis
    using listed_member [of out ts] by (simp add: cpp_string comp_def)
qed

lemma make_otlp_json_text: "make_otlp_json event service_name = json_text (otlp_json event service_name)"
proof -
  let ?out = "otlp_prefix service_name"
  have prefix: "append_json_escaped service_name
      (''{\"resourceLogs\":[{\"resource\":{\"attributes\":[{\"key\":\"service.name\",''
         @ ''\"value\":{\"stringValue\":\"'')
      @ ''\"}}]},\"scopeLogs\":[{\"scope\":{},\"logRecords\":[{'' = ?out"
    by (simp add: append_json_escaped_eq otlp_prefix_def)
  have members: "fst (listed ?out ts) = ?out @ comma_separated ts" for ts by (simp add: listed_def)
  show ?thesis
    unfolding otlp_json_text make_otlp_json_def Let_def prefix listed_start [of ?out] otlp_members_listed
      otlp_attributes_listed add_string_listed [OF plain_keys(15)]
      add_optional_listed [OF plain_keys(17)] add_optional_listed [OF plain_keys(18)]
    by (simp add: members otlp_members_def otlp_record_def split del: option.split)
qed

lemma json_wf_documents [simp]:
  "json_wf (gelf_json event host)" "json_wf (action_json name)" "json_wf (otlp_json event service_name)"
  using json_wf_seconds
  by (auto simp: gelf_json_def action_json_def otlp_json_def otlp_record_def attribute_json_def
      string_value_def optional_member_def split: option.splits simp del: json_wf.simps(1))

section \<open>Reading requests back\<close>

text \<open>The text up to the first CR LF, and the rest after it.\<close>

fun read_line :: "bytes \<Rightarrow> (bytes \<times> bytes) option" where
  "read_line [] = None"
| "read_line (c # cs) =
     (if c = carriage_return \<and> cs \<noteq> [] \<and> hd cs = newline then Some ([], tl cs)
      else map_option (\<lambda>(l, r). (c # l, r)) (read_line cs))"

text \<open>The header lines up to the empty line; each is at least two bytes long.\<close>

fun read_headers :: "nat \<Rightarrow> bytes \<Rightarrow> (bytes list \<times> bytes) option" where
  "read_headers 0 s = None"
| "read_headers (Suc n) s =
     do { (l, r) \<leftarrow> read_line s;
          if l = [] then Some ([], r)
          else do { (ls, q) \<leftarrow> read_headers n r; Some (l # ls, q) } }"

definition header_value :: "bytes \<Rightarrow> bytes list \<Rightarrow> bytes option" where
  "header_value name ls =
     map_option (drop (length name)) (find (\<lambda>l. take (length name) l = name) ls)"

record http_request =
  request_line :: bytes
  request_headers :: "bytes list"
  request_body :: bytes

definition read_request :: "bytes \<Rightarrow> (http_request \<times> bytes) option" where
  "read_request s =
     do { (start, r) \<leftarrow> read_line s;
          (hs, r) \<leftarrow> read_headers (length r) r;
          n \<leftarrow> header_value ''Content-Length: '' hs;
          if all_digits n \<and> read_dec n \<le> length r
          then Some (\<lparr>request_line = start, request_headers = hs, request_body = take (read_dec n) r\<rparr>,
                     drop (read_dec n) r)
          else None }"

fun read_requests :: "nat \<Rightarrow> bytes \<Rightarrow> http_request list" where
  "read_requests 0 s = []"
| "read_requests (Suc n) s =
     (case read_request s of Some (r, rest) \<Rightarrow> r # read_requests n rest | None \<Rightarrow> [])"

lemma read_line_append: "carriage_return \<notin> set l \<Longrightarrow> read_line (l @ crlf @ r) = Some (l, r)"
  by (induction l) (auto simp: crlf_def)

lemma read_headers_step:
  "carriage_return \<notin> set l \<Longrightarrow> l \<noteq> [] \<Longrightarrow> read_headers (Suc n) (l @ crlf @ r) =
     map_option (\<lambda>(ls, q). (l # ls, q)) (read_headers n r)"
  by (cases "read_headers n r") (auto simp: read_line_append)

lemma read_headers_end: "read_headers (Suc n) (crlf @ r) = Some ([], r)"
proof -
  have "read_line (crlf @ r) = Some ([], r)" using read_line_append [of "[]" r] by (simp add: crlf_def)
  then show ?thesis by simp
qed

lemma read_headers_lines:
  "\<forall>l \<in> set ls. carriage_return \<notin> set l \<and> l \<noteq> [] \<Longrightarrow> length ls < n \<Longrightarrow>
     read_headers n (concat (map (\<lambda>l. l @ crlf) ls) @ crlf @ r) = Some (ls, r)"
proof (induction ls arbitrary: n)
  case Nil
  then show ?case by (cases n) (simp_all add: read_headers_end del: read_headers.simps(2))
next
  case (Cons l ls)
  then obtain m where "n = Suc m" by (cases n) auto
  with Cons read_headers_step [of l m] show ?case by (simp del: read_headers.simps(2))
qed

definition post_headers :: "bytes \<Rightarrow> bytes \<Rightarrow> bytes list" where
  "post_headers host body =
     [''Host: '' @ host, ''Content-Type: application/json'', ''Content-Length: '' @ dec_nat (length body),
      ''Connection: keep-alive'']"

definition post_request :: "bytes \<Rightarrow> bytes \<Rightarrow> bytes \<Rightarrow> http_request" where
  "post_request host path body =
     \<lparr>request_line = ''POST '' @ path @ '' HTTP/1.1'', request_headers = post_headers host body,
      request_body = body\<rparr>"

lemma no_return_in_digits: "carriage_return \<notin> set (dec_nat n)"
  using dec_nat_digits [of n] by (auto simp: is_digit_def char_code_def)

lemma read_http_post:
  assumes "carriage_return \<notin> set host" "carriage_return \<notin> set path"
  shows "read_request (make_http_post host path body @ rest) = Some (post_request host path body, rest)"
proof -
  let ?start = "''POST '' @ path @ '' HTTP/1.1''"
  let ?hs = "post_headers host body"
  let ?tail = "concat (map (\<lambda>l. l @ crlf) ?hs) @ crlf @ body @ rest"
  have shape: "make_http_post host path body @ rest = ?start @ crlf @ ?tail"
    by (simp add: make_http_post_def post_headers_def)
  have line: "read_line (?start @ crlf @ ?tail) = Some (?start, ?tail)"
    using assms by (intro read_line_append) simp
  have "length ?hs < length ?tail" by (simp add: post_headers_def crlf_def)
  then have heads: "read_headers (length ?tail) ?tail = Some (?hs, body @ rest)"
    using assms(1) no_return_in_digits by (intro read_headers_lines) (auto simp: post_headers_def)
  have size: "header_value ''Content-Length: '' ?hs = Some (dec_nat (length body))"
    by (simp add: header_value_def post_headers_def)
  then show ?thesis
    unfolding shape read_request_def by (simp only: line heads size bind.bind_lunit prod.case) (simp add: post_request_def)
qed

text \<open>
  Reading is stable under more input, so a request cut short is not read at all.
\<close>

lemma read_line_more: "read_line s = Some (l, r) \<Longrightarrow> read_line (s @ t) = Some (l, r @ t)"
proof (induction s arbitrary: l)
  case (Cons c s)
  then show ?case by (cases s) (auto split: if_splits)
qed simp

lemma read_headers_more:
  "read_headers n s = Some (ls, r) \<Longrightarrow> n \<le> m \<Longrightarrow> read_headers m (s @ t) = Some (ls, r @ t)"
proof (induction n arbitrary: s ls m)
  case (Suc n)
  then obtain m' where m: "m = Suc m'" "n \<le> m'" by (cases m) auto
  from Suc.prems(1) obtain l q where l: "read_line s = Some (l, q)"
    by (cases "read_line s") auto
  show ?case
  proof (cases "l = []")
    case True
    with Suc.prems(1) l read_line_more [OF l, of t] m show ?thesis by simp
  next
    case False
    with Suc.prems(1) l obtain ks where "read_headers n q = Some (ks, r)" "ls = l # ks"
      by (cases "read_headers n q") auto
    with False read_line_more [OF l, of t] Suc.IH [OF _ m(2)] m show ?thesis by simp
  qed
qed simp

lemma read_request_more: "read_request s = Some (x, r) \<Longrightarrow> read_request (s @ t) = Some (x, r @ t)"
proof -
  assume read: "read_request s = Some (x, r)"
  then obtain start r1 hs r2 n where parts: "read_line s = Some (start, r1)"
    "read_headers (length r1) r1 = Some (hs, r2)" "header_value ''Content-Length: '' hs = Some n"
    "all_digits n \<and> read_dec n \<le> length r2"
    "x = \<lparr>request_line = start, request_headers = hs, request_body = take (read_dec n) r2\<rparr>"
    "r = drop (read_dec n) r2"
    by (auto simp: read_request_def split: Option.bind_splits if_splits)
  have "read_headers (length (r1 @ t)) (r1 @ t) = Some (hs, r2 @ t)"
    by (rule read_headers_more [OF parts(2)]) simp
  with read_line_more [OF parts(1), of t] parts(3-6) show ?thesis
    by (simp add: read_request_def)
qed

lemma torn_request:
  assumes "carriage_return \<notin> set host" "carriage_return \<notin> set path"
    "strict_prefix q (make_http_post host path body)"
  shows "read_request q = None"
proof (rule ccontr)
  assume "read_request q \<noteq> None"
  then obtain x r where "read_request q = Some (x, r)" by auto
  moreover from assms(3) obtain t where t: "make_http_post host path body = q @ t" "t \<noteq> []"
    by (auto elim: strict_prefixE')
  ultimately have "read_request (make_http_post host path body) = Some (x, r @ t)"
    using read_request_more by simp
  with read_http_post [OF assms(1,2), of body "[]"] t(2) show False by simp
qed

lemma read_requests_torn:
  assumes "carriage_return \<notin> set host" "carriage_return \<notin> set path" "read_request q = None"
    "length bodies \<le> n"
  shows "read_requests n (concat (map (make_http_post host path) bodies) @ q) = map (post_request host path) bodies"
  using assms(4)
proof (induction bodies arbitrary: n)
  case Nil
  then show ?case using assms(3) by (cases n) simp_all
next
  case (Cons b bodies)
  then obtain m where "n = Suc m" "length bodies \<le> m" by (cases n) auto
  with Cons.IH show ?case by (simp add: read_http_post [OF assms(1,2)])
qed

section \<open>Member names\<close>

text \<open>A well-typed document: in every object of it the names of the members are distinct.\<close>

fun names_distinct :: "json \<Rightarrow> bool" where
  "names_distinct (JArr js) \<longleftrightarrow> list_all names_distinct js"
| "names_distinct (JObj ms) \<longleftrightarrow> distinct (map fst ms) \<and> list_all (\<lambda>m. names_distinct (snd m)) ms"
| "names_distinct _ \<longleftrightarrow> True"

definition field_keys :: "log_event \<Rightarrow> bytes list" where
  "field_keys event = map fkey (event_fields event)"

lemma names_distinct_value [simp]: "names_distinct (value_json v)"
  by (simp add: value_json_def split: field_value.split)

lemma names_distinct_fields [simp]:
  "list_all (\<lambda>m. names_distinct (snd m)) (map field_member fs)"
  "list_all (\<lambda>m. names_distinct (snd m)) (map (\<lambda>f. (k f, value_json (fvalue f))) fs)"
  by (simp_all add: list_all_iff field_member_def)

lemma event_names: "names_distinct (event_json event) \<longleftrightarrow> distinct (field_keys event)"
  by (auto simp: event_json_def optional_member_def field_keys_def comp_def field_member_def list_all_iff
      split: option.split)

lemma gelf_names:
  "names_distinct (gelf_json event host) \<longleftrightarrow>
    distinct (field_keys event) \<and> ''logger'' \<notin> set (field_keys event)"
proof -
  have "distinct (map (\<lambda>f. CHR ''_'' # fkey f) fs) \<longleftrightarrow> distinct (map fkey fs)" for fs :: "field list"
    by (induction fs) auto
  then show ?thesis
    by (auto simp: gelf_json_def field_keys_def comp_def list_all_iff image_iff)
qed

lemma otlp_names: "names_distinct (otlp_json event service_name)"
  by (auto simp: otlp_json_def otlp_record_def attribute_json_def string_value_def optional_member_def list_all_iff
      split: option.split)

section \<open>Properties\<close>

text \<open>
  C32. Typing of the documents: what a reader parses from the three formats has no object with two
  members of one name, in OTLP always; in a JSON record exactly when the keys of the event's fields
  are distinct; in GELF exactly when they are distinct and none of them is \<^verbatim>\<open>logger\<close>, whose name would
  be that of the logger's own member.
\<close>

theorem payload_names_unique:
  "map_option names_distinct (parse_json (make_otlp_json event service_name)) = Some True \<and>
   map_option names_distinct (parse_json (to_json_event event)) = Some (distinct (field_keys event)) \<and>
   map_option names_distinct (parse_json (make_gelf_payload event host)) =
     Some (distinct (field_keys event) \<and> ''logger'' \<notin> set (field_keys event))"
  unfolding make_otlp_json_text make_gelf_payload_text to_json_event_text
  by (simp add: parse_json_text otlp_names gelf_names event_names)

text \<open>
  C36. The GELF message of any event parses, and to exactly the fields of GELF 1.1: version, host,
  short message, seconds since the epoch with six decimals, syslog severity, logger and the
  event's fields under an underscore.
\<close>

theorem gelf_payload_parses: "parse_json (make_gelf_payload event host) = Some (gelf_json event host)"
  unfolding make_gelf_payload_text by (rule parse_json_text) simp

text \<open>
  C37. The OTLP document of any event parses to one resource with the service name and one log
  record carrying the event, whatever characters names, messages and values contain.
\<close>

theorem otlp_payload_parses:
  "parse_json (make_otlp_json event service_name) = Some (otlp_json event service_name)"
  unfolding make_otlp_json_text by (rule parse_json_text) simp

end
