(* ===== verification/Tcp_Json_Sink.thy ===== *)
theory Tcp_Json_Sink
  imports Net_Demo Payloads
begin

text \<open>
  \<^verbatim>\<open>src/sinks/tcp_json_lines_sink.cpp\<close>. A write runs under the sink's mutex except while it sleeps
  between two attempts; the definitions follow one caller. The state of a sink is a record, paired
  with the log of kernel calls and the kernel.
\<close>

section \<open>State\<close>

record tcp_json_lines_sink_options =
  tj_host :: bytes
  tj_port :: u16
  tj_lazy_connect :: bool
  tj_reconnect_on_failure :: bool
  tj_max_write_retries :: u32

definition default_tcp_json_lines_sink_options :: tcp_json_lines_sink_options where
  "default_tcp_json_lines_sink_options =
     \<lparr>tj_host = ''127.0.0.1'', tj_port = 5000, tj_lazy_connect = True,
      tj_reconnect_on_failure = True, tj_max_write_retries = 1\<rparr>"

record tcp_json_lines_sink =
  tj_base :: sink_base
  tj_options :: tcp_json_lines_sink_options
  tj_client :: tcp_client
  tj_statistics :: network_sink_statistics
  tj_last_error_message :: bytes

type_synonym 'o tcp_sink_state = "tcp_json_lines_sink \<times> 'o net"

definition new_tcp_json_lines_sink ::
  "'o kernel \<Rightarrow> tcp_json_lines_sink_options \<Rightarrow> 'o net \<Rightarrow> (cpp_exception + tcp_json_lines_sink) \<times> 'o net" where
  "new_tcp_json_lines_sink k options n =
     (let sink = \<lparr>tj_base = \<lparr>sink_formatter = None, sink_filter = None\<rparr>, tj_options = options,
                  tj_client = new_tcp_client, tj_statistics = no_statistics, tj_last_error_message = []\<rparr>
      in if tj_port options = 0
         then (Inl (Invalid_Argument ''tcp_json_lines_sink port must be greater than zero''), n)
         else if \<not> tj_lazy_connect options
         then (case tcp_connect k (tj_host options) (tj_port options) (new_tcp_client, n) of
                 (Inl e, c, n) \<Rightarrow> (Inl e, n)
               | (Inr u, c, n) \<Rightarrow> (Inr (sink\<lparr>tj_client := c\<rparr>), n))
         else (Inr sink, n))"

text \<open>The destructor of the transport closes the client.\<close>

definition tj_destroy :: "'o kernel \<Rightarrow> 'o tcp_sink_state \<Rightarrow> 'o net" where
  "tj_destroy k st = snd (tcp_close k (tj_client (fst st), snd st))"

section \<open>Writing\<close>

definition with_client :: "tcp_json_lines_sink \<Rightarrow> tcp_client \<times> 'o net \<Rightarrow> 'o tcp_sink_state" where
  "with_client sk cn = (sk\<lparr>tj_client := fst cn\<rparr>, snd cn)"

definition tj_ensure_connected :: "'o kernel \<Rightarrow> 'o tcp_sink_state \<Rightarrow> 'o tcp_sink_state outcome" where
  "tj_ensure_connected k st =
     (case st of (sk, n) \<Rightarrow>
        if \<not> tcp_connected (tj_client sk)
        then (case tcp_connect k (tj_host (tj_options sk)) (tj_port (tj_options sk)) (tj_client sk, n) of
                (r, cn) \<Rightarrow> (r, with_client sk cn))
        else (Inr (), st))"

definition tj_record_failure :: "cpp_exception \<Rightarrow> 'o tcp_sink_state \<Rightarrow> 'o tcp_sink_state" where
  "tj_record_failure e st =
     (case st of (sk, n) \<Rightarrow>
        (sk\<lparr>tj_statistics := count_failure (tj_statistics sk), tj_last_error_message := what e\<rparr>, n))"

text \<open>The try block with its handlers, up to the test of the retries left.\<close>

definition tj_attempt :: "'o kernel \<Rightarrow> bytes \<Rightarrow> 'o tcp_sink_state \<Rightarrow> 'o tcp_sink_state outcome option" where
  "tj_attempt k payload st =
     (case tj_ensure_connected k st of
        (Inl e, st) \<Rightarrow> Some (Inl e, tj_record_failure e st)
      | (Inr u, sk, n) \<Rightarrow>
          (case send_all k payload (tj_client sk, n) of
             None \<Rightarrow> None
           | Some (Inl e, cn) \<Rightarrow> Some (Inl e, tj_record_failure e (with_client sk cn))
           | Some (Inr u, cn) \<Rightarrow> Some (Inr (), with_client (sk\<lparr>tj_last_error_message := []\<rparr>) cn)))"

definition tj_recover :: "'o kernel \<Rightarrow> u32 \<Rightarrow> 'o tcp_sink_state \<Rightarrow> 'o tcp_sink_state outcome" where
  "tj_recover k backoff_ms st =
     (case st of (sk, n) \<Rightarrow>
        (case tcp_close k (tj_client sk, n) of
           (c, n) \<Rightarrow> (Inr (), sk\<lparr>tj_client := c, tj_statistics := count_reconnect (tj_statistics sk)\<rparr>,
                      sleep_for k backoff_ms n)))"

fun tj_write_loop :: "'o kernel \<Rightarrow> bytes \<Rightarrow> nat \<Rightarrow> u32 \<Rightarrow> 'o tcp_sink_state \<Rightarrow> 'o tcp_sink_state outcome option" where
  "tj_write_loop k payload retries_remaining backoff_ms st =
     (case tj_attempt k payload st of
        None \<Rightarrow> None
      | Some (Inr u, st) \<Rightarrow> Some (Inr u, st)
      | Some (Inl e, st) \<Rightarrow>
          (case retries_remaining of
             0 \<Rightarrow> Some (Inl e, st)
           | Suc n \<Rightarrow>
               (case tj_recover k backoff_ms st of
                  (Inl e, st) \<Rightarrow> Some (Inl e, st)
                | (Inr u, st) \<Rightarrow> tj_write_loop k payload n (next_backoff backoff_ms) st)))"

declare tj_write_loop.simps [simp del]

definition tj_payload :: "tcp_json_lines_sink \<Rightarrow> log_event \<Rightarrow> bytes" where
  "tj_payload sk event =
     (case sink_formatter (tj_base sk) of
        Some f \<Rightarrow> f event
      | None \<Rightarrow> make_tcp_json_lines_payload event)"

definition tj_retries :: "tcp_json_lines_sink_options \<Rightarrow> nat" where
  "tj_retries options = (if tj_reconnect_on_failure options then unat (tj_max_write_retries options) else 0)"

definition tj_write :: "'o kernel \<Rightarrow> log_event \<Rightarrow> 'o tcp_sink_state \<Rightarrow> 'o tcp_sink_state outcome option" where
  "tj_write k event st =
     (case st of (sk, n) \<Rightarrow>
        if \<not> should_log (tj_base sk) event then Some (Inr (), st)
        else tj_write_loop k (tj_payload sk event) (tj_retries (tj_options sk)) 10
               (sk\<lparr>tj_statistics := count_attempt (tj_statistics sk)\<rparr>, n))"

definition tj_flush :: "'o tcp_sink_state \<Rightarrow> 'o tcp_sink_state" where
  "tj_flush st = st"

definition tj_get_statistics :: "tcp_json_lines_sink \<Rightarrow> network_sink_statistics" where
  "tj_get_statistics sk = tj_statistics sk"

definition tj_get_last_error_message :: "tcp_json_lines_sink \<Rightarrow> bytes" where
  "tj_get_last_error_message sk = tj_last_error_message sk"

definition tj_write_failures :: "tcp_json_lines_sink \<Rightarrow> u64" where
  "tj_write_failures sk = write_failures (tj_statistics sk)"

definition tj_connected :: "tcp_json_lines_sink \<Rightarrow> bool" where
  "tj_connected sk = tcp_connected (tj_client sk)"

section \<open>The loop meets the contract\<close>

lemma tj_attempt_deliver:
  "tj_attempt k payload (sk, n) =
     (case deliver k (tj_host (tj_options sk)) (tj_port (tj_options sk)) payload (tj_client sk, n) of
        None \<Rightarrow> None
      | Some (Inl e, cn) \<Rightarrow> Some (Inl e, tj_record_failure e (with_client sk cn))
      | Some (Inr u, cn) \<Rightarrow> Some (Inr (), with_client (sk\<lparr>tj_last_error_message := []\<rparr>) cn))"
  by (auto simp: tj_attempt_def tj_ensure_connected_def deliver_def with_client_def
      split: option.split sum.split prod.split)

lemma tj_attempt_cases:
  assumes "tj_attempt k payload (sk, n) = Some (r, sk', n')"
  shows "deliver k (tj_host (tj_options sk)) (tj_port (tj_options sk)) payload (tj_client sk, n) =
      Some (r, tj_client sk', n') \<and> tj_options sk' = tj_options sk \<and> tj_base sk' = tj_base sk \<and>
    tj_statistics sk' = (if r = Inr () then tj_statistics sk else count_failure (tj_statistics sk)) \<and>
    tj_last_error_message sk' = (case r of Inl e \<Rightarrow> what e | Inr u \<Rightarrow> [])"
  using assms unfolding tj_attempt_deliver
  by (auto simp: tj_record_failure_def with_client_def split: option.splits sum.splits)

definition tj_net :: "'o tcp_sink_state \<Rightarrow> tcp_client \<times> 'o net" where
  "tj_net st = (tj_client (fst st), snd st)"

interpretation tcp_retry: tcp_write_retry "tj_attempt k payload" "tj_recover k" "tj_write_loop k payload"
  "\<lambda>st. tj_statistics (fst st)" k payload tj_net "\<lambda>st. (tj_base (fst st), tj_options (fst st))" for k payload
proof (unfold_locales, goal_cases)
  case (1 n backoff x)
  show ?case by (rule tj_write_loop.simps)
next
  case (2 x r x')
  then show ?case using tj_attempt_cases [of k payload "fst x" "snd x" r "fst x'" "snd x'"] by simp
next
  case (3 backoff x)
  show ?case by (auto simp: tj_recover_def split: prod.splits)
next
  case (4 x r x')
  then show ?case using tj_attempt_cases [of k payload "fst x" "snd x" r "fst x'" "snd x'"]
    unfolding tj_net_def by auto
next
  case (5 x)
  then show ?case
    by (cases x) (auto simp: tj_attempt_deliver tj_net_def simp del: not_None_eq split: option.splits sum.splits prod.splits)
next
  case (6 b x)
  show ?case by (auto simp: tj_recover_def tj_net_def split: prod.splits)
next
  case (7 b x)
  show ?case by (auto simp: tj_recover_def split: prod.splits)
qed

section \<open>A sink in use\<close>

text \<open>A caller goes on after a write that throws.\<close>

fun tj_write_all ::
  "'o kernel \<Rightarrow> log_event list \<Rightarrow> 'o tcp_sink_state \<Rightarrow> ((cpp_exception + unit) list \<times> 'o tcp_sink_state) option"
where
  "tj_write_all k [] st = Some ([], st)"
| "tj_write_all k (event # events) st =
     (case tj_write k event st of
        None \<Rightarrow> None
      | Some (r, st) \<Rightarrow>
          (case tj_write_all k events st of None \<Rightarrow> None | Some (rs, st) \<Rightarrow> Some (r # rs, st)))"

abbreviation is_record :: "bytes \<Rightarrow> bool" where
  "is_record p \<equiv> \<exists>e. p = to_json_lines_record e"

lemma tj_write_carries:
  assumes "posix_kernel k" "carries is_record (tj_net st) d" "tj_base (fst st) = plain_base"
    "tj_write k event st = Some (r, st')"
  shows "carries is_record (tj_net st') (d @ (if r = Inr () then [to_json_lines_record event] else [])) \<and>
    tj_base (fst st') = plain_base"
proof -
  let ?st = "((fst st)\<lparr>tj_statistics := count_attempt (tj_statistics (fst st))\<rparr>, snd st)"
  have loop: "tj_write_loop k (to_json_lines_record event) (tj_retries (tj_options (fst st))) 10 ?st = Some (r, st')"
    using assms(3,4) by (auto simp: tj_write_def tj_payload_def should_log_def plain_base_def
        make_tcp_json_lines_payload_def split: prod.splits)
  have "carries is_record (tj_net ?st) d" using assms(2) by (simp add: tj_net_def)
  moreover have "is_record (to_json_lines_record event)" by blast
  ultimately show ?thesis
    using tcp_retry.loop_carries [of k is_record, OF assms(1) _ _ loop] assms(3) by simp
qed

lemma tj_write_all_carries:
  assumes "posix_kernel k"
  shows "carries is_record (tj_net st) d \<Longrightarrow> tj_base (fst st) = plain_base \<Longrightarrow>
    tj_write_all k events st = Some (rs, st') \<Longrightarrow>
    carries is_record (tj_net st') (d @ map to_json_lines_record (accepted_events events rs))"
proof (induction events arbitrary: st d rs)
  case Nil
  then show ?case by (simp add: accepted_events_def)
next
  case (Cons event events)
  from Cons.prems(3) obtain r st1 qs where step: "tj_write k event st = Some (r, st1)"
    "tj_write_all k events st1 = Some (qs, st')" "rs = r # qs"
    by (auto split: option.splits)
  note one = tj_write_carries [OF assms Cons.prems(1,2) step(1)]
  from Cons.IH [OF _ _ step(2)] one step(3) show ?case
    by (cases "r = Inr ()") (force simp: accepted_events_def)+
qed

lemma complete_lines_tail:
  assumes "\<forall>l \<in> set ls. newline \<notin> set l" "newline \<notin> set q"
  shows "complete_lines [] (concat (map (\<lambda>l. l @ [newline]) ls) @ q) = ls"
proof -
  have tail: "complete_lines acc q = []" for acc
    using assms(2) by (induction q arbitrary: acc) auto
  show ?thesis
    using assms(1) by (induction ls) (auto simp: complete_lines_append [where acc = "[]", simplified] tail)
qed

lemma record_lines: "to_json_lines_record e = to_json_event e @ [newline]"
  by (simp add: to_json_lines_record_def)

lemma no_newline_in_record: "newline \<notin> set (to_json_event e)"
  by (simp add: to_json_event_text newline_not_in_json_text)

lemma torn_record:
  "strict_prefix q (to_json_lines_record e) \<Longrightarrow> newline \<notin> set q"
proof -
  assume "strict_prefix q (to_json_lines_record e)"
  then have "prefix q (to_json_event e)"
    by (auto simp: record_lines strict_prefix_def)
  then show ?thesis using no_newline_in_record [of e] set_mono_prefix by blast
qed

lemma segment_lines:
  assumes "set ps \<subseteq> range to_json_lines_record"
    and "q = [] \<or> (\<exists>e. strict_prefix q (to_json_lines_record e))"
  shows "complete_lines [] (segment_bytes (ps, q)) = map butlast ps"
proof -
  have "newline \<notin> set q" using assms(2) torn_record by auto
  moreover have "ps = map (\<lambda>l. l @ [newline]) (map butlast ps)"
    using assms(1) by (induction ps) (auto simp: record_lines)
  moreover have "\<forall>l \<in> set (map butlast ps). newline \<notin> set l"
    using assms(1) no_newline_in_record by (auto simp: record_lines)
  ultimately show ?thesis using complete_lines_tail [of "map butlast ps" q] by (simp add: segment_bytes_def)
qed

lemma carried_lines:
  assumes "carries is_record (c, calls, s) (map to_json_lines_record events)"
  shows "concat (map (complete_lines []) (streams calls)) = map to_json_event events"
proof -
  have "concat (map (complete_lines []) (streams calls)) = map (\<lambda>e. butlast (to_json_lines_record e)) events"
    by (rule carried_messages [OF assms], use segment_lines in \<open>auto simp: segment_bytes_def\<close>)
  then show ?thesis by (simp add: record_lines)
qed

lemma new_sink_carries:
  assumes "new_tcp_json_lines_sink k options ([], s) = (Inr sk, n)"
  shows "carries P (tj_net (sk, n)) [] \<and> tj_base sk = plain_base"
proof (cases "tj_lazy_connect options")
  case True
  with assms show ?thesis
    by (auto simp: new_tcp_json_lines_sink_def tj_net_def carries_def plain_base_def new_tcp_client_def Let_def
        split: if_splits)
next
  case False
  obtain r c m where con: "tcp_connect k (tj_host options) (tj_port options) (new_tcp_client, [], s) = (r, c, m)"
    by (metis surj_pair)
  have "carries P (new_tcp_client, [], s) []" by (simp add: carries_def new_tcp_client_def)
  from carries_connect [OF this con] assms False con show ?thesis
    by (auto simp: new_tcp_json_lines_sink_def tj_net_def plain_base_def Let_def split: if_splits sum.splits)
qed

lemma new_sink_holds:
  assumes "new_tcp_json_lines_sink k options ([], s) = (Inr sk, n)" "posix_kernel k"
  shows "tcp_holds (tj_net (sk, n)) {#} 0"
proof (cases "tj_lazy_connect options")
  case True
  with assms show ?thesis
    by (auto simp: new_tcp_json_lines_sink_def tj_net_def tcp_holds_def new_tcp_client_def Let_def
        split: if_splits)
next
  case False
  obtain r c m where con: "tcp_connect k (tj_host options) (tj_port options) (new_tcp_client, [], s) = (r, c, m)"
    by (metis surj_pair)
  have "tcp_holds (new_tcp_client, [], s) {#} 0" by (simp add: tcp_holds_def new_tcp_client_def)
  from tcp_connect_holds [OF assms(2) this, of "tj_host options" "tj_port options"] con assms(1) False show ?thesis
    by (auto simp: new_tcp_json_lines_sink_def tj_net_def Let_def split: if_splits sum.splits)
qed

lemma tj_write_all_holds:
  assumes "posix_kernel k"
  shows "tcp_holds (tj_net st) hs m \<Longrightarrow> tj_write_all k events st = Some (rs, st') \<Longrightarrow> tcp_holds (tj_net st') hs m"
proof (induction events arbitrary: st rs)
  case (Cons event events)
  from Cons.prems(2) obtain r st1 qs where step: "tj_write k event st = Some (r, st1)"
    "tj_write_all k events st1 = Some (qs, st')" by (auto split: option.splits)
  let ?st = "((fst st)\<lparr>tj_statistics := count_attempt (tj_statistics (fst st))\<rparr>, snd st)"
  have "tcp_holds (tj_net ?st) hs m" using Cons.prems(1) by (simp add: tj_net_def)
  with step(1) Cons.prems(1) tcp_retry.loop_holds [OF assms this] have "tcp_holds (tj_net st1) hs m"
    by (auto simp: tj_write_def split: prod.splits if_splits)
  from Cons.IH [OF this step(2)] show ?case .
qed simp

section \<open>A write over a breaking connection\<close>

definition demo_options :: tcp_json_lines_sink_options where
  "demo_options = default_tcp_json_lines_sink_options\<lparr>tj_max_write_retries := 2\<rparr>"

definition demo_sink :: tcp_json_lines_sink where
  "demo_sink = \<lparr>tj_base = plain_base, tj_options = demo_options, tj_client = new_tcp_client,
     tj_statistics = no_statistics, tj_last_error_message = []\<rparr>"

lemma demo_sink_new: "new_tcp_json_lines_sink demo_kernel demo_options n = (Inr demo_sink, n)"
  by (simp add: new_tcp_json_lines_sink_def demo_options_def default_tcp_json_lines_sink_options_def
      demo_sink_def plain_base_def Let_def)

text \<open>One byte is sent, the connection breaks, and the second attempt succeeds.\<close>

definition demo_calls :: "bytes \<Rightarrow> os_call list" where
  "demo_calls p = dialled ''127.0.0.1'' 5000 @ [Send 3 p 1, Send 3 (drop 1 p) (- 1), Close 3, Sleep 10] @
     dialled ''127.0.0.1'' 5000 @ [Send 3 p (int (length p))]"

lemma demo_write:
  assumes "p = to_json_lines_record event"
  shows "tj_write demo_kernel event (demo_sink, [], [1, - 2]) =
    Some (Inr (), demo_sink\<lparr>tj_client := \<lparr>tcp_connected = True, tcp_handle = 3\<rparr>,
        tj_statistics := \<lparr>write_attempts = 1, write_failures = 1, reconnect_attempts = 1\<rparr>\<rparr>, demo_calls p, [])"
proof -
  have "2 \<le> length p" unfolding assms record_lines to_json_event_def Let_def by simp
  then have len: "2 \<le> length p" "0 < length p" by linarith+
  have sel: "tj_base demo_sink = plain_base" "tj_options demo_sink = demo_options"
    "tj_client demo_sink = new_tcp_client" "tj_statistics demo_sink = no_statistics"
    "tj_host demo_options = ''127.0.0.1''" "tj_port demo_options = 5000" "tj_retries demo_options = Suc 1"
    by (simp_all add: demo_sink_def demo_options_def default_tcp_json_lines_sink_options_def tj_retries_def)
  let ?a = "demo_sink\<lparr>tj_statistics := count_attempt no_statistics\<rparr>"
  have first: "tj_attempt demo_kernel p (?a, [], [1, - 2]) =
      Some (Inl (Runtime_Error ''tcp send failed''),
        ?a\<lparr>tj_statistics := count_failure (count_attempt no_statistics),
          tj_last_error_message := ''tcp send failed''\<rparr>,
        dialled ''127.0.0.1'' 5000 @ [Send 3 p 1, Send 3 (drop 1 p) (- 1), Close 3], [])"
    using demo_deliver(2) [OF len(1), of "''127.0.0.1''" 5000 "[]"]
    by (simp add: tj_attempt_deliver sel tj_record_failure_def with_client_def demo_sink_def)
  let ?b = "?a\<lparr>tj_statistics := \<lparr>write_attempts = 1, write_failures = 1, reconnect_attempts = 1\<rparr>,
    tj_last_error_message := ''tcp send failed''\<rparr>"
  let ?calls = "dialled ''127.0.0.1'' 5000 @ [Send 3 p 1, Send 3 (drop 1 p) (- 1), Close 3, Sleep 10]"
  have recover: "tj_recover demo_kernel 10 (?a\<lparr>tj_statistics := count_failure (count_attempt no_statistics),
      tj_last_error_message := ''tcp send failed''\<rparr>,
      dialled ''127.0.0.1'' 5000 @ [Send 3 p 1, Send 3 (drop 1 p) (- 1), Close 3], []) = (Inr (), ?b, ?calls, [])"
    by (simp add: tj_recover_def tcp_close_def demo_sink_def demo_flags sleep_for_def logged_def counting
        no_statistics_def demo_kernel_def)
  have second: "tj_attempt demo_kernel p (?b, ?calls, []) =
      Some (Inr (), ?b\<lparr>tj_last_error_message := [], tj_client := \<lparr>tcp_connected = True, tcp_handle = 3\<rparr>\<rparr>,
        demo_calls p, [])"
    using demo_deliver(1) [OF len(2), of "''127.0.0.1''" 5000 ?calls]
    by (simp add: tj_attempt_deliver sel with_client_def demo_sink_def demo_calls_def)
  have "tj_write demo_kernel event (demo_sink, [], [1, - 2]) =
      tj_write_loop demo_kernel p (Suc 1) 10 (?a, [], [1, - 2])"
    by (simp add: tj_write_def sel should_log_def plain_base_def tj_payload_def make_tcp_json_lines_payload_def assms)
  also have "\<dots> = tj_write_loop demo_kernel p 1 (next_backoff 10) (?b, ?calls, [])"
    unfolding tj_write_loop.simps [of demo_kernel p "Suc 1" 10 "(?a, [], [1, - 2])"] first
      option.case prod.case sum.case old.nat.case recover ..
  also have "\<dots> = Some (Inr (), ?b\<lparr>tj_last_error_message := [],
      tj_client := \<lparr>tcp_connected = True, tcp_handle = 3\<rparr>\<rparr>, demo_calls p, [])"
    unfolding tj_write_loop.simps [of demo_kernel p 1 "next_backoff 10" "(?b, ?calls, [])"] second
      option.case prod.case sum.case ..
  finally show ?thesis by (simp add: demo_sink_def)
qed

section \<open>Properties\<close>

text \<open>
  Exactly once, line by line: over a sink's whole life, whatever the kernel does to its connections
  (refusals, short sends, interruptions, breaks in the middle of a record, retries), the complete
  lines received on all its connections, one connection after the other, are the JSON records of
  exactly the events whose write returned normally, in order, each once.
\<close>

theorem tcp_records_exactly_once:
  assumes "posix_kernel k" "new_tcp_json_lines_sink k options ([], s) = (Inr sk, n)"
    "tj_write_all k events (sk, n) = Some (rs, sk', calls, s')"
  shows "concat (map (complete_lines []) (streams calls)) = map to_json_event (accepted_events events rs)"
proof -
  note start = new_sink_carries [OF assms(2), of is_record]
  have "carries is_record (tj_net (sk', calls, s')) ([] @ map to_json_lines_record (accepted_events events rs))"
    by (rule tj_write_all_carries [OF assms(1) _ _ assms(3)]) (use start in simp_all)
  then show ?thesis by (intro carried_lines) (simp add: tj_net_def)
qed

theorem tcp_records_exactly_once_witness:
  "streams (demo_calls (to_json_lines_record demo_event)) =
      [take 1 (to_json_lines_record demo_event), to_json_lines_record demo_event] \<and>
   concat (map (complete_lines []) (streams (demo_calls (to_json_lines_record demo_event)))) = [to_json_event demo_event]"
proof -
  have "streams (demo_calls (to_json_lines_record demo_event)) =
      [take 1 (to_json_lines_record demo_event), to_json_lines_record demo_event]"
    by (simp add: demo_calls_def dialled_def streams_def)
  moreover have "tj_write_all demo_kernel [demo_event] (demo_sink, [], [1, - 2]) =
      Some ([Inr ()], demo_sink\<lparr>tj_client := \<lparr>tcp_connected = True, tcp_handle = 3\<rparr>,
        tj_statistics := \<lparr>write_attempts = 1, write_failures = 1, reconnect_attempts = 1\<rparr>\<rparr>,
        demo_calls (to_json_lines_record demo_event), [])"
    by (simp add: demo_write [OF refl])
  from tcp_records_exactly_once [OF demo_kernel_ok(1) demo_sink_new this]
  have "concat (map (complete_lines []) (streams (demo_calls (to_json_lines_record demo_event)))) = [to_json_event demo_event]"
    by (simp add: accepted_events_def)
  ultimately show ?thesis by blast
qed

text \<open>
  Accounting of a write: it counts one attempt; every failure of the transport and every retry is
  counted; it retries at most \<^verbatim>\<open>max_write_retries\<close> times, not at all without
  \<^verbatim>\<open>reconnect_on_failure\<close>; it throws exactly when the last try failed, after all retries are used.
\<close>

theorem tcp_write_accounting:
  assumes "should_log (tj_base sk) event" "tj_write k event (sk, n) = Some (r, sk', n')"
  shows "\<exists>f c. tj_statistics sk' =
      \<lparr>write_attempts = write_attempts (tj_statistics sk) + 1,
       write_failures = write_failures (tj_statistics sk) + of_nat f,
       reconnect_attempts = reconnect_attempts (tj_statistics sk) + of_nat c\<rparr> \<and>
    c \<le> tj_retries (tj_options sk) \<and>
    (if r = Inr () then f = c else f = Suc c \<and> c = tj_retries (tj_options sk))"
proof -
  let ?x = "(sk\<lparr>tj_statistics := count_attempt (tj_statistics sk)\<rparr>, n)"
  have "tj_write_loop k (tj_payload sk event) (tj_retries (tj_options sk)) 10 ?x = Some (r, sk', n')"
    using assms by (simp add: tj_write_def)
  from tcp_retry.loop_accounting [OF this] obtain f c where fc:
    "tj_statistics (fst (sk', n')) = (tj_statistics (fst ?x))
       \<lparr>write_failures := write_failures (tj_statistics (fst ?x)) + of_nat f,
        reconnect_attempts := reconnect_attempts (tj_statistics (fst ?x)) + of_nat c\<rparr>"
    "c \<le> tj_retries (tj_options sk)"
    "f = c \<or> f = Suc c \<and> r \<noteq> Inr () \<and> c = tj_retries (tj_options sk)"
    "f = c \<longrightarrow> r = Inr () \<or> (\<exists>b y. tj_recover k b y = (r, sk', n'))"
    by blast
  have "tj_recover k b y = (r, sk', n') \<Longrightarrow> r = Inr ()" for b y
    by (auto simp: tj_recover_def split: prod.splits)
  with fc show ?thesis
    by (intro exI [of _ f] exI [of _ c]) (auto simp: count_attempt_def)
qed

theorem tcp_write_accounting_witness:
  "\<exists>f c. (1 :: u64) = of_nat f \<and> (1 :: u64) = of_nat c \<and> c \<le> 2 \<and> f = c"
  using tcp_write_accounting [OF _ demo_write [OF refl, of demo_event]]
  by (simp add: demo_sink_def plain_base_def should_log_def no_statistics_def demo_options_def
      default_tcp_json_lines_sink_options_def tj_retries_def)

text \<open>
  C24. No leak: over construction, any writes and destruction of a sink, every socket opened is closed
  again, none is closed twice, and every address list is freed; in between the sink holds at most
  the one socket it is connected by.
\<close>

theorem tcp_no_leak:
  assumes "posix_kernel k" "new_tcp_json_lines_sink k options ([], s) = (Inr sk, n)"
    "tj_write_all k events (sk, n) = Some (rs, sk', n')"
  shows "open_handles (fst n') = (if tj_connected sk' then {#tcp_handle (tj_client sk')#} else {#}) \<and>
    open_handles (fst (tj_destroy k (sk', n'))) = {#} \<and> open_lists (fst (tj_destroy k (sk', n'))) = 0"
proof -
  have held: "tcp_holds (tj_net (sk', n')) {#} 0"
    by (rule tj_write_all_holds [OF assms(1) new_sink_holds [OF assms(2,1)] assms(3)])
  from tcp_close_holds [OF held, of k] have "tcp_holds (tcp_close k (tj_net (sk', n'))) {#} 0"
    "\<not> tcp_connected (fst (tcp_close k (tj_net (sk', n'))))" by blast+
  with held show ?thesis
    by (auto simp: tcp_holds_def tj_net_def tj_destroy_def tj_connected_def split: prod.splits)
qed

theorem tcp_no_leak_witness: "open_handles (demo_calls (to_json_lines_record demo_event)) = {#3#}"
proof -
  have "tj_write_all demo_kernel [demo_event] (demo_sink, [], [1, - 2]) =
      Some ([Inr ()], demo_sink\<lparr>tj_client := \<lparr>tcp_connected = True, tcp_handle = 3\<rparr>,
        tj_statistics := \<lparr>write_attempts = 1, write_failures = 1, reconnect_attempts = 1\<rparr>\<rparr>,
        demo_calls (to_json_lines_record demo_event), [])"
    by (simp add: demo_write [OF refl])
  from tcp_no_leak [OF demo_kernel_ok(1) demo_sink_new this] show ?thesis by (simp add: tj_connected_def)
qed

text \<open>
  A write returns: if the kernel interrupts only finitely often in a row, a write ends with a result
  whatever else the kernel answers.
\<close>

theorem tcp_write_returns:
  assumes "interrupts_end k \<mu>"
  shows "\<exists>r st'. tj_write k event st = Some (r, st')"
proof -
  have "tj_write k event st \<noteq> None"
    using tcp_retry.loop_ends [OF assms] by (auto simp: tj_write_def split: prod.split)
  then show ?thesis by (cases "tj_write k event st") auto
qed

theorem tcp_write_returns_witness:
  "\<exists>r st'. tj_write demo_kernel demo_event (demo_sink, [], [- 1, 1, - 1, - 2]) = Some (r, st')"
  using tcp_write_returns [OF demo_kernel_ok(2)] by blast

end
