(* ===== verification/Otlp_Http_Sink.thy ===== *)
theory Otlp_Http_Sink
  imports Net_Demo Payloads
begin

text \<open>
  \<^verbatim>\<open>src/sinks/otlp_http_sink.cpp\<close>: each event is one HTTP request on a kept-alive TCP connection. The
  sink writes requests and never reads the responses. As in theory \<open>Tcp_Json_Sink\<close> the definitions
  follow one caller.
\<close>

section \<open>State\<close>

record otlp_http_sink_options =
  ot_host :: bytes
  ot_port :: u16
  ot_path :: bytes
  ot_service_name :: bytes
  ot_lazy_connect :: bool
  ot_reconnect_on_failure :: bool
  ot_max_write_retries :: u32

definition default_otlp_http_sink_options :: otlp_http_sink_options where
  "default_otlp_http_sink_options =
     \<lparr>ot_host = ''127.0.0.1'', ot_port = 4318, ot_path = ''/v1/logs'', ot_service_name = ''unknown_service'',
      ot_lazy_connect = True, ot_reconnect_on_failure = True, ot_max_write_retries = 1\<rparr>"

record otlp_http_sink =
  ot_base :: sink_base
  ot_options :: otlp_http_sink_options
  ot_client :: tcp_client
  ot_statistics :: network_sink_statistics
  ot_last_error_message :: bytes

type_synonym 'o otlp_sink_state = "otlp_http_sink \<times> 'o net"

definition new_otlp_http_sink ::
  "'o kernel \<Rightarrow> otlp_http_sink_options \<Rightarrow> 'o net \<Rightarrow> (cpp_exception + otlp_http_sink) \<times> 'o net" where
  "new_otlp_http_sink k options n =
     (let sink = \<lparr>ot_base = \<lparr>sink_formatter = None, sink_filter = None\<rparr>, ot_options = options,
                  ot_client = new_tcp_client, ot_statistics = no_statistics, ot_last_error_message = []\<rparr>
      in if ot_port options = 0
         then (Inl (Invalid_Argument ''otlp_http_sink port must be greater than zero''), n)
         else if \<not> ot_lazy_connect options
         then (case tcp_connect k (ot_host options) (ot_port options) (new_tcp_client, n) of
                 (Inl e, c, n) \<Rightarrow> (Inl e, n)
               | (Inr u, c, n) \<Rightarrow> (Inr (sink\<lparr>ot_client := c\<rparr>), n))
         else (Inr sink, n))"

section \<open>Writing\<close>

definition ot_ensure_connected :: "'o kernel \<Rightarrow> 'o otlp_sink_state \<Rightarrow> 'o otlp_sink_state outcome" where
  "ot_ensure_connected k st =
     (case st of (sk, n) \<Rightarrow>
        if \<not> tcp_connected (ot_client sk)
        then (case tcp_connect k (ot_host (ot_options sk)) (ot_port (ot_options sk)) (ot_client sk, n) of
                (r, c, n) \<Rightarrow> (r, sk\<lparr>ot_client := c\<rparr>, n))
        else (Inr (), st))"

definition ot_record_failure :: "cpp_exception \<Rightarrow> 'o otlp_sink_state \<Rightarrow> 'o otlp_sink_state" where
  "ot_record_failure e st =
     (case st of (sk, n) \<Rightarrow>
        (sk\<lparr>ot_statistics := count_failure (ot_statistics sk), ot_last_error_message := what e\<rparr>, n))"

definition ot_attempt :: "'o kernel \<Rightarrow> bytes \<Rightarrow> 'o otlp_sink_state \<Rightarrow> 'o otlp_sink_state outcome option" where
  "ot_attempt k http_request st =
     (case ot_ensure_connected k st of
        (Inl e, st) \<Rightarrow> Some (Inl e, ot_record_failure e st)
      | (Inr u, sk, n) \<Rightarrow>
          (case send_all k http_request (ot_client sk, n) of
             None \<Rightarrow> None
           | Some (Inl e, c, n) \<Rightarrow> Some (Inl e, ot_record_failure e (sk\<lparr>ot_client := c\<rparr>, n))
           | Some (Inr u, c, n) \<Rightarrow> Some (Inr (), sk\<lparr>ot_client := c, ot_last_error_message := []\<rparr>, n)))"

definition ot_recover :: "'o kernel \<Rightarrow> u32 \<Rightarrow> 'o otlp_sink_state \<Rightarrow> 'o otlp_sink_state outcome" where
  "ot_recover k backoff_ms st =
     (case st of (sk, n) \<Rightarrow>
        (case tcp_close k (ot_client sk, n) of
           (c, n) \<Rightarrow> (Inr (), sk\<lparr>ot_client := c, ot_statistics := count_reconnect (ot_statistics sk)\<rparr>,
                      sleep_for k backoff_ms n)))"

fun ot_write_loop :: "'o kernel \<Rightarrow> bytes \<Rightarrow> nat \<Rightarrow> u32 \<Rightarrow> 'o otlp_sink_state \<Rightarrow> 'o otlp_sink_state outcome option" where
  "ot_write_loop k http_request retries_remaining backoff_ms st =
     (case ot_attempt k http_request st of
        None \<Rightarrow> None
      | Some (Inr u, st) \<Rightarrow> Some (Inr u, st)
      | Some (Inl e, st) \<Rightarrow>
          (case retries_remaining of
             0 \<Rightarrow> Some (Inl e, st)
           | Suc n \<Rightarrow>
               (case ot_recover k backoff_ms st of
                  (Inl e, st) \<Rightarrow> Some (Inl e, st)
                | (Inr u, st) \<Rightarrow> ot_write_loop k http_request n (next_backoff backoff_ms) st)))"

declare ot_write_loop.simps [simp del]

definition ot_request :: "otlp_http_sink \<Rightarrow> log_event \<Rightarrow> bytes" where
  "ot_request sk event =
     make_http_post (ot_host (ot_options sk)) (ot_path (ot_options sk))
       (case sink_formatter (ot_base sk) of
          Some f \<Rightarrow> f event
        | None \<Rightarrow> make_otlp_json event (ot_service_name (ot_options sk)))"

definition ot_retries :: "otlp_http_sink_options \<Rightarrow> nat" where
  "ot_retries options = (if ot_reconnect_on_failure options then unat (ot_max_write_retries options) else 0)"

definition ot_write :: "'o kernel \<Rightarrow> log_event \<Rightarrow> 'o otlp_sink_state \<Rightarrow> 'o otlp_sink_state outcome option" where
  "ot_write k event st =
     (case st of (sk, n) \<Rightarrow>
        if \<not> should_log (ot_base sk) event then Some (Inr (), st)
        else ot_write_loop k (ot_request sk event) (ot_retries (ot_options sk)) 10
               (sk\<lparr>ot_statistics := count_attempt (ot_statistics sk)\<rparr>, n))"

definition ot_flush :: "'o otlp_sink_state \<Rightarrow> 'o otlp_sink_state" where
  "ot_flush st = st"

definition ot_get_statistics :: "otlp_http_sink \<Rightarrow> network_sink_statistics" where
  "ot_get_statistics sk = ot_statistics sk"

definition ot_get_last_error_message :: "otlp_http_sink \<Rightarrow> bytes" where
  "ot_get_last_error_message sk = ot_last_error_message sk"

definition ot_write_failures :: "otlp_http_sink \<Rightarrow> u64" where
  "ot_write_failures sk = write_failures (ot_statistics sk)"

definition ot_connected :: "otlp_http_sink \<Rightarrow> bool" where
  "ot_connected sk = tcp_connected (ot_client sk)"

section \<open>The loop meets the contract\<close>

lemma ot_attempt_deliver:
  "ot_attempt k payload (sk, n) =
     (case deliver k (ot_host (ot_options sk)) (ot_port (ot_options sk)) payload (ot_client sk, n) of
        None \<Rightarrow> None
      | Some (Inl e, c, n) \<Rightarrow> Some (Inl e, ot_record_failure e (sk\<lparr>ot_client := c\<rparr>, n))
      | Some (Inr u, c, n) \<Rightarrow> Some (Inr (), sk\<lparr>ot_client := c, ot_last_error_message := []\<rparr>, n))"
  by (auto simp: ot_attempt_def ot_ensure_connected_def deliver_def split: option.split sum.split prod.split)

definition ot_net :: "'o otlp_sink_state \<Rightarrow> tcp_client \<times> 'o net" where
  "ot_net st = (ot_client (fst st), snd st)"

lemma ot_attempt_cases:
  assumes "ot_attempt k payload x = Some (r, x')"
  shows "(\<exists>host port. deliver k host port payload (ot_net x) = Some (r, ot_net x')) \<and>
    (ot_base (fst x'), ot_options (fst x')) = (ot_base (fst x), ot_options (fst x)) \<and>
    ot_statistics (fst x') = (if r = Inr () then ot_statistics (fst x) else count_failure (ot_statistics (fst x)))"
proof -
  obtain sk n where x: "x = (sk, n)" by (cases x)
  show ?thesis
    using assms unfolding x ot_attempt_deliver
    by (auto simp: ot_record_failure_def ot_net_def split: option.splits sum.splits) blast+
qed

interpretation otlp_retry: tcp_write_retry "ot_attempt k payload" "ot_recover k" "ot_write_loop k payload"
  "\<lambda>st. ot_statistics (fst st)" k payload ot_net "\<lambda>st. (ot_base (fst st), ot_options (fst st))" for k payload
proof (unfold_locales, goal_cases)
  case (1 n backoff x)
  show ?case by (rule ot_write_loop.simps)
next
  case (2 x r x')
  from ot_attempt_cases [OF this] show ?case by simp
next
  case (3 backoff x)
  show ?case by (auto simp: ot_recover_def split: prod.splits)
next
  case (4 x r x')
  from ot_attempt_cases [OF this] show ?case by blast
next
  case (5 x)
  then show ?case
    by (cases x) (auto simp: ot_attempt_deliver ot_net_def simp del: not_None_eq split: option.splits sum.splits prod.splits)
next
  case (6 b x)
  show ?case by (auto simp: ot_recover_def ot_net_def split: prod.splits)
next
  case (7 b x)
  show ?case by (auto simp: ot_recover_def split: prod.splits)
qed

section \<open>A sink in use\<close>

fun ot_write_all ::
  "'o kernel \<Rightarrow> log_event list \<Rightarrow> 'o otlp_sink_state \<Rightarrow> ((cpp_exception + unit) list \<times> 'o otlp_sink_state) option"
where
  "ot_write_all k [] st = Some ([], st)"
| "ot_write_all k (event # events) st =
     (case ot_write k event st of
        None \<Rightarrow> None
      | Some (r, st) \<Rightarrow>
          (case ot_write_all k events st of None \<Rightarrow> None | Some (rs, st) \<Rightarrow> Some (r # rs, st)))"

abbreviation is_post :: "bytes \<Rightarrow> bytes \<Rightarrow> bytes \<Rightarrow> bool" where
  "is_post host path p \<equiv> \<exists>body. p = make_http_post host path body"

definition event_request :: "otlp_http_sink_options \<Rightarrow> log_event \<Rightarrow> bytes" where
  "event_request options event =
     make_http_post (ot_host options) (ot_path options) (make_otlp_json event (ot_service_name options))"

definition ot_configured :: "otlp_http_sink_options \<Rightarrow> 'o otlp_sink_state \<Rightarrow> bool" where
  "ot_configured options st \<longleftrightarrow> ot_base (fst st) = plain_base \<and> ot_options (fst st) = options"

lemma ot_write_carries:
  assumes "posix_kernel k" "carries (is_post (ot_host options) (ot_path options)) (ot_net st) d"
    "ot_configured options st" "ot_write k event st = Some (r, st')"
  shows "carries (is_post (ot_host options) (ot_path options)) (ot_net st')
      (d @ (if r = Inr () then [event_request options event] else [])) \<and> ot_configured options st'"
proof -
  let ?st = "((fst st)\<lparr>ot_statistics := count_attempt (ot_statistics (fst st))\<rparr>, snd st)"
  let ?P = "is_post (ot_host options) (ot_path options)"
  have loop: "ot_write_loop k (event_request options event) (ot_retries options) 10 ?st = Some (r, st')"
    using assms(3,4) by (auto simp: ot_write_def ot_request_def ot_configured_def should_log_def plain_base_def
        event_request_def split: prod.splits)
  have "carries ?P (ot_net ?st) d" using assms(2) by (simp add: ot_net_def)
  moreover have "?P (event_request options event)" unfolding event_request_def by blast
  ultimately show ?thesis
    using otlp_retry.loop_carries [of k ?P, OF assms(1) _ _ loop] assms(3) by (simp add: ot_configured_def)
qed

lemma ot_write_all_carries:
  assumes "posix_kernel k"
  shows "carries (is_post (ot_host options) (ot_path options)) (ot_net st) d \<Longrightarrow> ot_configured options st \<Longrightarrow>
    ot_write_all k events st = Some (rs, st') \<Longrightarrow>
    carries (is_post (ot_host options) (ot_path options)) (ot_net st')
      (d @ map (event_request options) (accepted_events events rs))"
proof (induction events arbitrary: st d rs)
  case Nil
  then show ?case by (simp add: accepted_events_def)
next
  case (Cons event events)
  from Cons.prems(3) obtain r st1 qs where step: "ot_write k event st = Some (r, st1)"
    "ot_write_all k events st1 = Some (qs, st')" "rs = r # qs"
    by (auto split: option.splits)
  note one = ot_write_carries [OF assms Cons.prems(1,2) step(1)]
  from Cons.IH [OF _ _ step(2)] one step(3) show ?case
    by (cases "r = Inr ()") (force simp: accepted_events_def)+
qed

lemma new_otlp_sink_carries:
  assumes "new_otlp_http_sink k options ([], s) = (Inr sk, n)"
  shows "carries P (ot_net (sk, n)) [] \<and> ot_configured options (sk, n)"
proof (cases "ot_lazy_connect options")
  case True
  with assms show ?thesis
    by (auto simp: new_otlp_http_sink_def ot_net_def carries_def plain_base_def new_tcp_client_def Let_def
        ot_configured_def split: if_splits)
next
  case False
  obtain r c m where con: "tcp_connect k (ot_host options) (ot_port options) (new_tcp_client, [], s) = (r, c, m)"
    by (metis surj_pair)
  have "carries P (new_tcp_client, [], s) []" by (simp add: carries_def new_tcp_client_def)
  from carries_connect [OF this con] assms False con show ?thesis
    by (auto simp: new_otlp_http_sink_def ot_net_def plain_base_def Let_def ot_configured_def
        split: if_splits sum.splits)
qed

text \<open>What a server makes of the bytes of one connection: the bodies of its requests.\<close>

definition served_bodies :: "bytes \<Rightarrow> bytes list" where
  "served_bodies s = map request_body (read_requests (length s) s)"

lemma served_segment:
  assumes "carriage_return \<notin> set host" "carriage_return \<notin> set path"
    "set ps \<subseteq> range (make_http_post host path)" "q = [] \<or> (\<exists>p. is_post host path p \<and> strict_prefix q p)"
  shows "served_bodies (concat ps @ q) = map (\<lambda>p. request_body (fst (the (read_request p)))) ps"
proof -
  obtain bodies where ps: "ps = map (make_http_post host path) bodies"
    using assms(3) by (metis ex_map_conv image_iff subsetD)
  have torn: "read_request q = None"
    using assms(4) torn_request [OF assms(1,2)] by (auto simp: read_request_def)
  have "length bodies \<le> length (concat ps)"
    unfolding ps by (induction bodies) (simp_all add: make_http_post_def)
  then have "length bodies \<le> length (concat ps @ q)" by simp
  from read_requests_torn [OF assms(1,2) torn this]
  have "served_bodies (concat ps @ q) = map request_body (map (post_request host path) bodies)"
    by (simp add: served_bodies_def ps)
  moreover have "request_body (fst (the (read_request (make_http_post host path b)))) = b" for b
    using read_http_post [OF assms(1,2), of b "[]"] by (simp add: post_request_def)
  ultimately show ?thesis by (simp add: ps post_request_def comp_def)
qed

lemma carried_bodies:
  assumes "carries (is_post (ot_host options) (ot_path options)) (c, calls, s) (map (event_request options) events)"
    "carriage_return \<notin> set (ot_host options)" "carriage_return \<notin> set (ot_path options)"
  shows "concat (map served_bodies (streams calls)) =
    map (\<lambda>e. make_otlp_json e (ot_service_name options)) events"
proof -
  let ?post = "make_http_post (ot_host options) (ot_path options)"
  let ?bodies = "map (\<lambda>e. make_otlp_json e (ot_service_name options)) events"
  have "carries (is_post (ot_host options) (ot_path options)) (c, calls, s) (map ?post ?bodies)"
    using assms(1) by (simp add: event_request_def [abs_def] comp_def)
  then have "concat (map served_bodies (streams calls)) =
      map (\<lambda>b. request_body (fst (the (read_request (?post b))))) ?bodies"
    by (rule carried_messages) (rule served_segment [OF assms(2,3)])
  moreover have "request_body (fst (the (read_request (?post b)))) = b" for b
    using read_http_post [OF assms(2,3), of b "[]"] by (simp add: post_request_def)
  ultimately show ?thesis by simp
qed

section \<open>Properties\<close>

text \<open>
  Exactly once over HTTP: a server that reads the connections of the sink by their Content-Length
  finds the OTLP documents of exactly the events whose write returned normally, in order, each once,
  whatever the kernel did to the connections; a request torn by a break is never taken for one. Host
  and path must not hold a carriage return.
\<close>

theorem otlp_requests_exactly_once:
  assumes "posix_kernel k" "new_otlp_http_sink k options ([], s) = (Inr sk, n)"
    "ot_write_all k events (sk, n) = Some (rs, sk', calls, s')"
    "carriage_return \<notin> set (ot_host options)" "carriage_return \<notin> set (ot_path options)"
  shows "concat (map served_bodies (streams calls)) =
    map (\<lambda>e. make_otlp_json e (ot_service_name options)) (accepted_events events rs)"
proof -
  note start = new_otlp_sink_carries [OF assms(2), of "is_post (ot_host options) (ot_path options)"]
  have "carries (is_post (ot_host options) (ot_path options)) (ot_net (sk', calls, s'))
      ([] @ map (event_request options) (accepted_events events rs))"
    by (rule ot_write_all_carries [OF assms(1) _ _ assms(3)]) (use start in simp_all)
  then have "carries (is_post (ot_host options) (ot_path options)) (ot_client sk', calls, s')
      (map (event_request options) (accepted_events events rs))"
    by (simp add: ot_net_def)
  from carried_bodies [OF this assms(4,5)] show ?thesis .
qed

definition demo_otlp_sink :: otlp_http_sink where
  "demo_otlp_sink = \<lparr>ot_base = plain_base, ot_options = default_otlp_http_sink_options,
     ot_client = new_tcp_client, ot_statistics = no_statistics, ot_last_error_message = []\<rparr>"

lemma demo_otlp_write:
  assumes "p = event_request default_otlp_http_sink_options event"
  shows "\<exists>sk. ot_write demo_kernel event (demo_otlp_sink, [], []) =
    Some (Inr (), sk, dialled ''127.0.0.1'' 4318 @ [Send 3 p (int (length p))], [])"
proof -
  have "0 < length p" by (simp add: assms event_request_def make_http_post_def)
  note sent = demo_deliver(1) [OF this, of "''127.0.0.1''" 4318 "[]"]
  let ?a = "demo_otlp_sink\<lparr>ot_statistics := count_attempt no_statistics\<rparr>"
  have "ot_host default_otlp_http_sink_options = ''127.0.0.1''" "ot_port default_otlp_http_sink_options = 4318"
    by (simp_all add: default_otlp_http_sink_options_def)
  with sent have att: "ot_attempt demo_kernel p (?a, [], []) = Some (Inr (),
      ?a\<lparr>ot_client := \<lparr>tcp_connected = True, tcp_handle = 3\<rparr>, ot_last_error_message := []\<rparr>,
      dialled ''127.0.0.1'' 4318 @ [Send 3 p (int (length p))], [])"
    by (simp add: ot_attempt_deliver demo_otlp_sink_def)
  have "ot_request demo_otlp_sink event = p"
    by (simp add: ot_request_def demo_otlp_sink_def plain_base_def assms event_request_def)
  then have "ot_write demo_kernel event (demo_otlp_sink, [], []) =
      ot_write_loop demo_kernel p (ot_retries (ot_options demo_otlp_sink)) 10 (?a, [], [])"
    by (simp add: ot_write_def should_log_def demo_otlp_sink_def plain_base_def)
  then show ?thesis unfolding ot_write_loop.simps [of demo_kernel p _ 10 "(?a, [], [])"] att by simp
qed

lemma demo_otlp_new:
  "new_otlp_http_sink demo_kernel default_otlp_http_sink_options ([], []) = (Inr demo_otlp_sink, [], [])"
  by (simp add: new_otlp_http_sink_def default_otlp_http_sink_options_def demo_otlp_sink_def plain_base_def Let_def)

theorem otlp_requests_exactly_once_witness:
  "served_bodies (event_request default_otlp_http_sink_options demo_event) = [make_otlp_json demo_event ''unknown_service'']"
proof -
  let ?p = "event_request default_otlp_http_sink_options demo_event"
  obtain sk where "ot_write demo_kernel demo_event (demo_otlp_sink, [], []) =
      Some (Inr (), sk, dialled ''127.0.0.1'' 4318 @ [Send 3 ?p (int (length ?p))], [])"
    using demo_otlp_write [OF refl] by blast
  then have run: "ot_write_all demo_kernel [demo_event] (demo_otlp_sink, [], []) =
      Some ([Inr ()], sk, dialled ''127.0.0.1'' 4318 @ [Send 3 ?p (int (length ?p))], [])" by simp
  show ?thesis
    using otlp_requests_exactly_once [OF demo_kernel_ok(1) demo_otlp_new run]
    by (simp add: default_otlp_http_sink_options_def dialled_def accepted_events_def streams_def)
qed

end
