(* ===== verification/Tcp_Writers.thy ===== *)
theory Tcp_Writers
  imports Net_Writers Tcp_Json_Sink Otlp_Http_Sink
begin

text \<open>
  Threads sharing a TCP sink: \<^verbatim>\<open>tcp_json_lines_sink::write\<close> and \<^verbatim>\<open>otlp_http_sink::write\<close> as the steps
  of theory \<open>Net_Writers\<close>, with the parts of the sequential models.
\<close>

section \<open>The two sinks\<close>

text \<open>What a write does between a failure with a retry left and giving up the mutex.\<close>

definition tj_close :: "'o kernel \<Rightarrow> 'o tcp_sink_state \<Rightarrow> 'o tcp_sink_state" where
  "tj_close k st =
     (case st of (sk, n) \<Rightarrow>
        (case tcp_close k (tj_client sk, n) of
           (c, n) \<Rightarrow> (sk\<lparr>tj_client := c, tj_statistics := count_reconnect (tj_statistics sk)\<rparr>, n)))"

definition ot_close :: "'o kernel \<Rightarrow> 'o otlp_sink_state \<Rightarrow> 'o otlp_sink_state" where
  "ot_close k st =
     (case st of (sk, n) \<Rightarrow>
        (case tcp_close k (ot_client sk, n) of
           (c, n) \<Rightarrow> (sk\<lparr>ot_client := c, ot_statistics := count_reconnect (ot_statistics sk)\<rparr>, n)))"

definition tj_ops :: "'o kernel \<Rightarrow> ('o tcp_sink_state, log_event, bytes) write_ops" where
  "tj_ops k =
     \<lparr>wo_accepts = (\<lambda>st e. should_log (tj_base (fst st)) e),
      wo_payload = (\<lambda>e st. Some (tj_payload (fst st) e, st)),
      wo_retries = (\<lambda>st. tj_retries (tj_options (fst st))),
      wo_begin = (\<lambda>(sk, n). (sk\<lparr>tj_statistics := count_attempt (tj_statistics sk)\<rparr>, n)),
      wo_attempt = tj_attempt k,
      wo_close = tj_close k,
      wo_sleep = (\<lambda>backoff_ms (sk, n). (sk, sleep_for k backoff_ms n)),
      wo_reopen = (\<lambda>st. (Inr (), st))\<rparr>"

definition ot_ops :: "'o kernel \<Rightarrow> ('o otlp_sink_state, log_event, bytes) write_ops" where
  "ot_ops k =
     \<lparr>wo_accepts = (\<lambda>st e. should_log (ot_base (fst st)) e),
      wo_payload = (\<lambda>e st. Some (ot_request (fst st) e, st)),
      wo_retries = (\<lambda>st. ot_retries (ot_options (fst st))),
      wo_begin = (\<lambda>(sk, n). (sk\<lparr>ot_statistics := count_attempt (ot_statistics sk)\<rparr>, n)),
      wo_attempt = ot_attempt k,
      wo_close = ot_close k,
      wo_sleep = (\<lambda>backoff_ms (sk, n). (sk, sleep_for k backoff_ms n)),
      wo_reopen = (\<lambda>st. (Inr (), st))\<rparr>"

lemmas ops_defs = tj_ops_def ot_ops_def tj_close_def ot_close_def tj_net_def ot_net_def

section \<open>The contracts\<close>

text \<open>On a kernel that keeps its promises, a sink has delivered \<open>es\<close> and owns what it should.\<close>

definition tj_delivered :: "'o kernel \<Rightarrow> 'o tcp_sink_state \<Rightarrow> log_event list \<Rightarrow> bool" where
  "tj_delivered k st es \<longleftrightarrow> tj_base (fst st) = plain_base \<and>
     (posix_kernel k \<longrightarrow> carries is_record (tj_net st) (map to_json_lines_record es) \<and>
        tcp_holds (tj_net st) {#} 0)"

definition ot_delivered ::
  "'o kernel \<Rightarrow> otlp_http_sink_options \<Rightarrow> 'o otlp_sink_state \<Rightarrow> log_event list \<Rightarrow> bool" where
  "ot_delivered k options st es \<longleftrightarrow> ot_configured options st \<and>
     (posix_kernel k \<longrightarrow>
        carries (is_post (ot_host options) (ot_path options)) (ot_net st) (map (event_request options) es))"

interpretation tcp_shared: shared_writers "tj_ops k" "\<lambda>st ds. tj_delivered k st (map fst ds)"
  "\<lambda>st e p. p = to_json_lines_record e" for k :: "'o kernel"
proof (unfold_locales, goal_cases)
  case (1 x ds e p x')
  then show ?case
    by (auto simp: tj_ops_def tj_payload_def tj_delivered_def plain_base_def make_tcp_json_lines_payload_def)
next
  case (2 x ds)
  then show ?case by (auto simp: tj_ops_def tj_delivered_def tj_net_def split: prod.splits)
next
  case (3 x ds e p r x')
  then have att: "tj_attempt k p x = Some (r, x')" by (simp add: tj_ops_def)
  from tcp_retry.attempt_delivers [OF att] obtain host port where
    d: "deliver k host port p (tj_net x) = Some (r, tj_net x')"
    "tj_base (fst x') = tj_base (fst x)" by auto
  have "is_record p" using 3(2) by blast
  with deliver_carries [of is_record, OF _ _ _ d(1)] deliver_holds [OF _ _ d(1)] d(2) 3(1,2) show ?case
    by (auto simp: tj_delivered_def split: if_splits)
next
  case (4 x ds)
  then show ?case
    using carries_disconnect [of is_record "tj_net x" _ k] tcp_close_holds [of "tj_net x" "{#}" 0 k]
    by (auto simp: tj_delivered_def ops_defs split: prod.splits)
next
  case (5 x ds b)
  then show ?case
    by (auto simp: tj_delivered_def ops_defs carries_sleep holds_sleep split: prod.splits)
next
  case (6 x ds)
  then show ?case by (simp add: tj_ops_def)
qed

interpretation otlp_shared: shared_writers "ot_ops k" "\<lambda>st ds. ot_delivered k options st (map fst ds)"
  "\<lambda>st e p. p = event_request options e" for k :: "'o kernel" and options
proof (unfold_locales, goal_cases)
  case (1 x ds e p x')
  then show ?case
    by (auto simp: ot_ops_def ot_request_def ot_delivered_def ot_configured_def plain_base_def event_request_def)
next
  case (2 x ds)
  then show ?case by (auto simp: ot_ops_def ot_delivered_def ot_configured_def ot_net_def split: prod.splits)
next
  case (3 x ds e p r x')
  then have att: "ot_attempt k p x = Some (r, x')" by (simp add: ot_ops_def)
  from otlp_retry.attempt_delivers [OF att] obtain host port where
    d: "deliver k host port p (ot_net x) = Some (r, ot_net x')"
    "ot_base (fst x') = ot_base (fst x)" "ot_options (fst x') = ot_options (fst x)" by auto
  have "is_post (ot_host options) (ot_path options) p"
    unfolding 3(2) event_request_def by blast
  with deliver_carries [of "is_post (ot_host options) (ot_path options)", OF _ _ _ d(1)] d(2,3) 3(1,2) show ?case
    by (auto simp: ot_delivered_def ot_configured_def split: if_splits)
next
  case (4 x ds)
  then show ?case
    using carries_disconnect [of "is_post (ot_host options) (ot_path options)" "ot_net x" _ k]
    by (auto simp: ot_delivered_def ot_configured_def ops_defs split: prod.splits)
next
  case (5 x ds b)
  then show ?case
    by (auto simp: ot_delivered_def ot_configured_def ops_defs carries_sleep split: prod.splits)
next
  case (6 x ds)
  then show ?case by (simp add: ot_ops_def)
qed

interpretation tcp_counted: counted_writers "tj_ops k" "\<lambda>st. tj_statistics (fst st)" for k :: "'o kernel"
  by unfold_locales
    (auto simp: ops_defs dest!: tcp_retry.attempt_counts [simplified] split: prod.splits)

interpretation otlp_counted: counted_writers "ot_ops k" "\<lambda>st. ot_statistics (fst st)" for k :: "'o kernel"
  by unfold_locales
    (auto simp: ops_defs dest!: otlp_retry.attempt_counts [simplified] split: prod.splits)

interpretation tcp_solo: solo_writer "tj_attempt k p" "tj_recover k" "tj_write_loop k p"
  "\<lambda>st. tj_statistics (fst st)" "tj_ops k" p for k :: "'o kernel" and p
  by unfold_locales (auto simp: ops_defs tj_recover_def split: prod.splits)

interpretation otlp_solo: solo_writer "ot_attempt k p" "ot_recover k" "ot_write_loop k p"
  "\<lambda>st. ot_statistics (fst st)" "ot_ops k" p for k :: "'o kernel" and p
  by unfold_locales (auto simp: ops_defs ot_recover_def split: prod.splits)

lemma step_others: "writer_step ops u s s' \<Longrightarrow> u \<noteq> t \<Longrightarrow> ws_pc s' t = ws_pc s t"
  by (erule writer_step.cases) (auto elim!: write_sectionE next_sectionE)

lemma tj_section_options:
  "write_section (tj_ops k) t e p n b s = Some s' \<Longrightarrow> tj_options (fst (ws_sink s')) = tj_options (fst (ws_sink s))"
proof (erule write_sectionE)
  fix r x
  assume "wo_attempt (tj_ops k) p (ws_sink s) = Some (r, x)" "s' = writer_return t e p r (s\<lparr>ws_sink := x\<rparr>)"
  then show ?thesis using tcp_retry.attempt_delivers [of k p "ws_sink s" r x] by (simp add: tj_ops_def)
next
  fix ex x m
  assume "wo_attempt (tj_ops k) p (ws_sink s) = Some (Inl ex, x)"
    "s' = writer_goto t (Wr_sleep e p m b) (s\<lparr>ws_sink := wo_close (tj_ops k) x\<rparr>)"
  then show ?thesis using tcp_retry.attempt_delivers [of k p "ws_sink s" "Inl ex" x]
    by (auto simp: tj_ops_def tj_close_def split: prod.splits)
qed

lemma tj_next_section [simp]: "next_section (tj_ops k) t e p n b s = write_section (tj_ops k) t e p n b s"
  by (simp add: next_section_def tj_ops_def)

lemma tj_payload_same: "wo_payload (tj_ops k) e x = Some (p, x') \<Longrightarrow> x' = x"
  by (simp add: tj_ops_def)

lemma tj_parts_options:
  "tj_options (fst (wo_begin (tj_ops k) x)) = tj_options (fst x)"
  "tj_options (fst (wo_sleep (tj_ops k) b x)) = tj_options (fst x)"
  by (simp_all add: tj_ops_def split: prod.split)

lemma tj_step_options:
  "writer_step (tj_ops k) t s s' \<Longrightarrow> tj_options (fst (ws_sink s')) = tj_options (fst (ws_sink s))"
  by (erule writer_step.cases)
    (auto dest!: tj_section_options tj_payload_same simp: tj_parts_options)

section \<open>Two writers over a breaking connection\<close>

text \<open>
  The first writer sends one byte before the connection breaks and goes to sleep; the second
  connects again and writes its record; the first wakes up and writes its own.
\<close>

definition second_event :: log_event where
  "second_event = demo_event\<lparr>message := ''second''\<rparr>"

definition shared_calls :: "bytes \<Rightarrow> bytes \<Rightarrow> os_call list" where
  "shared_calls p q = dialled ''127.0.0.1'' 5000 @ [Send 3 p 1, Send 3 (drop 1 p) (- 1), Close 3] @
     dialled ''127.0.0.1'' 5000 @ [Send 3 q (int (length q)), Sleep 10, Send 3 p (int (length p))]"

lemma demo_selectors:
  "tj_base demo_sink = plain_base" "tj_options demo_sink = demo_options"
  "tj_client demo_sink = new_tcp_client" "tj_statistics demo_sink = no_statistics"
  "tj_host demo_options = ''127.0.0.1''" "tj_port demo_options = 5000" "tj_retries demo_options = Suc 1"
  by (simp_all add: demo_sink_def demo_options_def default_tcp_json_lines_sink_options_def tj_retries_def)

lemma tj_called:
  assumes "ws_pc s t = Wr_idle" "tj_base (fst (ws_sink s)) = plain_base"
  shows "writer_step (tj_ops k) t s (writer_goto t (Wr_first e (to_json_lines_record e)) s)"
proof -
  have "wo_payload (tj_ops k) e (ws_sink s) = Some (to_json_lines_record e, ws_sink s)"
    "wo_accepts (tj_ops k) (ws_sink s) e"
    using assms(2)
    by (simp_all add: tj_ops_def tj_payload_def plain_base_def make_tcp_json_lines_payload_def should_log_def)
  from wr_call [OF assms(1) this(2,1)] show ?thesis by simp
qed

lemma shared_run:
  assumes "p = to_json_lines_record demo_event" "q = to_json_lines_record second_event"
  shows "\<exists>s sk. writers_history (tj_ops demo_kernel) (demo_sink, [], [1, - 2]) [Began, Retried, Began, Wrote, Wrote] s \<and>
    ws_sink s = (sk, shared_calls p q, []) \<and>
    ws_returned s = [(second_event, q, Inr ()), (demo_event, p, Inr ())] \<and> ws_pc s = (\<lambda>t. Wr_idle)"
proof -
  let ?ops = "tj_ops demo_kernel" and ?k = demo_kernel
  have "2 \<le> length p" unfolding assms record_lines to_json_event_def Let_def by simp
  then have len: "2 \<le> length p" "0 < length p" by linarith+
  have lenq: "0 < length q" unfolding assms record_lines by simp
  let ?up = "\<lparr>tcp_connected = True, tcp_handle = 3\<rparr>"
  let ?c1 = "dialled ''127.0.0.1'' 5000 @ [Send 3 p 1, Send 3 (drop 1 p) (- 1), Close 3]"
  let ?c2 = "?c1 @ dialled ''127.0.0.1'' 5000 @ [Send 3 q (int (length q))]"
  let ?st = "\<lambda>a f c. \<lparr>write_attempts = a, write_failures = f, reconnect_attempts = c\<rparr> :: network_sink_statistics"
  let ?x1 = "(demo_sink\<lparr>tj_statistics := ?st 1 1 1, tj_last_error_message := ''tcp send failed''\<rparr>, ?c1, [] :: int list)"
  let ?x2 = "(demo_sink\<lparr>tj_client := ?up, tj_statistics := ?st 2 1 1\<rparr>, ?c2, [] :: int list)"
  let ?x3 = "(demo_sink\<lparr>tj_client := ?up, tj_statistics := ?st 2 1 1\<rparr>, ?c2 @ [Sleep 10], [] :: int list)"
  let ?x4 = "(demo_sink\<lparr>tj_client := ?up, tj_statistics := ?st 2 1 1\<rparr>, shared_calls p q, [] :: int list)"
  let ?s0 = "writers_init (demo_sink, [], [1, - 2])"
  let ?s1 = "writer_goto 0 (Wr_first demo_event p) ?s0"
  let ?s2 = "writer_goto 0 (Wr_sleep demo_event p 1 10) (?s1\<lparr>ws_sink := ?x1\<rparr>)"
  let ?s3 = "writer_goto 1 (Wr_first second_event q) ?s2"
  let ?s4 = "writer_return 1 second_event q (Inr ()) (?s3\<lparr>ws_sink := ?x2\<rparr>)"
  let ?s5 = "writer_goto 0 (Wr_next demo_event p 1 (next_backoff 10)) (?s4\<lparr>ws_sink := ?x3\<rparr>)"
  let ?s6 = "writer_return 0 demo_event p (Inr ()) (?s5\<lparr>ws_sink := ?x4\<rparr>)"
  have att1: "tj_attempt ?k p (demo_sink\<lparr>tj_statistics := ?st 1 0 0\<rparr>, [], [1, - 2]) =
      Some (Inl (Runtime_Error ''tcp send failed''), demo_sink\<lparr>tj_statistics := ?st 1 1 0,
        tj_last_error_message := ''tcp send failed''\<rparr>, ?c1, [])"
    using demo_deliver(2) [OF len(1), of "''127.0.0.1''" 5000 "[]"]
    by (simp add: tj_attempt_deliver demo_selectors tj_record_failure_def with_client_def counting)
  have att2: "tj_attempt ?k q (demo_sink\<lparr>tj_statistics := ?st 2 1 1, tj_last_error_message := ''tcp send failed''\<rparr>,
      ?c1, []) = Some (Inr (), ?x2)"
    using demo_deliver(1) [OF lenq, of "''127.0.0.1''" 5000 ?c1]
    by (simp add: tj_attempt_deliver demo_selectors with_client_def) (simp add: demo_sink_def)
  have att3: "tj_attempt ?k p ?x3 = Some (Inr (), ?x4)"
    using demo_send(1) [OF len(2), of ?up "?c2 @ [Sleep 10]"]
    by (simp add: tj_attempt_deliver demo_selectors deliver_def send_all_def demo_flags with_client_def
        shared_calls_def) (simp add: demo_sink_def)
  have step1: "writer_step ?ops 0 ?s0 ?s1"
    unfolding assms(1) by (intro tj_called) (simp_all add: writers_init_def demo_selectors)
  have step2: "writer_step ?ops 0 ?s1 ?s2"
  proof -
    let ?y = "(demo_sink\<lparr>tj_statistics := ?st 1 1 0, tj_last_error_message := ''tcp send failed''\<rparr>, ?c1, [] :: int list)"
    have "wo_attempt ?ops p (wo_begin ?ops (ws_sink ?s1)) = Some (Inl (Runtime_Error ''tcp send failed''), ?y)"
      using att1 by (simp add: writers_init_def tj_ops_def demo_selectors counting no_statistics_def)
    moreover have "wo_retries ?ops (ws_sink ?s1) = Suc 1" "ws_pc ?s1 0 = Wr_first demo_event p"
      by (simp_all add: writers_init_def tj_ops_def demo_selectors)
    moreover have "wo_close ?ops ?y = ?x1"
      by (simp add: tj_ops_def tj_close_def tcp_close_def demo_flags demo_selectors counting demo_sink_def)
    ultimately show ?thesis using first_sleeps by metis
  qed
  have step3: "writer_step ?ops 1 ?s2 ?s3"
    unfolding assms(2) by (intro tj_called) (simp_all add: writers_init_def demo_selectors)
  have step4: "writer_step ?ops 1 ?s3 ?s4"
  proof -
    have "wo_attempt ?ops q (wo_begin ?ops (ws_sink ?s3)) = Some (Inr (), ?x2)"
      using att2 by (simp add: tj_ops_def counting demo_sink_def)
    from first_returns [of ?s3 1 second_event q ?ops, OF _ this] show ?thesis by simp
  qed
  have step5: "writer_step ?ops 0 ?s4 ?s5"
    using wr_sleep [of ?s4 0 demo_event p 1 10 ?ops]
    by (simp add: writers_init_def tj_ops_def sleep_for_def logged_def demo_kernel_def)
  have step6: "writer_step ?ops 0 ?s5 ?s6"
  proof -
    have "wo_attempt ?ops p (ws_sink ?s5) = Some (Inr (), ?x4)"
      using att3 by (simp add: tj_ops_def demo_sink_def)
    moreover have "wo_reopen ?ops (ws_sink ?s5) = (Inr (), ws_sink ?s5)" by (simp add: tj_ops_def)
    ultimately show ?thesis using next_returns [of ?s5 0 demo_event p 1 "next_backoff 10" ?ops] by simp
  qed
  have marks: "step_marks 0 ?s0 ?s1 = []" "step_marks 0 ?s1 ?s2 = [Began, Retried]" "step_marks 1 ?s2 ?s3 = []"
    "step_marks 1 ?s3 ?s4 = [Began, Wrote]" "step_marks 0 ?s4 ?s5 = []" "step_marks 0 ?s5 ?s6 = [Wrote]"
    by (simp_all add: step_marks_def section_mark_def writers_init_def)
  note go = history_next [where ops = ?ops]
  have "writers_history ?ops (demo_sink, [], [1, - 2]) [Began, Retried, Began, Wrote, Wrote] ?s6"
    using go [OF go [OF go [OF go [OF go [OF go [OF history_start step1] step2] step3] step4] step5] step6]
    by (simp only: marks append.simps)
  then show ?thesis
    by (intro exI [of _ ?s6] exI) (auto simp: writers_init_def)
qed

section \<open>Properties\<close>

text \<open>
  C8. Any number of threads writing through one TCP sink: whatever the kernel does and however their
  attempts and pauses interleave, the complete lines received are the records of exactly the events
  whose write returned normally, each once, in the order in which the writes returned; records of
  different threads never mix. The sink holds the one socket it is connected by.
\<close>

theorem tcp_writers_exactly_once:
  assumes "posix_kernel k" "new_tcp_json_lines_sink k options ([], s0) = (Inr sk, n)"
    "writers_reach (tj_ops k) (sk, n) s" "ws_sink s = (sk', calls, s')"
  shows "concat (map (complete_lines []) (streams calls)) = map to_json_event (returned_events s) \<and>
    open_handles calls = (if tj_connected sk' then {#tcp_handle (tj_client sk')#} else {#})"
proof -
  have "tj_delivered k (sk, n) []"
    using new_sink_carries [OF assms(2)] new_sink_holds [OF assms(2,1)] by (simp add: tj_delivered_def)
  with tcp_shared.reach_delivers [OF assms(3)] have "tj_delivered k (sk', calls, s') (returned_events s)"
    using assms(4) by (simp add: returned_events_def)
  with assms(1) show ?thesis
    using carried_lines [of "tj_client sk'" calls s' "returned_events s"]
    by (simp add: tj_delivered_def tj_net_def tcp_holds_def tj_connected_def)
qed

theorem tcp_writers_exactly_once_witness:
  "streams (shared_calls (to_json_lines_record demo_event) (to_json_lines_record second_event)) =
     [take 1 (to_json_lines_record demo_event),
      to_json_lines_record second_event @ to_json_lines_record demo_event] \<and>
   concat (map (complete_lines []) (streams (shared_calls (to_json_lines_record demo_event)
     (to_json_lines_record second_event)))) = [to_json_event second_event, to_json_event demo_event]"
proof -
  let ?p = "to_json_lines_record demo_event" and ?q = "to_json_lines_record second_event"
  obtain s sk where ran: "writers_history (tj_ops demo_kernel) (demo_sink, [], [1, - 2]) [Began, Retried, Began, Wrote, Wrote] s"
    "ws_sink s = (sk, shared_calls ?p ?q, [])"
    "ws_returned s = [(second_event, ?q, Inr ()), (demo_event, ?p, Inr ())]"
    using shared_run [OF refl refl] by blast
  note run = history_reach [OF ran(1)] ran(2,3)
  have "streams (shared_calls ?p ?q) = [take 1 ?p, ?q @ ?p]"
    by (simp add: shared_calls_def dialled_def streams_def)
  with tcp_writers_exactly_once [OF demo_kernel_ok(1) demo_sink_new run(1,2)] show ?thesis
    by (simp add: returned_events_def completed_def run(3))
qed

text \<open>
  C18. The same over HTTP: a server that reads the connections by their Content-Length finds the OTLP
  documents of exactly the events whose write returned normally, in that order.
\<close>

theorem otlp_writers_exactly_once:
  assumes "posix_kernel k" "new_otlp_http_sink k options ([], s0) = (Inr sk, n)"
    "writers_reach (ot_ops k) (sk, n) s" "ws_sink s = (sk', calls, s')"
    "carriage_return \<notin> set (ot_host options)" "carriage_return \<notin> set (ot_path options)"
  shows "concat (map served_bodies (streams calls)) =
    map (\<lambda>e. make_otlp_json e (ot_service_name options)) (returned_events s)"
proof -
  have "ot_delivered k options (sk, n) []"
    using new_otlp_sink_carries [OF assms(2)] by (simp add: ot_delivered_def)
  with otlp_shared.reach_delivers [OF assms(3)] have "ot_delivered k options (sk', calls, s') (returned_events s)"
    using assms(4) by (simp add: returned_events_def)
  with assms(1) have "carries (is_post (ot_host options) (ot_path options)) (ot_client sk', calls, s')
      (map (event_request options) (returned_events s))"
    by (simp add: ot_delivered_def ot_net_def)
  from carried_bodies [OF this assms(5,6)] show ?thesis .
qed

theorem otlp_writers_exactly_once_witness:
  "concat (map served_bodies [event_request default_otlp_http_sink_options demo_event]) =
     [make_otlp_json demo_event ''unknown_service'']"
proof -
  let ?o = default_otlp_http_sink_options
  let ?p = "event_request ?o demo_event"
  let ?calls = "dialled ''127.0.0.1'' 4318 @ [Send 3 ?p (int (length ?p))]"
  let ?s0 = "writers_init (demo_otlp_sink, [], [])"
  have sel: "ot_base demo_otlp_sink = plain_base" "ot_options demo_otlp_sink = ?o"
    by (simp_all add: demo_otlp_sink_def)
  have req: "ot_request demo_otlp_sink demo_event = ?p"
    by (simp add: ot_request_def sel plain_base_def event_request_def)
  obtain sk where w: "ot_write demo_kernel demo_event (demo_otlp_sink, [], []) = Some (Inr (), sk, ?calls, [])"
    using demo_otlp_write [OF refl] by blast
  have "(writer_step (ot_ops demo_kernel) 0)\<^sup>*\<^sup>* ?s0 (writer_return 0 demo_event ?p (Inr ()) (?s0\<lparr>ws_sink := (sk, ?calls, [])\<rparr>))"
    using w
    by (intro otlp_solo.solo_write [where p = ?p])
      (auto simp: ot_ops_def ot_write_def writers_init_def sel req should_log_def plain_base_def)
  from reach_steps [OF this writers_start]
  have run: "writers_reach (ot_ops demo_kernel) (demo_otlp_sink, [], [])
      (writer_return 0 demo_event ?p (Inr ()) (?s0\<lparr>ws_sink := (sk, ?calls, [])\<rparr>))" .
  have ret: "map (\<lambda>e. make_otlp_json e (ot_service_name ?o)) (returned_events
      (writer_return 0 demo_event ?p (Inr ()) (?s0\<lparr>ws_sink := (sk, ?calls, [])\<rparr>))) =
        [make_otlp_json demo_event ''unknown_service'']"
    by (simp add: returned_events_def completed_def writers_init_def default_otlp_http_sink_options_def)
  have cr: "carriage_return \<notin> set (ot_host ?o)" "carriage_return \<notin> set (ot_path ?o)"
    by (simp_all add: default_otlp_http_sink_options_def)
  have "streams ?calls = [?p]" by (simp add: dialled_def streams_def)
  with otlp_writers_exactly_once [OF demo_kernel_ok(1) demo_otlp_new run _ cr, of sk ?calls "[]"] ret
  show ?thesis by simp
qed

text \<open>
  C31. The statistics of a shared sink are exact, however the writes are interleaved: after any history of
  steps, \<^verbatim>\<open>write_attempts\<close> is the number of writes begun, \<^verbatim>\<open>write_failures\<close> the number of failed tries, whether
  they were retried or ended in an exception, and \<^verbatim>\<open>reconnect_attempts\<close> the number of retries, modulo
  \<open>2 ^ 64\<close>. The writes begun are those that returned or threw and those between two tries.
\<close>

theorem tcp_writers_statistics:
  assumes "new_tcp_json_lines_sink k options n0 = (Inr sk, n)" "writers_history (tj_ops k) (sk, n) h s"
  shows "tj_statistics (fst (ws_sink s)) =
      \<lparr>write_attempts = of_nat (count_list h Began),
       write_failures = of_nat (count_list h Retried + count_list h Threw),
       reconnect_attempts = of_nat (count_list h Retried)\<rparr> \<and>
    count_list h Began = length (ws_returned s) + card (writing s) \<and>
    count_list h Threw = failed_writes s"
proof -
  have "tj_statistics sk = no_statistics"
    using assms(1) by (auto simp: new_tcp_json_lines_sink_def Let_def split: if_splits prod.splits sum.splits)
  with tcp_counted.history_counted [OF assms(2)] show ?thesis
    by (simp add: marked_stats marks_ok_def no_statistics_def)
qed

theorem tcp_writers_statistics_witness:
  "\<exists>s. writers_history (tj_ops demo_kernel) (demo_sink, [], [1, - 2]) [Began, Retried, Began, Wrote, Wrote] s \<and>
     tj_statistics (fst (ws_sink s)) = \<lparr>write_attempts = 2, write_failures = 1, reconnect_attempts = 1\<rparr>"
proof -
  obtain s where run: "writers_history (tj_ops demo_kernel) (demo_sink, [], [1, - 2]) [Began, Retried, Began, Wrote, Wrote] s"
    using shared_run [OF refl refl] by blast
  with tcp_writers_statistics [OF demo_sink_new run] show ?thesis by (intro exI [of _ s]) simp
qed

text \<open>
  C30. A write ends however it is interleaved: a thread in a write can always go on if the kernel interrupts
  only finitely often in a row, each of its own steps brings it closer to its return, and no step of
  another thread takes it back.
\<close>

theorem tcp_writer_ends:
  assumes "interrupts_end k \<mu>" "ws_pc s t \<noteq> Wr_idle"
  shows "(\<exists>s'. writer_step (tj_ops k) t s s') \<and>
    (\<forall>u s'. writer_step (tj_ops k) u s s' \<longrightarrow>
       tj_options (fst (ws_sink s')) = tj_options (fst (ws_sink s)) \<and>
       (if u = t
        then writer_rank (tj_retries (tj_options (fst (ws_sink s)))) (ws_pc s' t)
          < writer_rank (tj_retries (tj_options (fst (ws_sink s)))) (ws_pc s t)
        else ws_pc s' t = ws_pc s t))"
proof -
  have "tj_attempt k p x \<noteq> None" for p x
    by (intro tcp_retry.attempt_returns deliver_returns [OF assms(1)])
  then have "\<exists>s'. writer_step (tj_ops k) t s s'" using assms(2) by (intro step_enabled) (simp_all add: tj_ops_def)
  moreover have "tj_options (fst (ws_sink s')) = tj_options (fst (ws_sink s))"
    if "writer_step (tj_ops k) u s s'" for u s' by (rule tj_step_options [OF that])
  moreover have "ws_pc s' t = ws_pc s t" if "writer_step (tj_ops k) u s s'" "u \<noteq> t" for u s'
    by (rule step_others [OF that])
  moreover have "writer_rank (tj_retries (tj_options (fst (ws_sink s)))) (ws_pc s' t)
      < writer_rank (tj_retries (tj_options (fst (ws_sink s)))) (ws_pc s t)"
    if "writer_step (tj_ops k) t s s'" for s'
    using step_rank [OF that assms(2)] by (simp add: tj_ops_def)
  ultimately show ?thesis by simp
qed

theorem tcp_writer_ends_witness:
  "\<exists>s'. writer_step (tj_ops demo_kernel) 0 (writer_goto 0 (Wr_first demo_event ''x'') (writers_init (demo_sink, [], [- 1]))) s'"
  using tcp_writer_ends [OF demo_kernel_ok(2), of "writer_goto 0 (Wr_first demo_event ''x'') (writers_init (demo_sink, [], [- 1]))" 0]
  by simp

text \<open>
  One thread alone: what the sequential model \<open>tj_write\<close> computes is what the steps of a thread do
  when no other thread comes between, from the call to the return.
\<close>

theorem tcp_write_is_run:
  assumes "ws_pc s t = Wr_idle" "should_log (tj_base (fst (ws_sink s))) e"
    "tj_write k e (ws_sink s) = Some (r, x')"
  shows "(writer_step (tj_ops k) t)\<^sup>*\<^sup>* s
    (writer_return t e (tj_payload (fst (ws_sink s)) e) r (s\<lparr>ws_sink := x'\<rparr>))"
  using assms
  by (intro tcp_solo.solo_write) (auto simp: tj_ops_def tj_write_def split: prod.splits)

theorem tcp_write_is_run_witness:
  "\<exists>s. (writer_step (tj_ops demo_kernel) 0)\<^sup>*\<^sup>* (writers_init (demo_sink, [], [1, - 2])) s \<and>
     map (\<lambda>(e, p, r). (e, r)) (ws_returned s) = [(demo_event, Inr ())]"
proof -
  let ?s = "writers_init (demo_sink, [] :: os_call list, [1, - 2]) ::
    (tcp_json_lines_sink \<times> os_call list \<times> int list, log_event, bytes) writers"
  have "should_log (tj_base (fst (ws_sink ?s))) demo_event"
    by (simp add: writers_init_def demo_selectors should_log_def plain_base_def)
  moreover obtain x where "tj_write demo_kernel demo_event (ws_sink ?s) = Some (Inr (), x)"
    using demo_write [OF refl, of demo_event] by (simp add: writers_init_def)
  ultimately have "(writer_step (tj_ops demo_kernel) 0)\<^sup>*\<^sup>* ?s
      (writer_return 0 demo_event (tj_payload (fst (ws_sink ?s)) demo_event) (Inr ()) (?s\<lparr>ws_sink := x\<rparr>))"
    by (intro tcp_write_is_run) (simp_all add: writers_init_def)
  then show ?thesis
    by (intro exI conjI, assumption) (simp add: writers_init_def)
qed

end
