(* ===== verification/Zlib_Helper.thy ===== *)
theory Zlib_Helper
  imports Prelude
begin

text \<open>
  \<^verbatim>\<open>src/zlib_helper.cpp\<close>: the loop that drives \<^verbatim>\<open>deflate\<close> over a 32 KiB buffer. zlib itself is a
  parameter: its stream state is \<open>'z\<close>, and a call of \<^verbatim>\<open>deflate\<close> gives its return code and the
  bytes it left in the buffer.
\<close>

section \<open>The loop\<close>

definition Z_OK :: int where "Z_OK = 0"

definition Z_STREAM_END :: int where "Z_STREAM_END = 1"

text \<open>\<^verbatim>\<open>z_set_input\<close> is the assignment of \<^verbatim>\<open>next_in\<close> and \<^verbatim>\<open>avail_in\<close>.\<close>

record 'z zlib =
  z_deflate_init :: "int \<Rightarrow> 'z option"
  z_set_input :: "bytes \<Rightarrow> 'z \<Rightarrow> 'z"
  z_deflate :: "'z \<Rightarrow> int \<times> bytes \<times> 'z"

text \<open>\<^verbatim>\<open>total_out\<close> counts what all calls have produced; the loop appends what is new.\<close>

partial_function (option) compress_loop ::
  "'z zlib \<Rightarrow> 'z \<Rightarrow> nat \<Rightarrow> bytes \<Rightarrow> (int \<times> bytes) option" where
  "compress_loop z zs total_out out =
     (case z_deflate z zs of
        (ret, outbuffer, zs) \<Rightarrow>
          (let total_out = total_out + length outbuffer;
               out = (if length out < total_out then out @ take (total_out - length out) outbuffer else out)
           in if ret = Z_OK then compress_loop z zs total_out out else Some (ret, out)))"

text \<open>\<^verbatim>\<open>static_cast<uInt>(input.size())\<close> keeps the low 32 bits of the size.\<close>

definition compress_impl :: "'z zlib \<Rightarrow> bytes \<Rightarrow> bytes \<Rightarrow> int \<Rightarrow> (bool \<times> bytes) option" where
  "compress_impl z input out window_bits =
     (case z_deflate_init z window_bits of
        None \<Rightarrow> Some (False, out)
      | Some zs \<Rightarrow>
          (let avail_in = unat (of_nat (length input) :: u32)
           in map_option (\<lambda>(ret, out). (ret = Z_STREAM_END, out))
                (compress_loop z (z_set_input z (take avail_in input) zs) 0 out)))"

definition gzip_compress :: "'z zlib \<Rightarrow> bytes \<Rightarrow> bytes \<Rightarrow> (bool \<times> bytes) option" where
  "gzip_compress z input out = compress_impl z input out (15 + 16)"

definition zlib_compress :: "'z zlib \<Rightarrow> bytes \<Rightarrow> bytes \<Rightarrow> (bool \<times> bytes) option" where
  "zlib_compress z input out = compress_impl z input out 15"

section \<open>What the loop makes of zlib\<close>

text \<open>
  The blocks that \<^verbatim>\<open>deflate\<close> with \<^verbatim>\<open>Z_FINISH\<close> produces from a state: \<^verbatim>\<open>Z_OK\<close> while the
  buffer was too small, then \<^verbatim>\<open>Z_STREAM_END\<close>.
\<close>

fun produces :: "'z zlib \<Rightarrow> 'z \<Rightarrow> bytes list \<Rightarrow> bool" where
  "produces z zs [] = False"
| "produces z zs (b # bs) =
     (case z_deflate z zs of
        (ret, outbuffer, zs') \<Rightarrow>
          outbuffer = b \<and> (if bs = [] then ret = Z_STREAM_END else ret = Z_OK \<and> produces z zs' bs))"

text \<open>
  The documented contract of the library, at the two window sizes the code asks for: the zlib format (15) and
  gzip (31). What it produces is inflated to the input.
\<close>

definition deflate_contract :: "'z zlib \<Rightarrow> (bytes \<Rightarrow> bytes option) \<Rightarrow> bool" where
  "deflate_contract z inflate \<longleftrightarrow>
     (\<forall>w \<in> {15, 31}. \<exists>zs. z_deflate_init z w = Some zs \<and>
        (\<forall>x. \<exists>bs. produces z (z_set_input z x zs) bs \<and> inflate (concat bs) = Some x))"

lemma compress_loop_produces:
  "produces z zs bs \<Longrightarrow> compress_loop z zs (length out) out = Some (Z_STREAM_END, out @ concat bs)"
proof (induction z zs bs arbitrary: out rule: produces.induct)
  case (2 z zs b bs)
  obtain ret zs' where d: "z_deflate z zs = (ret, b, zs')"
    using 2(2) by (auto split: prod.splits)
  show ?case
  proof (cases "bs = []")
    case True
    with 2(2) d show ?thesis
      by (subst compress_loop.simps) (simp add: Z_OK_def Z_STREAM_END_def)
  next
    case False
    with 2(2) d have "ret = Z_OK" "produces z zs' bs" by simp_all
    with 2(1) [OF d [symmetric] refl False, of "out @ b"] d show ?thesis
      by (subst compress_loop.simps) (auto simp: Let_def)
  qed
qed simp

text \<open>
  A stored-only zlib, for the examples: it passes its input on in blocks of at most 32768 bytes.
\<close>

definition stored_zlib :: "bytes zlib" where
  "stored_zlib =
     \<lparr>z_deflate_init = (\<lambda>w. Some []), z_set_input = (\<lambda>x s. x),
      z_deflate = (\<lambda>s. (if length s \<le> 32768 then Z_STREAM_END else Z_OK, take 32768 s, drop 32768 s))\<rparr>"

lemma stored_produces: "\<exists>bs. produces stored_zlib s bs \<and> concat bs = s"
proof (induction "length s" arbitrary: s rule: less_induct)
  case less
  show ?case
  proof (cases "length s \<le> 32768")
    case True
    then show ?thesis by (intro exI [of _ "[s]"]) (simp add: stored_zlib_def)
  next
    case False
    then have "length (drop 32768 s) < length s" by simp
    from less [OF this] obtain bs where bs: "produces stored_zlib (drop 32768 s) bs" "concat bs = drop 32768 s" by blast
    then have "bs \<noteq> []" by auto
    with bs False show ?thesis
      by (intro exI [of _ "take 32768 s # bs"]) (simp add: stored_zlib_def)
  qed
qed

lemma stored_contract: "deflate_contract stored_zlib Some"
proof -
  have "\<exists>bs. produces stored_zlib (z_set_input stored_zlib x []) bs \<and> concat bs = x" for x
    using stored_produces [of x] by (simp add: stored_zlib_def)
  moreover have "z_deflate_init stored_zlib w = Some []" for w by (simp add: stored_zlib_def)
  ultimately show ?thesis unfolding deflate_contract_def by (metis option.inject)
qed

text \<open>
  The zlib format (RFC 1950) begins with a byte whose low four bits are 8, the compression method; \<open>headed_zlib\<close>
  has such a byte before the stored text.
\<close>

definition zlib_format :: "'z zlib \<Rightarrow> bool" where
  "zlib_format z \<longleftrightarrow>
     (\<forall>x zs bs. z_deflate_init z 15 = Some zs \<longrightarrow> produces z (z_set_input z x zs) bs \<longrightarrow>
        concat bs \<noteq> [] \<and> of_char (hd (concat bs)) mod 16 = (8 :: nat))"

definition headed_zlib :: "bytes zlib" where
  "headed_zlib = stored_zlib\<lparr>z_set_input := (\<lambda>x s. CHR ''x'' # x)\<rparr>"

lemma stored_unique: "produces stored_zlib s bs \<Longrightarrow> concat bs = s"
proof (induction "stored_zlib" s bs rule: produces.induct)
  case (2 s b bs)
  then show ?case by (auto simp: stored_zlib_def Z_OK_def Z_STREAM_END_def split: if_splits)
qed simp

lemma headed_produces: "produces headed_zlib s bs = produces stored_zlib s bs"
proof (induction stored_zlib s bs rule: produces.induct)
  case (2 s b bs)
  have "z_deflate headed_zlib = z_deflate stored_zlib" by (simp add: headed_zlib_def)
  with 2 show ?case by (auto split: prod.split)
qed simp

lemma headed_contract: "deflate_contract headed_zlib (\<lambda>y. Some (tl y))" "zlib_format headed_zlib"
proof -
  have init: "z_deflate_init headed_zlib w = Some []" "z_set_input headed_zlib x [] = CHR ''x'' # x" for w x
    by (simp_all add: headed_zlib_def stored_zlib_def)
  show "deflate_contract headed_zlib (\<lambda>y. Some (tl y))"
    unfolding deflate_contract_def headed_produces init using stored_produces by (metis init(1,2) list.sel(3))
  show "zlib_format headed_zlib"
    unfolding zlib_format_def headed_produces
  proof (intro allI impI)
    fix x zs bs
    assume "z_deflate_init headed_zlib 15 = Some zs" "produces stored_zlib (z_set_input headed_zlib x zs) bs"
    then have "concat bs = CHR ''x'' # x" using stored_unique init by force
    then show "concat bs \<noteq> [] \<and> of_char (hd (concat bs)) mod 16 = (8 :: nat)" unfolding \<open>concat bs = _\<close> by simp
  qed
qed

text \<open>What the driver makes of a zlib that keeps its contract.\<close>

lemma compress_contract:
  assumes "deflate_contract z inflate" "w \<in> {15, 31}"
  obtains zs bs where "z_deflate_init z w = Some zs" "produces z (z_set_input z (take (length input mod 2 ^ 32) input) zs) bs"
    "inflate (concat bs) = Some (take (length input mod 2 ^ 32) input)" "compress_impl z input [] w = Some (True, concat bs)"
proof -
  let ?x = "take (length input mod 2 ^ 32) input"
  obtain zs bs where zs: "z_deflate_init z w = Some zs" "produces z (z_set_input z ?x zs) bs"
    "inflate (concat bs) = Some ?x"
    using assms unfolding deflate_contract_def by blast
  have "compress_loop z (z_set_input z ?x zs) 0 [] = Some (Z_STREAM_END, concat bs)"
    using compress_loop_produces [OF zs(2), of "[]"] by simp
  with zs that show thesis by (simp add: compress_impl_def unat_of_nat)
qed

section \<open>Properties\<close>

text \<open>
  C25. Compression is lossless below 4 GiB: when zlib keeps its contract, both entry points return true
  and an output that inflates to the input; from 4 GiB on, only the low 32 bits of the size are passed
  on, and the output inflates to a truncated input although the result is true.
\<close>

theorem compress_round_trip:
  assumes "deflate_contract z inflate"
  shows "\<exists>g d. gzip_compress z input [] = Some (True, g) \<and> zlib_compress z input [] = Some (True, d) \<and>
    inflate g = Some (take (length input mod 2 ^ 32) input) \<and>
    inflate d = Some (take (length input mod 2 ^ 32) input)"
proof -
  have "\<exists>out. compress_impl z input [] w = Some (True, out) \<and>
      inflate out = Some (take (length input mod 2 ^ 32) input)" if w: "w \<in> {15, 31}" for w
    by (rule compress_contract [OF assms w, of input]) blast
  from this [of 31] this [of 15] show ?thesis by (simp add: gzip_compress_def zlib_compress_def) blast
qed

theorem compress_round_trip_witness: "gzip_compress stored_zlib ''abc'' [] = Some (True, ''abc'')"
  using compress_round_trip [OF stored_contract, of "''abc''"] by auto

end
