(* ===== verification/Gelf_Udp_Sink.thy ===== *)
theory Gelf_Udp_Sink
  imports Net_Demo Payloads Zlib_Helper
begin

text \<open>
  \<^verbatim>\<open>src/sinks/gelf_udp_sink.cpp\<close>: a GELF message per event, compressed if asked, split into chunks when
  it exceeds the chunk size, and sent as UDP datagrams. Sizes are \<^verbatim>\<open>std::size_t\<close>, so the chunk
  arithmetic wraps at 64 bits.
\<close>

unbundle bit_operations_syntax

section \<open>Chunks\<close>

text \<open>The message id of a chunked message: the clock and a counter shared by all sinks.\<close>

definition generate_gelf_message_id :: "u64 \<Rightarrow> u64 \<Rightarrow> u64 \<times> u64" where
  "generate_gelf_message_id now counter = (now XOR push_bit 32 counter, counter + 1)"

definition chunk_header :: "u64 \<Rightarrow> nat \<Rightarrow> nat \<Rightarrow> bytes" where
  "chunk_header message_id i chunks_to_send =
     [CHR 0x1E, CHR 0x0F] @
     map (\<lambda>b. char_of (unat (drop_bit (b * 8) message_id AND 0xFF))) [0..<8] @
     [char_of i, char_of chunks_to_send]"

text \<open>None is the division by zero of a chunk size of exactly 12, the size of the header.\<close>

definition gelf_chunks :: "u64 \<Rightarrow> u64 \<Rightarrow> bytes \<Rightarrow> bytes list option" where
  "gelf_chunks max_chunk_size message_id payload =
     (let payload_size = of_nat (length payload) :: u64
      in if payload_size > max_chunk_size
         then
           (let max_payload_per_chunk = max_chunk_size - 12
            in if max_payload_per_chunk = 0 then None
               else
                 (let total_chunks = (payload_size + max_payload_per_chunk - 1) div max_payload_per_chunk;
                      chunks_to_send = min total_chunks 128
                  in Some (map (\<lambda>i.
                       (let offset = of_nat i * max_payload_per_chunk;
                            size = min max_payload_per_chunk (payload_size - offset)
                        in chunk_header message_id i (unat chunks_to_send)
                             @ take (unat size) (drop (unat offset) payload)))
                     [0..<unat chunks_to_send])))
         else Some [payload])"

section \<open>Reassembly\<close>

text \<open>
  The receiving side of chunked GELF: datagrams of one message in any order, possibly repeated. Byte 10
  is the sequence number and byte 11 the count.
\<close>

definition is_chunk :: "u64 \<Rightarrow> nat \<Rightarrow> bytes \<Rightarrow> bool" where
  "is_chunk message_id n d \<longleftrightarrow> 12 \<le> length d \<and>
     take 10 d = take 10 (chunk_header message_id 0 0) \<and> char_code (d ! 11) = n"

fun chunk_numbered :: "nat \<Rightarrow> bytes list \<Rightarrow> bytes option" where
  "chunk_numbered i [] = None"
| "chunk_numbered i (d # ds) = (if char_code (d ! 10) = i then Some (drop 12 d) else chunk_numbered i ds)"

definition gelf_reassemble :: "u64 \<Rightarrow> bytes list \<Rightarrow> bytes option" where
  "gelf_reassemble message_id ds =
     (case ds of
        [] \<Rightarrow> None
      | d # _ \<Rightarrow>
          (let n = char_code (d ! 11)
           in if list_all (is_chunk message_id n) ds \<and> (\<forall>i < n. chunk_numbered i ds \<noteq> None)
              then Some (concat (map (\<lambda>i. the (chunk_numbered i ds)) [0..<n]))
              else None))"

lemma length_chunk_header [simp]: "length (chunk_header message_id i n) = 12"
  by (simp add: chunk_header_def)

lemma chunk_header_bytes:
  "i < 256 \<Longrightarrow> char_code ((chunk_header message_id i n @ body) ! 10) = i"
  "n < 256 \<Longrightarrow> char_code ((chunk_header message_id i n @ body) ! 11) = n"
  "take 10 (chunk_header message_id i n @ body) = take 10 (chunk_header message_id 0 0)"
  by (simp_all add: chunk_header_def nth_append upt_rec char_code_char_of)

lemma chunk_numbered_set:
  assumes "\<forall>d \<in> set ds. \<exists>j < n. d = chunk_header message_id j n @ body j" "n < 256" "i < n"
    "chunk_header message_id i n @ body i \<in> set ds"
  shows "chunk_numbered i ds = Some (body i)"
  using assms(1,4)
proof (induction ds)
  case (Cons d ds)
  then obtain j where j: "j < n" "d = chunk_header message_id j n @ body j" by auto
  with assms(2) have num: "char_code (d ! 10) = j" by (simp add: chunk_header_bytes)
  show ?case
  proof (cases "j = i")
    case True
    with num j show ?thesis by simp
  next
    case False
    then have "d \<noteq> chunk_header message_id i n @ body i"
      using num chunk_header_bytes(1) [of i message_id n "body i"] assms(2,3) by auto
    with Cons num False show ?thesis by auto
  qed
qed simp

lemma reassemble_chunks:
  assumes "set ds = (\<lambda>i. chunk_header message_id i n @ body i) ` {0..<n}" "0 < n" "n < 256"
  shows "gelf_reassemble message_id ds = Some (concat (map body [0..<n]))"
proof -
  have all: "\<forall>d \<in> set ds. \<exists>j < n. d = chunk_header message_id j n @ body j" using assms(1) by auto
  have found: "chunk_numbered i ds = Some (body i)" if "i < n" for i
    using chunk_numbered_set [OF all assms(3) that] that assms(1) by auto
  obtain d ds' where ds: "ds = d # ds'" using assms(1,2) by (cases ds) auto
  then obtain j where "d = chunk_header message_id j n @ body j" using all by auto
  then have n: "char_code (d ! 11) = n" using assms(3) by (simp add: chunk_header_bytes)
  have "is_chunk message_id n d" if "d \<in> set ds" for d
  proof -
    from all that obtain j where "d = chunk_header message_id j n @ body j" by blast
    with assms(3) show ?thesis
      by (simp only: is_chunk_def chunk_header_bytes) simp
  qed
  then have "list_all (is_chunk message_id n) ds" by (simp add: list_all_iff)
  then have "list_all (is_chunk message_id n) ds \<and> (\<forall>i < n. chunk_numbered i ds \<noteq> None)"
    using found by simp
  then have "gelf_reassemble message_id ds = Some (concat (map (\<lambda>i. the (chunk_numbered i ds)) [0..<n]))"
    unfolding gelf_reassemble_def ds list.case n Let_def by (rule if_P)
  also have "map (\<lambda>i. the (chunk_numbered i ds)) [0..<n] = map body [0..<n]"
    by (rule map_cong [OF refl]) (simp add: found)
  finally show ?thesis .
qed

lemma concat_slices: "concat (map (\<lambda>i. take m (drop (i * m) xs)) [0..<n]) = take (n * m) xs"
proof (induction n)
  case (Suc n)
  have "take (Suc n * m) xs = take (n * m + m) xs" by (simp add: add.commute)
  with Suc show ?case by (simp add: take_add)
qed simp

definition chunk_room :: "u64 \<Rightarrow> nat" where
  "chunk_room max_chunk_size = unat max_chunk_size - 12"

definition chunk_count :: "u64 \<Rightarrow> nat \<Rightarrow> nat" where
  "chunk_count max_chunk_size n =
     min ((n + chunk_room max_chunk_size - 1) div chunk_room max_chunk_size) 128"

text \<open>With a chunk size above the header's, and sizes that do not wrap, the word arithmetic is exact.\<close>

lemma gelf_chunks_exact:
  assumes "12 < unat max_chunk_size" "unat max_chunk_size < length payload"
    "length payload + unat max_chunk_size < 2 ^ 64"
  shows "gelf_chunks max_chunk_size message_id payload =
    Some (map (\<lambda>i. chunk_header message_id i (chunk_count max_chunk_size (length payload))
        @ take (chunk_room max_chunk_size) (drop (i * chunk_room max_chunk_size) payload))
      [0..<chunk_count max_chunk_size (length payload)])"
proof -
  let ?m = "chunk_room max_chunk_size" and ?size = "of_nat (length payload) :: u64"
  let ?w = "max_chunk_size - 12"
  let ?total = "(length payload + ?m - 1) div ?m"
  have m: "unat ?w = ?m" "0 < ?m"
    using assms(1) by (simp_all add: chunk_room_def unat_sub word_le_nat_alt)
  have size: "unat ?size = length payload" using assms(3) by (simp add: unat_of_nat)
  have more: "max_chunk_size < ?size" using assms(2) size by (simp add: word_less_nat_alt)
  have "?w \<noteq> 0" using m by (metis less_irrefl unat_0)
  have room: "length payload + ?m < 2 ^ 64" using assms(3) by (simp add: chunk_room_def)
  have sum: "unat (?size + ?w) = length payload + ?m"
    using room m size by (subst unat_add_lem [THEN iffD1]) simp_all
  then have "unat (?size + ?w - 1) = length payload + ?m - 1"
    using m(2) by (subst unat_sub) (simp_all add: word_le_nat_alt)
  then have total: "unat ((?size + ?w - 1) div ?w) = ?total" by (simp add: unat_div m)
  have count: "unat (min ((?size + ?w - 1) div ?w) 128) = chunk_count max_chunk_size (length payload)"
    using total by (auto simp: min_def chunk_count_def word_le_nat_alt)
  have slice: "take (unat (min ?w (?size - of_nat i * ?w))) (drop (unat (of_nat i * ?w)) payload) =
      take ?m (drop (i * ?m) payload)" if "i < chunk_count max_chunk_size (length payload)" for i
  proof -
    have i: "i < ?total" "i < 128" using that by (simp_all add: chunk_count_def)
    then have "i * ?m + ?m \<le> ?total * ?m" by (metis Suc_leI add.commute mult_Suc mult_le_mono1)
    also have "\<dots> \<le> length payload + ?m - 1" by simp
    finally have le: "i * ?m < length payload" using m(2) by simp
    then have "i * ?m < 2 ^ 64" using room by simp
    moreover have "unat (of_nat i :: u64) = i" using i(2) by (simp add: unat_of_nat)
    ultimately have off: "unat (of_nat i * ?w) = i * ?m"
      using m(1) by (subst unat_mult_lem [THEN iffD1]) simp_all
    then have "unat (?size - of_nat i * ?w) = length payload - i * ?m"
      using le size by (subst unat_sub) (simp_all add: word_le_nat_alt)
    then have "unat (min ?w (?size - of_nat i * ?w)) = min ?m (length payload - i * ?m)"
      using m(1) by (auto simp: min_def word_le_nat_alt)
    then show ?thesis using off by (simp add: take_all min_def)
  qed
  show ?thesis
    unfolding gelf_chunks_def Let_def if_P [OF more] if_not_P [OF \<open>?w \<noteq> 0\<close>] count
    by (intro arg_cong [of _ _ Some] map_cong refl) (simp only: slice set_upt atLeastLessThan_iff)
qed

lemma gelf_chunks_reassemble:
  assumes "12 < unat max_chunk_size" "unat max_chunk_size < length payload"
    "length payload + unat max_chunk_size < 2 ^ 64"
    "gelf_chunks max_chunk_size message_id payload = Some chunks" "set ds = set chunks"
  shows "gelf_reassemble message_id ds = Some (take (128 * chunk_room max_chunk_size) payload)"
proof -
  let ?m = "chunk_room max_chunk_size" and ?n = "chunk_count max_chunk_size (length payload)"
  let ?body = "\<lambda>i. take ?m (drop (i * ?m) payload)"
  have m: "0 < ?m" using assms(1) by (simp add: chunk_room_def)
  have "chunks = map (\<lambda>i. chunk_header message_id i ?n @ ?body i) [0..<?n]"
    using gelf_chunks_exact [OF assms(1-3), of message_id] assms(4) by simp
  then have ds: "set ds = (\<lambda>i. chunk_header message_id i ?n @ ?body i) ` {0..<?n}" using assms(5) by simp
  have "?m \<le> length payload + ?m - 1" using assms(2) by simp
  then have "0 < (length payload + ?m - 1) div ?m" using m by (simp add: div_greater_zero_iff)
  then have n: "0 < ?n" "?n < 256" by (simp_all add: chunk_count_def)
  have "gelf_reassemble message_id ds = Some (take (?n * ?m) payload)"
    using reassemble_chunks [of ds message_id ?n ?body, OF ds n] by (simp add: concat_slices)
  moreover have "take (?n * ?m) payload = take (128 * ?m) payload"
  proof (cases "(length payload + ?m - 1) div ?m \<le> 128")
    case True
    then have n: "?n = (length payload + ?m - 1) div ?m" by (simp add: chunk_count_def)
    have "length payload \<le> (length payload + ?m - 1) div ?m * ?m"
    proof -
      have "length payload + ?m - 1 = (length payload + ?m - 1) div ?m * ?m + (length payload + ?m - 1) mod ?m"
        by simp
      moreover have "(length payload + ?m - 1) mod ?m < ?m" using m by simp
      ultimately show ?thesis by linarith
    qed
    then have "length payload \<le> ?n * ?m" by (simp only: n)
    moreover from True have "?n * ?m \<le> 128 * ?m" by (simp add: n)
    ultimately have "length payload \<le> 128 * ?m" by (rule le_trans)
    with \<open>length payload \<le> ?n * ?m\<close> show ?thesis by simp
  qed (simp add: chunk_count_def min_def)
  ultimately show ?thesis by simp
qed

lemma gelf_chunks_bounded:
  assumes "12 < unat max_chunk_size" "length payload + unat max_chunk_size < 2 ^ 64"
    "gelf_chunks max_chunk_size message_id payload = Some chunks"
  shows "length chunks \<le> 128 \<and> (\<forall>d \<in> set chunks. length d \<le> unat max_chunk_size)"
proof (cases "unat max_chunk_size < length payload")
  case True
  with gelf_chunks_exact [OF assms(1) True assms(2), of message_id] assms(3)
  have "chunks = map (\<lambda>i. chunk_header message_id i (chunk_count max_chunk_size (length payload))
        @ take (chunk_room max_chunk_size) (drop (i * chunk_room max_chunk_size) payload))
      [0..<chunk_count max_chunk_size (length payload)]" by simp
  then show ?thesis using assms(1) by (auto simp: chunk_count_def chunk_room_def)
next
  case False
  moreover have "unat (of_nat (length payload) :: u64) = length payload"
    using assms(2) by (simp add: unat_of_nat)
  ultimately have "chunks = [payload]"
    using assms(3) by (simp add: gelf_chunks_def Let_def word_less_nat_alt)
  with False show ?thesis by simp
qed

text \<open>A chunk size below the header's wraps: no datagram is sent and no error is raised.\<close>

lemma gelf_tiny_chunk_size:
  assumes "unat max_chunk_size < 12" "13 \<le> length payload" "length payload < 2 ^ 63"
  shows "gelf_chunks max_chunk_size message_id payload = Some []"
proof -
  let ?size = "of_nat (length payload) :: u64" and ?w = "max_chunk_size - 12"
  have size: "unat ?size = length payload" using assms(3) by (simp add: unat_of_nat)
  have w: "unat ?w = 2 ^ 64 - 12 + unat max_chunk_size"
    using assms(1) by (simp add: unat_sub_if_size word_size)
  have shift: "?size + ?w - 1 = ?size - (13 - max_chunk_size)" by simp
  have gap: "unat (13 - max_chunk_size) = 13 - unat max_chunk_size"
    using assms(1) by (subst unat_sub) (simp_all add: word_le_nat_alt)
  then have le: "13 - max_chunk_size \<le> ?size" using size assms(2) by (simp add: word_le_nat_alt)
  have "unat (?size + ?w - 1) = length payload - (13 - unat max_chunk_size)"
    unfolding shift unat_sub [OF le] gap size ..
  then have "unat (?size + ?w - 1) < unat ?w" using assms w by simp
  then have "unat ((?size + ?w - 1) div ?w) = 0" unfolding unat_div by simp
  then have none: "(?size + ?w - 1) div ?w = 0" by (simp add: unat_eq_0)
  have "max_chunk_size < ?size" "?w \<noteq> 0"
    using assms size w by (auto simp: word_less_nat_alt)
  then show ?thesis
    unfolding gelf_chunks_def Let_def none by simp
qed

section \<open>The sink\<close>

record gelf_udp_sink_options =
  gu_host :: bytes
  gu_port :: u16
  gu_source_host :: bytes
  gu_reconnect_on_failure :: bool
  gu_max_write_retries :: u32
  gu_compress :: bool
  gu_max_chunk_size :: u64

definition default_gelf_udp_sink_options :: gelf_udp_sink_options where
  "default_gelf_udp_sink_options =
     \<lparr>gu_host = ''127.0.0.1'', gu_port = 12201, gu_source_host = ''localhost'', gu_reconnect_on_failure = True,
      gu_max_write_retries = 1, gu_compress = False, gu_max_chunk_size = 1024\<rparr>"

record gelf_udp_sink =
  gu_base :: sink_base
  gu_options :: gelf_udp_sink_options
  gu_client :: udp_client
  gu_statistics :: network_sink_statistics
  gu_last_error_message :: bytes

type_synonym 'o gelf_sink_state = "gelf_udp_sink \<times> 'o net"

definition gu_configure_transport :: "'o kernel \<Rightarrow> 'o gelf_sink_state \<Rightarrow> 'o gelf_sink_state outcome" where
  "gu_configure_transport k st =
     (case st of (sk, n) \<Rightarrow>
        (case udp_configure k (gu_host (gu_options sk)) (gu_port (gu_options sk)) (gu_client sk, n) of
           (r, c, n) \<Rightarrow> (r, sk\<lparr>gu_client := c\<rparr>, n)))"

definition new_gelf_udp_sink ::
  "'o kernel \<Rightarrow> gelf_udp_sink_options \<Rightarrow> 'o net \<Rightarrow> (cpp_exception + gelf_udp_sink) \<times> 'o net" where
  "new_gelf_udp_sink k options n =
     (let sink = \<lparr>gu_base = plain_base, gu_options = options, gu_client = new_udp_client,
                  gu_statistics = no_statistics, gu_last_error_message = []\<rparr>
      in if gu_port options = 0
         then (Inl (Invalid_Argument ''gelf_udp_sink port must be greater than zero''), n)
         else (case gu_configure_transport k (sink, n) of
                 (Inl e, sk, n) \<Rightarrow> (Inl e, n)
               | (Inr u, sk, n) \<Rightarrow> (Inr sk, n)))"

definition gu_destroy :: "'o kernel \<Rightarrow> 'o gelf_sink_state \<Rightarrow> 'o net" where
  "gu_destroy k st = snd (udp_close k (gu_client (fst st), snd st))"

definition gu_record_failure :: "cpp_exception \<Rightarrow> 'o gelf_sink_state \<Rightarrow> 'o gelf_sink_state" where
  "gu_record_failure e st =
     (case st of (sk, n) \<Rightarrow>
        (sk\<lparr>gu_statistics := count_failure (gu_statistics sk), gu_last_error_message := what e\<rparr>, n))"

fun send_chunks :: "'o kernel \<Rightarrow> bytes list \<Rightarrow> udp_client \<times> 'o net \<Rightarrow> (udp_client \<times> 'o net) outcome option" where
  "send_chunks k [] st = Some (Inr (), st)"
| "send_chunks k (chunk # chunks) st =
     (case udp_send k chunk st of
        None \<Rightarrow> None
      | Some (Inl e, st) \<Rightarrow> Some (Inl e, st)
      | Some (Inr u, st) \<Rightarrow> send_chunks k chunks st)"

definition gu_attempt :: "'o kernel \<Rightarrow> bytes list \<Rightarrow> 'o gelf_sink_state \<Rightarrow> 'o gelf_sink_state outcome option" where
  "gu_attempt k chunks st =
     (case st of (sk, n) \<Rightarrow>
        (case send_chunks k chunks (gu_client sk, n) of
           None \<Rightarrow> None
         | Some (Inl e, c, n) \<Rightarrow> Some (Inl e, gu_record_failure e (sk\<lparr>gu_client := c\<rparr>, n))
         | Some (Inr u, c, n) \<Rightarrow> Some (Inr (), sk\<lparr>gu_client := c, gu_last_error_message := []\<rparr>, n)))"

text \<open>Reconfiguring stands outside the try block: what it throws leaves the write at once.\<close>

definition gu_recover :: "'o kernel \<Rightarrow> u32 \<Rightarrow> 'o gelf_sink_state \<Rightarrow> 'o gelf_sink_state outcome" where
  "gu_recover k backoff_ms st =
     (case st of (sk, n) \<Rightarrow>
        gu_configure_transport k
          (sk\<lparr>gu_statistics := count_reconnect (gu_statistics sk)\<rparr>, sleep_for k backoff_ms n))"

fun gu_write_loop ::
  "'o kernel \<Rightarrow> bytes list \<Rightarrow> nat \<Rightarrow> u32 \<Rightarrow> 'o gelf_sink_state \<Rightarrow> 'o gelf_sink_state outcome option" where
  "gu_write_loop k chunks retries_remaining backoff_ms st =
     (case gu_attempt k chunks st of
        None \<Rightarrow> None
      | Some (Inr u, st) \<Rightarrow> Some (Inr u, st)
      | Some (Inl e, st) \<Rightarrow>
          (case retries_remaining of
             0 \<Rightarrow> Some (Inl e, st)
           | Suc n \<Rightarrow>
               (case gu_recover k backoff_ms st of
                  (Inl e, st) \<Rightarrow> Some (Inl e, st)
                | (Inr u, st) \<Rightarrow> gu_write_loop k chunks n (next_backoff backoff_ms) st)))"

declare gu_write_loop.simps [simp del]

text \<open>
  The payload: formatted or GELF, then compressed when zlib is compiled in (\<^verbatim>\<open>LOGSPINE_WITH_ZLIB\<close>), asked
  for, and succeeds.
\<close>

definition gu_payload :: "'z zlib option \<Rightarrow> gelf_udp_sink \<Rightarrow> log_event \<Rightarrow> bytes option" where
  "gu_payload zlib sk event =
     (let payload = (case sink_formatter (gu_base sk) of
                       Some f \<Rightarrow> f event
                     | None \<Rightarrow> make_gelf_payload event (gu_source_host (gu_options sk)))
      in case zlib of
           None \<Rightarrow> Some payload
         | Some z \<Rightarrow>
             if gu_compress (gu_options sk)
             then map_option (\<lambda>(ok, compressed). if ok then compressed else payload) (zlib_compress z payload [])
             else Some payload)"

definition gu_retries :: "gelf_udp_sink_options \<Rightarrow> nat" where
  "gu_retries options = (if gu_reconnect_on_failure options then unat (gu_max_write_retries options) else 0)"

text \<open>
  A write, given the clock and the shared counter of message ids. None is a write that does not
  return: a compressor or a kernel that loops for ever, or the division by zero.
\<close>

definition gu_write ::
  "'o kernel \<Rightarrow> 'z zlib option \<Rightarrow> u64 \<Rightarrow> u64 \<Rightarrow> log_event \<Rightarrow> 'o gelf_sink_state \<Rightarrow> 'o gelf_sink_state outcome option"
where
  "gu_write k zlib now counter event st =
     (case st of (sk, n) \<Rightarrow>
        if \<not> should_log (gu_base sk) event then Some (Inr (), st)
        else
          (case gu_payload zlib sk event of
             None \<Rightarrow> None
           | Some payload \<Rightarrow>
               (case gelf_chunks (gu_max_chunk_size (gu_options sk)) (fst (generate_gelf_message_id now counter)) payload of
                  None \<Rightarrow> None
                | Some chunks \<Rightarrow>
                    gu_write_loop k chunks (gu_retries (gu_options sk)) 10
                      (sk\<lparr>gu_statistics := count_attempt (gu_statistics sk)\<rparr>, n))))"

definition gu_flush :: "'o gelf_sink_state \<Rightarrow> 'o gelf_sink_state" where
  "gu_flush st = st"

definition gu_get_statistics :: "gelf_udp_sink \<Rightarrow> network_sink_statistics" where
  "gu_get_statistics sk = gu_statistics sk"

definition gu_get_last_error_message :: "gelf_udp_sink \<Rightarrow> bytes" where
  "gu_get_last_error_message sk = gu_last_error_message sk"

definition gu_write_failures :: "gelf_udp_sink \<Rightarrow> u64" where
  "gu_write_failures sk = write_failures (gu_statistics sk)"

section \<open>Datagrams\<close>

text \<open>The datagrams the kernel took.\<close>

fun datagrams :: "os_call list \<Rightarrow> bytes list" where
  "datagrams [] = []"
| "datagrams (c # cs) =
     (case c of Send_to h data dest r \<Rightarrow> if r < 0 then datagrams cs else data # datagrams cs | _ \<Rightarrow> datagrams cs)"

lemma datagrams_append [simp]: "datagrams (xs @ ys) = datagrams xs @ datagrams ys"
  by (induction xs) (auto split: os_call.split)

lemma udp_close_datagrams: "datagrams (fst (snd (udp_close k st))) = datagrams (fst (snd st))"
  by (auto simp: udp_close_def close_socket_def logged_def split: prod.splits)

lemma udp_addresses_datagrams:
  "udp_addresses k addrs n = (r, n') \<Longrightarrow> datagrams (fst n') = datagrams (fst n)"
proof (induction addrs arbitrary: n)
  case (Cons a addrs)
  then show ?case by (auto simp: os_ops split: prod.splits if_splits dest!: Cons.IH)
qed simp

lemma configure_udp_datagrams:
  "configure_udp_socket k host port n = (r, n') \<Longrightarrow> datagrams (fst n') = datagrams (fst n)"
  by (auto simp: configure_udp_socket_def os_getaddrinfo_def freeaddrinfo_def logged_def
      split: prod.splits option.splits dest!: udp_addresses_datagrams)

lemma udp_configure_datagrams:
  assumes "udp_configure k host port st = (r, st')"
  shows "datagrams (fst (snd st')) = datagrams (fst (snd st))"
proof -
  obtain c n where closed: "udp_close k st = (c, n)" by (cases "udp_close k st")
  obtain q m where conf: "configure_udp_socket k host port n = (q, m)" by (cases "configure_udp_socket k host port n")
  have "datagrams (fst m) = datagrams (fst (snd st))"
    using configure_udp_datagrams [OF conf] udp_close_datagrams [of k st] closed by simp
  with assms closed conf show ?thesis
    by (auto simp: udp_configure_def split: if_splits sum.splits prod.splits)
qed

lemma udp_send_loop_datagrams:
  "udp_send_loop k payload c n = Some (r, c', n') \<Longrightarrow>
     datagrams (fst n') = datagrams (fst n) @ (if r = Inr () then [payload] else [])"
proof (induction k payload c n "(r, c', n')" rule: udp_send_loop.raw_induct [rotated 1, consumes 1])
  case (1 f k payload c n)
  note IH = 1(1) and run = 1(2)
  obtain sent interrupted s where
    send: "k_sendto k (udp_handle c) payload (udp_destination c) (snd n) = ((sent, interrupted), s)"
    by (metis surj_pair)
  let ?n = "(fst n @ [Send_to (udp_handle c) payload (udp_destination c) sent], s)"
  have os: "os_sendto k (udp_handle c) payload (udp_destination c) n = ((sent, interrupted), ?n)"
    by (simp add: os_sendto_def send logged_def)
  consider (again) "sent < 0" "interrupted" | (failed) "sent < 0" "\<not> interrupted" | (sent) "0 \<le> sent" by linarith
  then show ?case
  proof cases
    case again
    with run os have "f k payload c ?n = Some (r, c', n')" by simp
    from IH [OF this] again show ?thesis by simp
  next
    case failed
    with run os have "r \<noteq> Inr ()" "udp_close k (c, ?n) = (c', n')" by auto
    with failed udp_close_datagrams [of k "(c, ?n)"] show ?thesis by simp
  next
    case sent
    with run os show ?thesis by auto
  qed
qed

text \<open>Sending the chunks offers a prefix of them, and all of them when it succeeds.\<close>

lemma send_chunks_datagrams:
  "send_chunks k chunks st = Some (r, st') \<Longrightarrow>
     \<exists>ds. prefix ds chunks \<and> datagrams (fst (snd st')) = datagrams (fst (snd st)) @ ds \<and>
       (r = Inr () \<longrightarrow> ds = chunks)"
proof (induction chunks arbitrary: st)
  case (Cons chunk chunks)
  from Cons.prems obtain q st1 where step: "udp_send k chunk st = Some (q, st1)"
    by (cases "udp_send k chunk st") auto
  have one: "datagrams (fst (snd st1)) = datagrams (fst (snd st)) @ (if q = Inr () then [chunk] else [])"
  proof -
    obtain c n where st: "st = (c, n)" by (cases st)
    obtain c1 n1 where st1: "st1 = (c1, n1)" by (cases st1)
    show ?thesis
      using step udp_send_loop_datagrams [of k chunk c n q c1 n1]
      by (auto simp: udp_send_def st st1 split: if_splits)
  qed
  show ?case
  proof (cases q)
    case (Inl e)
    with Cons.prems step one show ?thesis by (intro exI [of _ "[]"]) auto
  next
    case (Inr u)
    with Cons.prems step have "send_chunks k chunks st1 = Some (r, st')" by simp
    from Cons.IH [OF this] obtain ds where "prefix ds chunks"
      "datagrams (fst (snd st')) = datagrams (fst (snd st1)) @ ds" "r = Inr () \<longrightarrow> ds = chunks" by blast
    with one Inr show ?thesis by (intro exI [of _ "chunk # ds"]) simp
  qed
qed simp

lemma send_chunks_returns: "interrupts_end k \<mu> \<Longrightarrow> send_chunks k chunks st \<noteq> None"
proof (induction chunks arbitrary: st)
  case (Cons chunk chunks)
  have "udp_send k chunk st \<noteq> None"
    using udp_send_loop_returns [OF Cons.prems] by (auto simp: udp_send_def split: prod.split)
  with Cons show ?case by (auto split: option.split sum.split)
qed simp

section \<open>The loop meets the contract\<close>

interpretation gelf_retry: write_retry "gu_attempt k chunks" "gu_recover k" "gu_write_loop k chunks"
  "\<lambda>st. gu_statistics (fst st)" for k chunks
proof (unfold_locales, goal_cases)
  case (1 n backoff x)
  show ?case by (rule gu_write_loop.simps)
next
  case (2 x r x')
  then show ?case
    by (auto simp: gu_attempt_def gu_record_failure_def split: prod.splits option.splits sum.splits)
next
  case (3 backoff x)
  show ?case by (auto simp: gu_recover_def gu_configure_transport_def split: prod.splits)
qed

lemma gu_attempt_datagrams:
  assumes "gu_attempt k chunks x = Some (r, x')"
  shows "\<exists>ds. prefix ds chunks \<and> datagrams (fst (snd x')) = datagrams (fst (snd x)) @ ds \<and>
    (r = Inr () \<longrightarrow> ds = chunks)"
proof -
  obtain sk n where x: "x = (sk, n)" by (cases x)
  from assms obtain q c m where run: "send_chunks k chunks (gu_client sk, n) = Some (q, c, m)"
    by (auto simp: gu_attempt_def x split: option.splits)
  with assms have "r = Inr () \<longrightarrow> q = Inr ()" "snd x' = m"
    by (auto simp: gu_attempt_def gu_record_failure_def x split: sum.splits)
  with send_chunks_datagrams [OF run] x show ?thesis by auto
qed

lemma gu_recover_datagrams: "datagrams (fst (snd (snd (gu_recover k b x)))) = datagrams (fst (snd x))"
proof -
  obtain sk n where x: "x = (sk, n)" by (cases x)
  obtain r c m where conf: "udp_configure k (gu_host (gu_options sk)) (gu_port (gu_options sk))
      (gu_client sk, sleep_for k b n) = (r, c, m)" by (metis surj_pair)
  from udp_configure_datagrams [OF conf] conf show ?thesis
    by (simp add: gu_recover_def gu_configure_transport_def x sleep_for_def logged_def)
qed

text \<open>What a write offers are chunks of its message, and all of them when it succeeds.\<close>

lemma gu_loop_datagrams:
  assumes "gu_write_loop k chunks n b x = Some (r, x')"
  shows "\<exists>ds. datagrams (fst (snd x')) = datagrams (fst (snd x)) @ ds \<and> set ds \<subseteq> set chunks \<and>
    (r = Inr () \<longrightarrow> set ds = set chunks)"
proof -
  let ?I = "\<lambda>y. \<exists>ds. datagrams (fst (snd y)) = datagrams (fst (snd x)) @ ds \<and> set ds \<subseteq> set chunks"
  let ?Q = "\<lambda>y. \<exists>ds. datagrams (fst (snd y)) = datagrams (fst (snd x)) @ ds \<and> set ds = set chunks"
  have "if r = Inr () then ?Q x' else ?I x'"
  proof (rule gelf_retry.loop_establishes [where P = ?I and Q = ?Q, OF _ _ _ assms])
    fix y y' :: "'a gelf_sink_state" and q
    assume "?I y" "gu_attempt k chunks y = Some (q, y')"
    then obtain ds es where ds: "datagrams (fst (snd y)) = datagrams (fst (snd x)) @ ds" "set ds \<subseteq> set chunks"
      and es: "prefix es chunks" "datagrams (fst (snd y')) = datagrams (fst (snd y)) @ es"
        "q = Inr () \<longrightarrow> es = chunks"
      using gu_attempt_datagrams by blast
    have "set (ds @ es) \<subseteq> set chunks" using ds(2) set_mono_prefix [OF es(1)] by simp
    with ds(1) es(2) have "?I y'" by (intro exI [of _ "ds @ es"]) simp
    moreover have "?Q y'" if "q = Inr ()"
      using ds es that by (intro exI [of _ "ds @ es"]) auto
    ultimately show "if q = Inr () then ?Q y' else ?I y'" by simp
  next
    fix y :: "'a gelf_sink_state" and b
    assume "?I y"
    then show "?I (snd (gu_recover k b y))" by (simp add: gu_recover_datagrams)
  qed (intro exI [of _ "[]"], simp)
  then show ?thesis by (auto split: if_splits)
qed

lemma gu_write_returns:
  assumes "interrupts_end k \<mu>" "zlib = None" "gu_max_chunk_size (gu_options sk) \<noteq> 12"
  shows "gu_write k zlib now counter event (sk, n) \<noteq> None"
proof -
  have attempt: "gu_attempt k chunks x \<noteq> None" for chunks x
    using send_chunks_returns [OF assms(1), of chunks "(gu_client (fst x), snd x)"]
    by (cases x) (auto simp: gu_attempt_def simp del: not_None_eq split: option.splits sum.splits prod.splits)
  have "gelf_chunks (gu_max_chunk_size (gu_options sk)) i p \<noteq> None" for i p
    using assms(3) by (simp add: gelf_chunks_def Let_def)
  with gelf_retry.loop_returns [OF attempt] assms(2) show ?thesis
    by (auto simp: gu_write_def gu_payload_def Let_def simp del: not_None_eq split: option.split)
qed

section \<open>Properties\<close>

text \<open>
  C19. Delivery over UDP: when a write returns normally, the datagrams the kernel took, however many tries
  it made, fit the chunk size, and a receiver that gets them in any order and any multiplicity
  reassembles the message: the whole payload, except that a message of more than 128 chunks is cut
  off after 128 without any error. A small message is sent as it is.
\<close>

theorem gelf_write_delivers:
  assumes "should_log (gu_base sk) event" "gu_payload zlib sk event = Some payload"
    "12 < unat (gu_max_chunk_size (gu_options sk))"
    "length payload + unat (gu_max_chunk_size (gu_options sk)) < 2 ^ 64"
    "gu_write k zlib now counter event (sk, n) = Some (Inr (), sk', n')"
  shows "\<exists>ds. datagrams (fst n') = datagrams (fst n) @ ds \<and>
    (\<forall>d \<in> set ds. length d \<le> unat (gu_max_chunk_size (gu_options sk))) \<and>
    (if length payload \<le> unat (gu_max_chunk_size (gu_options sk)) then set ds = {payload}
     else \<forall>arrived. set arrived = set ds \<longrightarrow>
       gelf_reassemble (now XOR push_bit 32 counter) arrived =
         Some (take (128 * chunk_room (gu_max_chunk_size (gu_options sk))) payload))"
proof -
  let ?max = "gu_max_chunk_size (gu_options sk)" and ?id = "now XOR push_bit 32 counter"
  from assms(1,2,5) obtain chunks where chunks: "gelf_chunks ?max ?id payload = Some chunks"
    and loop: "gu_write_loop k chunks (gu_retries (gu_options sk)) 10
      (sk\<lparr>gu_statistics := count_attempt (gu_statistics sk)\<rparr>, n) = Some (Inr (), sk', n')"
    by (auto simp: gu_write_def generate_gelf_message_id_def split: option.splits)
  from gu_loop_datagrams [OF loop] obtain ds where ds: "datagrams (fst n') = datagrams (fst n) @ ds"
    "set ds = set chunks" by auto
  note bounds = gelf_chunks_bounded [OF assms(3,4) chunks]
  show ?thesis
  proof (intro exI [of _ ds] conjI)
    show "\<forall>d \<in> set ds. length d \<le> unat ?max" using bounds ds(2) by simp
    show "if length payload \<le> unat ?max then set ds = {payload}
      else \<forall>arrived. set arrived = set ds \<longrightarrow> gelf_reassemble ?id arrived = Some (take (128 * chunk_room ?max) payload)"
    proof (cases "length payload \<le> unat ?max")
      case True
      have "unat (of_nat (length payload) :: u64) = length payload" using assms(4) by (simp add: unat_of_nat)
      with True chunks have "chunks = [payload]" by (simp add: gelf_chunks_def Let_def word_less_nat_alt)
      with ds(2) True show ?thesis by simp
    next
      case False
      with gelf_chunks_reassemble [OF assms(3) _ assms(4) chunks] ds(2) show ?thesis by simp
    qed
  qed (rule ds(1))
qed

text \<open>A sink with chunks of 16 bytes on the example kernel; the first datagram is refused once.\<close>

definition demo_gelf_sink :: gelf_udp_sink where
  "demo_gelf_sink =
     \<lparr>gu_base = plain_base\<lparr>sink_formatter := Some (\<lambda>event. ''0123456789abcdefgh'')\<rparr>,
      gu_options = default_gelf_udp_sink_options\<lparr>gu_max_chunk_size := 16\<rparr>,
      gu_client = \<lparr>udp_handle = 3, udp_destination = ''a''\<rparr>,
      gu_statistics = no_statistics, gu_last_error_message = []\<rparr>"

lemma demo_send_chunks:
  "udp_destination c \<noteq> [] \<Longrightarrow> \<exists>calls'. send_chunks demo_kernel chunks (c, calls, []) = Some (Inr (), c, calls', [])"
proof (induction chunks arbitrary: calls)
  case (Cons d ds)
  have "udp_send demo_kernel d (c, calls, []) =
      Some (Inr (), c, calls @ [Send_to (udp_handle c) d (udp_destination c) (int (length d))], [])"
    using Cons.prems
    by (simp add: udp_send_def udp_send_loop.simps os_sendto_def logged_def demo_kernel_def)
  with Cons show ?case by simp
qed simp

lemma demo_udp_refused:
  "udp_destination c \<noteq> [] \<Longrightarrow> \<exists>calls'. send_chunks demo_kernel (d # ds) (c, calls, [- 2]) =
     Some (Inl (Runtime_Error ''udp send failed''), new_udp_client, calls', [])"
  by (simp add: udp_send_def udp_send_loop.simps os_sendto_def logged_def demo_kernel_def udp_close_def
      new_udp_client_def close_socket_def)

lemma demo_udp_configure:
  "\<exists>calls'. udp_configure demo_kernel host port (new_udp_client, calls, s) =
     (Inr (), \<lparr>udp_handle = 3, udp_destination = ''a''\<rparr>, calls', s)"
  by (simp add: udp_configure_def udp_close_def new_udp_client_def configure_udp_socket_def os_ops
      demo_kernel_def invalid_socket_def)

lemma demo_gelf_loop:
  assumes "gu_client sk = \<lparr>udp_handle = 3, udp_destination = ''a''\<rparr>"
  shows "\<exists>sk' calls'. gu_write_loop demo_kernel (d # ds) (Suc n) b (sk, calls0, [- 2]) = Some (Inr (), sk', calls', []) \<and>
    gu_client sk' = gu_client sk \<and> gu_options sk' = gu_options sk \<and> gu_base sk' = gu_base sk"
proof -
  obtain calls where "send_chunks demo_kernel (d # ds) (gu_client sk, calls0, [- 2]) =
      Some (Inl (Runtime_Error ''udp send failed''), new_udp_client, calls, [])"
    using demo_udp_refused [of "gu_client sk" d ds calls0] assms by auto
  then obtain sk1 where first: "gu_attempt demo_kernel (d # ds) (sk, calls0, [- 2]) =
      Some (Inl (Runtime_Error ''udp send failed''), sk1, calls, [])" "gu_client sk1 = new_udp_client"
    "gu_options sk1 = gu_options sk" "gu_base sk1 = gu_base sk"
    by (simp add: gu_attempt_def gu_record_failure_def)
  have "sleep_for demo_kernel b (calls, []) = (calls @ [Sleep b], [])"
    by (simp add: sleep_for_def logged_def demo_kernel_def)
  with demo_udp_configure [of "gu_host (gu_options sk1)" "gu_port (gu_options sk1)" "calls @ [Sleep b]" "[]"] first(2)
  obtain sk2 calls2 where second: "gu_recover demo_kernel b (sk1, calls, []) = (Inr (), sk2, calls2, [])"
    "gu_client sk2 = \<lparr>udp_handle = 3, udp_destination = ''a''\<rparr>" "gu_options sk2 = gu_options sk1" "gu_base sk2 = gu_base sk1"
    by (auto simp: gu_recover_def gu_configure_transport_def)
  obtain calls3 where "send_chunks demo_kernel (d # ds) (gu_client sk2, calls2, []) = Some (Inr (), gu_client sk2, calls3, [])"
    using demo_send_chunks [of "gu_client sk2" "d # ds" calls2] second(2) by auto
  then obtain sk3 where third: "gu_attempt demo_kernel (d # ds) (sk2, calls2, []) = Some (Inr (), sk3, calls3, [])"
    "gu_client sk3 = gu_client sk2" "gu_options sk3 = gu_options sk2" "gu_base sk3 = gu_base sk2"
    by (simp add: gu_attempt_def)
  have "gu_write_loop demo_kernel (d # ds) (Suc n) b (sk, calls0, [- 2]) =
      gu_write_loop demo_kernel (d # ds) n (next_backoff b) (sk2, calls2, [])"
    unfolding gu_write_loop.simps [of _ _ "Suc n"] first(1) option.case prod.case sum.case old.nat.case second(1) ..
  also have "\<dots> = Some (Inr (), sk3, calls3, [])"
    unfolding gu_write_loop.simps [of _ _ n "next_backoff b" "(sk2, calls2, [])"] third(1) option.case prod.case sum.case ..
  finally show ?thesis using first(3,4) second(2-4) third(2-4) assms by simp
qed

lemma demo_gelf_again:
  assumes "gu_client sk = \<lparr>udp_handle = 3, udp_destination = ''a''\<rparr>"
  shows "\<exists>sk' calls'. gu_write_loop demo_kernel chunks n b (sk, calls0, []) = Some (Inr (), sk', calls', []) \<and>
    gu_client sk' = gu_client sk \<and> gu_options sk' = gu_options sk \<and> gu_base sk' = gu_base sk"
  using demo_send_chunks [of "gu_client sk" chunks calls0] assms
  by (subst gu_write_loop.simps) (auto simp: gu_attempt_def)

theorem gelf_write_delivers_witness:
  "\<exists>sk' n'. gu_write demo_kernel (None :: bytes zlib option) 5 1 demo_event (demo_gelf_sink, [], [- 2]) =
       Some (Inr (), sk', n') \<and>
     gelf_reassemble (5 XOR push_bit 32 1) (rev (datagrams (fst n'))) = Some ''0123456789abcdefgh''"
proof -
  let ?p = "''0123456789abcdefgh''" and ?id = "5 XOR push_bit 32 1 :: u64"
  have sink: "should_log (gu_base demo_gelf_sink) demo_event"
    "gu_payload (None :: bytes zlib option) demo_gelf_sink demo_event = Some ?p"
    "gu_max_chunk_size (gu_options demo_gelf_sink) = 16" "gu_retries (gu_options demo_gelf_sink) = Suc 0"
    by (simp_all add: demo_gelf_sink_def plain_base_def should_log_def gu_payload_def gu_retries_def
        default_gelf_udp_sink_options_def)
  obtain d ds where chunks: "gelf_chunks 16 ?id ?p = Some (d # ds)"
    using gelf_chunks_exact [of 16 ?p ?id] by (simp add: chunk_count_def chunk_room_def upt_rec)
  have "gu_write demo_kernel (None :: bytes zlib option) 5 1 demo_event (demo_gelf_sink, [], [- 2]) =
      gu_write_loop demo_kernel (d # ds) (Suc 0) 10
        (demo_gelf_sink\<lparr>gu_statistics := count_attempt (gu_statistics demo_gelf_sink)\<rparr>, [], [- 2])"
    unfolding gu_write_def using chunks by (simp add: sink generate_gelf_message_id_def)
  then obtain sk' n' where run: "gu_write demo_kernel (None :: bytes zlib option) 5 1 demo_event
      (demo_gelf_sink, [], [- 2]) = Some (Inr (), sk', n')"
    using demo_gelf_loop [of "demo_gelf_sink\<lparr>gu_statistics := count_attempt (gu_statistics demo_gelf_sink)\<rparr>" d ds 0 10 "[]"]
    by (auto simp: demo_gelf_sink_def)
  from gelf_write_delivers [OF sink(1,2) _ _ run] sink(3)
  have "gelf_reassemble ?id (rev (datagrams (fst n'))) = Some ?p"
    by (simp add: chunk_room_def)
  with run show ?thesis by blast
qed

section \<open>A sink without retries\<close>

abbreviation not_configured :: cpp_exception where
  "not_configured \<equiv> Runtime_Error ''udp socket is not configured''"

lemma udp_send_loop_failed:
  "udp_send_loop k payload c n = Some (Inl e, c', n') \<Longrightarrow> \<not> udp_configured c'"
proof (induction k payload c n "(Inl e :: cpp_exception + unit, c', n')" rule: udp_send_loop.raw_induct [rotated 1, consumes 1])
  case (1 f k payload c n)
  note IH = 1(1) and run = 1(2)
  obtain sent interrupted m where os: "os_sendto k (udp_handle c) payload (udp_destination c) n = ((sent, interrupted), m)"
    by (metis surj_pair)
  show ?case
  proof (cases "sent < 0 \<and> interrupted")
    case True
    with run os have "f k payload c m = Some (Inl e, c', n')" by simp
    from IH [OF this] show ?thesis .
  next
    case False
    with run os have "udp_close k (c, m) = (c', n')" by (auto split: if_splits)
    then show ?thesis by (auto simp: udp_close_def udp_configured_def split: if_splits)
  qed
qed

lemma udp_send_failed:
  "k_network_enabled k \<Longrightarrow> udp_send k payload st = Some (Inl e, st') \<Longrightarrow> \<not> udp_configured (fst st')"
  by (cases st; cases st') (auto simp: udp_send_def udp_configured_def dest: udp_send_loop_failed [unfolded udp_configured_def] split: if_splits)

lemma send_chunks_failed:
  "k_network_enabled k \<Longrightarrow> send_chunks k chunks st = Some (Inl e, st') \<Longrightarrow> \<not> udp_configured (fst st')"
proof (induction chunks arbitrary: st)
  case (Cons chunk chunks)
  from Cons.prems(2) obtain q st1 where "udp_send k chunk st = Some (q, st1)"
    by (cases "udp_send k chunk st") auto
  with Cons udp_send_failed [OF Cons.prems(1)] show ?case by (cases q) auto
qed simp

text \<open>What a write finds and leaves in a sink that will not be configured again.\<close>

definition gelf_dead :: "gelf_udp_sink \<Rightarrow> bool" where
  "gelf_dead sk \<longleftrightarrow> gu_retries (gu_options sk) = 0 \<and> \<not> udp_configured (gu_client sk)"

definition same_settings :: "gelf_udp_sink \<Rightarrow> gelf_udp_sink \<Rightarrow> bool" where
  "same_settings sk sk' \<longleftrightarrow> gu_options sk' = gu_options sk \<and> gu_base sk' = gu_base sk"

lemma gu_attempt_settings:
  "gu_attempt k chunks (sk, n) = Some (r, sk', n') \<Longrightarrow> same_settings sk sk'"
  by (auto simp: gu_attempt_def gu_record_failure_def same_settings_def split: option.splits sum.splits)

lemma gu_attempt_fails:
  assumes "k_network_enabled k" "gu_attempt k chunks (sk, n) = Some (Inl e, sk', n')"
  shows "\<not> udp_configured (gu_client sk')"
proof -
  from assms(2) obtain c where "send_chunks k chunks (gu_client sk, n) = Some (Inl e, c, n')" "gu_client sk' = c"
    by (auto simp: gu_attempt_def gu_record_failure_def split: option.splits sum.splits)
  with send_chunks_failed [OF assms(1)] show ?thesis by fastforce
qed

lemma gu_attempt_dead:
  assumes "k_network_enabled k" "gelf_dead sk"
  shows "gu_attempt k (chunk # chunks) (sk, n) = Some (Inl not_configured, gu_record_failure not_configured (sk, n))"
  using assms by (simp add: gu_attempt_def udp_send_def gelf_dead_def udp_configured_def)

lemma gu_loop_final: "gu_write_loop k chunks 0 b x = gu_attempt k chunks x"
  by (subst gu_write_loop.simps) (auto split: option.split sum.split)

lemma gelf_chunks_some:
  assumes "12 < unat max_chunk_size" "length payload + unat max_chunk_size < 2 ^ 64"
  shows "\<exists>chunk chunks. gelf_chunks max_chunk_size message_id payload = Some (chunk # chunks)"
proof (cases "unat max_chunk_size < length payload")
  case True
  have room: "0 < chunk_room max_chunk_size" using assms(1) by (simp add: chunk_room_def)
  have "chunk_room max_chunk_size \<le> length payload + chunk_room max_chunk_size - 1" using True by simp
  then have "0 < (length payload + chunk_room max_chunk_size - 1) div chunk_room max_chunk_size"
    using room by (simp add: div_greater_zero_iff)
  then have "0 < chunk_count max_chunk_size (length payload)" by (simp add: chunk_count_def)
  with gelf_chunks_exact [OF assms(1) True assms(2), of message_id] show ?thesis by (simp add: upt_rec)
next
  case False
  moreover have "unat (of_nat (length payload) :: u64) = length payload" using assms(2) by (simp add: unat_of_nat)
  ultimately show ?thesis by (simp add: gelf_chunks_def Let_def word_less_nat_alt)
qed

text \<open>Writes one after the other, each with the clock and the counter it sees.\<close>

fun gu_write_all ::
  "'o kernel \<Rightarrow> 'z zlib option \<Rightarrow> (u64 \<times> u64 \<times> log_event) list \<Rightarrow> 'o gelf_sink_state
     \<Rightarrow> ((cpp_exception + unit) list \<times> 'o gelf_sink_state) option"
where
  "gu_write_all k zlib [] st = Some ([], st)"
| "gu_write_all k zlib ((now, counter, event) # calls) st =
     (case gu_write k zlib now counter event st of
        None \<Rightarrow> None
      | Some (r, st) \<Rightarrow>
          (case gu_write_all k zlib calls st of None \<Rightarrow> None | Some (rs, st) \<Rightarrow> Some (r # rs, st)))"

definition ordinary_write :: "'z zlib option \<Rightarrow> gelf_udp_sink \<Rightarrow> log_event \<Rightarrow> bool" where
  "ordinary_write zlib sk event \<longleftrightarrow> should_log (gu_base sk) event \<and>
     12 < unat (gu_max_chunk_size (gu_options sk)) \<and>
     (\<forall>payload. gu_payload zlib sk event = Some payload \<longrightarrow>
        length payload + unat (gu_max_chunk_size (gu_options sk)) < 2 ^ 64)"

lemma ordinary_settings: "same_settings sk sk' \<Longrightarrow> ordinary_write zlib sk' event = ordinary_write zlib sk event"
proof -
  assume "same_settings sk sk'"
  then have eqs: "gu_options sk' = gu_options sk" "gu_base sk' = gu_base sk" by (simp_all add: same_settings_def)
  show ?thesis unfolding ordinary_write_def gu_payload_def eqs ..
qed

lemma gu_write_attempt:
  assumes "ordinary_write zlib sk event" "gu_retries (gu_options sk) = 0"
    "gu_write k zlib now counter event (sk, n) = Some (r, sk', n')"
  obtains chunk chunks where "gu_attempt k (chunk # chunks)
    (sk\<lparr>gu_statistics := count_attempt (gu_statistics sk)\<rparr>, n) = Some (r, sk', n')"
proof -
  from assms(1,3) obtain payload where payload: "gu_payload zlib sk event = Some payload"
    by (auto simp: gu_write_def ordinary_write_def split: option.splits)
  with assms(1) gelf_chunks_some [of "gu_max_chunk_size (gu_options sk)" payload] obtain chunk chunks where
    "gelf_chunks (gu_max_chunk_size (gu_options sk)) (fst (generate_gelf_message_id now counter)) payload =
      Some (chunk # chunks)" unfolding ordinary_write_def by blast
  with assms payload that show thesis by (simp add: gu_write_def ordinary_write_def gu_loop_final)
qed

lemma dead_writes:
  assumes "k_network_enabled k"
  shows "gelf_dead sk \<Longrightarrow> \<forall>(now, counter, event) \<in> set calls. ordinary_write zlib sk event \<Longrightarrow>
    gu_write_all k zlib calls (sk, n) = Some (rs, sk', n') \<Longrightarrow> set rs \<subseteq> {Inl not_configured} \<and> n' = n"
proof (induction calls arbitrary: sk rs)
  case (Cons call calls)
  obtain now counter event where call: "call = (now, counter, event)" by (metis surj_pair)
  let ?sk = "sk\<lparr>gu_statistics := count_attempt (gu_statistics sk)\<rparr>"
  from Cons.prems(3) obtain r sk1 n1 qs where step: "gu_write k zlib now counter event (sk, n) = Some (r, sk1, n1)"
    "gu_write_all k zlib calls (sk1, n1) = Some (qs, sk', n')" "rs = r # qs"
    by (auto simp: call split: option.splits)
  have "ordinary_write zlib sk event" "gu_retries (gu_options sk) = 0"
    using Cons.prems(1,2) by (auto simp: call gelf_dead_def)
  from gu_write_attempt [OF this step(1)] obtain chunk chunks where
    att: "gu_attempt k (chunk # chunks) (?sk, n) = Some (r, sk1, n1)" by blast
  moreover have "gelf_dead ?sk" using Cons.prems(1) by (simp add: gelf_dead_def)
  ultimately have one: "r = Inl not_configured" "(sk1, n1) = gu_record_failure not_configured (?sk, n)"
    using gu_attempt_dead [OF assms, of ?sk chunk chunks n] by simp_all
  then have next_one: "n1 = n" "gelf_dead sk1" "same_settings sk sk1"
    using Cons.prems(1) by (simp_all add: gu_record_failure_def gelf_dead_def same_settings_def)
  have "\<forall>(now, counter, event) \<in> set calls. ordinary_write zlib sk1 event"
    using Cons.prems(2) unfolding ordinary_settings [OF next_one(3)] by simp
  from Cons.IH [OF next_one(2) this] step(2,3) one(1) next_one(1) show ?case by simp
qed simp

text \<open>
  C40. Without retries (\<^verbatim>\<open>reconnect_on_failure\<close> off, or \<^verbatim>\<open>max_write_retries\<close> zero) one failed send ends the
  sink for good: the failure closes the socket, only a retry would configure it again, and every
  later write throws without a single call of the kernel, whatever the kernel would accept.
\<close>

theorem gelf_failure_is_final:
  assumes "k_network_enabled k" "gu_retries (gu_options sk) = 0" "ordinary_write zlib sk event"
    "gu_write k zlib now counter event (sk, n) = Some (Inl e, sk', n')"
    "\<forall>(now, counter, event) \<in> set later. ordinary_write zlib sk event"
    "gu_write_all k zlib later (sk', n') = Some (rs, sk'', n'')"
  shows "set rs \<subseteq> {Inl (Runtime_Error ''udp socket is not configured'')} \<and> n'' = n'"
proof -
  from gu_write_attempt [OF assms(3,2,4)] obtain chunk chunks where att: "gu_attempt k (chunk # chunks)
    (sk\<lparr>gu_statistics := count_attempt (gu_statistics sk)\<rparr>, n) = Some (Inl e, sk', n')" by blast
  have settings: "same_settings sk sk'" using gu_attempt_settings [OF att] by (simp add: same_settings_def)
  with gu_attempt_fails [OF assms(1) att] assms(2) have "gelf_dead sk'"
    by (simp add: gelf_dead_def same_settings_def)
  moreover have "\<forall>(now, counter, event) \<in> set later. ordinary_write zlib sk' event"
    using assms(5) unfolding ordinary_settings [OF settings] .
  ultimately show ?thesis using dead_writes [OF assms(1)] assms(6) by blast
qed

definition frail_sink :: gelf_udp_sink where
  "frail_sink =
     demo_gelf_sink\<lparr>gu_options := (gu_options demo_gelf_sink)\<lparr>gu_reconnect_on_failure := False\<rparr>\<rparr>"

lemma frail_write:
  "\<exists>sk' n'. gu_write demo_kernel (None :: bytes zlib option) 5 1 demo_event (frail_sink, [], [- 2]) =
      Some (Inl (Runtime_Error ''udp send failed''), sk', n') \<and> same_settings frail_sink sk'"
proof -
  let ?p = "''0123456789abcdefgh''" and ?sk = "frail_sink\<lparr>gu_statistics := count_attempt (gu_statistics frail_sink)\<rparr>"
  have sink: "should_log (gu_base frail_sink) demo_event"
    "gu_payload (None :: bytes zlib option) frail_sink demo_event = Some ?p"
    "gu_max_chunk_size (gu_options frail_sink) = 16" "gu_retries (gu_options frail_sink) = 0"
    "gu_client frail_sink = \<lparr>udp_handle = 3, udp_destination = ''a''\<rparr>"
    by (simp_all add: frail_sink_def demo_gelf_sink_def plain_base_def should_log_def gu_payload_def gu_retries_def
        default_gelf_udp_sink_options_def)
  obtain d ds where chunks: "gelf_chunks 16 (fst (generate_gelf_message_id 5 1)) ?p = Some (d # ds)"
    using gelf_chunks_some [of 16 ?p "fst (generate_gelf_message_id 5 1)"] by auto
  obtain calls where "send_chunks demo_kernel (d # ds) (gu_client frail_sink, [], [- 2]) =
      Some (Inl (Runtime_Error ''udp send failed''), new_udp_client, calls, [])"
    using demo_udp_refused [of "gu_client frail_sink" d ds "[]"] by (auto simp: sink(5))
  then obtain sk' where att: "gu_attempt demo_kernel (d # ds) (?sk, [], [- 2]) =
      Some (Inl (Runtime_Error ''udp send failed''), sk', calls, [])"
    by (simp add: gu_attempt_def gu_record_failure_def)
  then have "gu_write demo_kernel (None :: bytes zlib option) 5 1 demo_event (frail_sink, [], [- 2]) =
      Some (Inl (Runtime_Error ''udp send failed''), sk', calls, [])"
    unfolding gu_write_def by (simp add: sink chunks gu_loop_final)
  moreover have "same_settings frail_sink sk'"
    using gu_attempt_settings [OF att] by (simp add: same_settings_def)
  ultimately show ?thesis by blast
qed

theorem gelf_failure_is_final_witness:
  "\<exists>sk' n' r sk'' n''. gu_write demo_kernel (None :: bytes zlib option) 5 1 demo_event (frail_sink, [], [- 2]) =
       Some (Inl (Runtime_Error ''udp send failed''), sk', n') \<and>
     gu_write_all demo_kernel (None :: bytes zlib option) [(6, 2, demo_event)] (sk', n') = Some ([r], sk'', n'') \<and>
     r = Inl (Runtime_Error ''udp socket is not configured'') \<and> n'' = n'"
proof -
  let ?z = "None :: bytes zlib option"
  obtain sk' n' where first: "gu_write demo_kernel ?z 5 1 demo_event (frail_sink, [], [- 2]) =
      Some (Inl (Runtime_Error ''udp send failed''), sk', n')" "same_settings frail_sink sk'"
    using frail_write by blast
  have size: "gu_max_chunk_size (gu_options frail_sink) = 16"
    by (simp add: frail_sink_def demo_gelf_sink_def)
  have ordinary: "ordinary_write ?z frail_sink demo_event" and none: "gu_retries (gu_options frail_sink) = 0"
    by (simp_all add: ordinary_write_def frail_sink_def demo_gelf_sink_def plain_base_def should_log_def
        gu_payload_def gu_retries_def)
  have "gu_write demo_kernel ?z 6 2 demo_event (sk', n') \<noteq> None"
    using first(2) size by (intro gu_write_returns [OF demo_kernel_ok(2) refl]) (simp add: same_settings_def)
  then obtain r sk'' n'' where "gu_write demo_kernel ?z 6 2 demo_event (sk', n') = Some (r, sk'', n'')"
    by (metis not_None_eq surj_pair)
  then have later: "gu_write_all demo_kernel ?z [(6, 2, demo_event)] (sk', n') = Some ([r], sk'', n'')" by simp
  from gelf_failure_is_final [OF demo_flags(2) none ordinary first(1) _ later] ordinary
  have "r = Inl (Runtime_Error ''udp socket is not configured'') \<and> n'' = n'" by simp
  with first(1) later show ?thesis by blast
qed

end
