(* ===== verification/Gelf_Writers.thy ===== *)
theory Gelf_Writers
  imports Net_Writers Gelf_Udp_Sink
begin

text \<open>
  Threads sharing a GELF sink: \<^verbatim>\<open>gelf_udp_sink::write\<close> as the steps of theory \<open>Net_Writers\<close>. The chunks are
  made before the lock, with an id from the clock and a counter all threads share; datagrams of
  different writes may come between the tries of a write, and the receiver tells them apart by id.
\<close>

unbundle bit_operations_syntax

section \<open>Message ids\<close>





text \<open>A message made \<open>2 ^ 32\<close> ticks (four seconds) after another, one after it, may have its id.\<close>

lemma message_ids_collide:
  "\<not> bit t 32 \<Longrightarrow> \<not> bit c 0 \<Longrightarrow>
     fst (generate_gelf_message_id (t + 2 ^ 32) (c + 1)) = fst (generate_gelf_message_id t c)"
proof -
  assume t: "\<not> bit t 32" and c: "\<not> bit c 0"
  have "t AND push_bit k 1 = 0" if "\<not> bit t k" for k
    by (rule bit_word_eqI) (use that in \<open>auto simp: bit_and_iff bit_exp_iff bit_push_bit_iff bit_1_iff\<close>)
  from disjunctive_add_eq_xor [OF this [OF t]] have t': "t + 2 ^ 32 = t XOR push_bit 32 1" by (simp add: push_bit_eq_mult)
  have "c AND 1 = 0" by (rule bit_word_eqI) (use c in \<open>auto simp: bit_and_iff bit_1_iff intro!: gr0I\<close>)
  from disjunctive_add_eq_xor [OF this] have c': "c + 1 = c XOR 1" .
  show ?thesis unfolding t' c' generate_gelf_message_id_def
    by (simp add: push_bit_xor) (auto simp: bit_eq_iff bit_xor_iff)
qed

section \<open>The sink\<close>

type_synonym gelf_message = "u64 \<times> u64 \<times> bytes list"

record 'o gelf_shared =
  gs_sink :: "'o gelf_sink_state"
  gs_counter :: u64
  gs_made :: "gelf_message list"





definition on_sink :: "('o gelf_sink_state \<Rightarrow> 'o gelf_sink_state) \<Rightarrow> 'o gelf_shared \<Rightarrow> 'o gelf_shared" where
  "on_sink f x = x\<lparr>gs_sink := f (gs_sink x)\<rparr>"


section \<open>What is on the wire\<close>














lemma on_sink_fields [simp]:
  "gs_sink (on_sink f x) = f (gs_sink x)" "gs_made (on_sink f x) = gs_made x" "gs_counter (on_sink f x) = gs_counter x"
  by (simp_all add: on_sink_def)








section \<open>Alone\<close>




lemma on_sink_twice [simp]: "on_sink (\<lambda>_. st') (on_sink f x) = on_sink (\<lambda>_. st') x"
  by (simp add: on_sink_def)



section \<open>Ids\<close>



section \<open>Delivery\<close>












end
