(* ===== verification/File_Sink.thy ===== *)
theory File_Sink
  imports Sink Json Zlib_Helper
begin

text \<open>
  \<^verbatim>\<open>src/sinks/file_sink.cpp\<close>: a file that is rotated by size. The file system is a map from paths to
  contents; which of its operations succeed is a parameter, as the code ignores their error codes.
  Text handed to an open stream counts as written: the buffer of the stream is not modelled.
\<close>

section \<open>File system and stream\<close>

type_synonym files = "bytes \<rightharpoonup> bytes"

text \<open>
  \<^verbatim>\<open>fe_append_tellp\<close> is what \<^verbatim>\<open>tellp\<close> reports on a stream opened for appending, from the size of the
  file when it was opened and the bytes written since: the standard leaves the initial position
  open. \<^verbatim>\<open>fe_sentry_throws\<close> says whether inserting into a failed stream throws again, and
  \<^verbatim>\<open>fe_failure\<close> is the message of \<^verbatim>\<open>std::ios_base::failure\<close>; both are up to the library. \<^verbatim>\<open>fe_zlib\<close>
  is None when zlib is not compiled in.
\<close>

record 'z file_env =
  fe_can_open :: "bytes \<Rightarrow> files \<Rightarrow> bool"
  fe_can_rename :: "bytes \<Rightarrow> bytes \<Rightarrow> files \<Rightarrow> bool"
  fe_can_remove :: "bytes \<Rightarrow> files \<Rightarrow> bool"
  fe_can_stat :: "bytes \<Rightarrow> files \<Rightarrow> bool"
  fe_can_read :: "bytes \<Rightarrow> files \<Rightarrow> bool"
  fe_append_tellp :: "nat \<Rightarrow> nat \<Rightarrow> int"
  fe_sentry_throws :: bool
  fe_failure :: string
  fe_zlib :: "'z zlib option"

definition fs_remove :: "'z file_env \<Rightarrow> bytes \<Rightarrow> files \<Rightarrow> files" where
  "fs_remove e p fs = (if fe_can_remove e p fs then fs(p := None) else fs)"

definition fs_rename :: "'z file_env \<Rightarrow> bytes \<Rightarrow> bytes \<Rightarrow> files \<Rightarrow> files" where
  "fs_rename e source target fs =
     (if fe_can_rename e source target fs then (fs(source := None))(target := fs source) else fs)"

text \<open>\<^verbatim>\<open>open\<close> on an output stream: None is a failure.\<close>

definition fs_open :: "'z file_env \<Rightarrow> bool \<Rightarrow> bytes \<Rightarrow> files \<Rightarrow> files option" where
  "fs_open e appending p fs =
     (if fe_can_open e p fs
      then Some (fs(p \<mapsto> (if appending then (case fs p of Some t \<Rightarrow> t | None \<Rightarrow> []) else [])))
      else None)"

record ofstream =
  stream_good :: bool
  stream_exceptions :: bool
  stream_append :: bool
  stream_base :: nat
  stream_written :: nat

definition closed_stream :: ofstream where
  "closed_stream = \<lparr>stream_good = True, stream_exceptions = False, stream_append = False,
     stream_base = 0, stream_written = 0\<rparr>"

definition tellp :: "'z file_env \<Rightarrow> ofstream \<Rightarrow> int" where
  "tellp e s =
     (if \<not> stream_good s then - 1
      else if stream_append s then fe_append_tellp e (stream_base s) (stream_written s)
      else int (stream_written s))"

section \<open>The sink\<close>

record file_sink_options =
  fo_path :: bytes
  fo_format :: sink_format
  fo_append :: bool
  fo_max_file_size :: u64
  fo_max_files :: u32
  fo_compress_rotated :: bool

definition default_file_sink_options :: "bytes \<Rightarrow> file_sink_options" where
  "default_file_sink_options path =
     \<lparr>fo_path = path, fo_format = Json_Lines, fo_append = True, fo_max_file_size = 0, fo_max_files = 0,
      fo_compress_rotated = False\<rparr>"

record file_sink =
  fk_base :: sink_base
  fk_options :: file_sink_options
  fk_stream :: ofstream

type_synonym file_state = "file_sink \<times> files"

text \<open>
  Once the exceptions of the stream are enabled, a failing \<^verbatim>\<open>open\<close> throws by itself, before the test of
  \<^verbatim>\<open>is_open\<close>.
\<close>

definition open_file :: "'z file_env \<Rightarrow> file_state \<Rightarrow> (cpp_exception + unit) \<times> file_state" where
  "open_file e st =
     (case st of (sk, fs) \<Rightarrow>
        (let options = fk_options sk
         in case fs_open e (fo_append options) (fo_path options) fs of
              None \<Rightarrow>
                (Inl (Runtime_Error
                   (if stream_exceptions (fk_stream sk) then fe_failure e
                    else ''file_sink could not open output file'')),
                 sk\<lparr>fk_stream := (fk_stream sk)\<lparr>stream_good := False\<rparr>\<rparr>, fs)
            | Some fs' \<Rightarrow>
                (Inr (),
                 sk\<lparr>fk_stream := \<lparr>stream_good = True, stream_exceptions = True,
                      stream_append = fo_append options,
                      stream_base = length (the (fs' (fo_path options))), stream_written = 0\<rparr>\<rparr>,
                 fs')))"

definition new_file_sink ::
  "'z file_env \<Rightarrow> file_sink_options \<Rightarrow> files \<Rightarrow> (cpp_exception + file_sink) \<times> files" where
  "new_file_sink e options fs =
     (case open_file e (\<lparr>fk_base = plain_base, fk_options = options, fk_stream = closed_stream\<rparr>, fs) of
        (Inl x, sk, fs) \<Rightarrow> (Inl x, fs)
      | (Inr u, sk, fs) \<Rightarrow> (Inr sk, fs))"

definition get_rotated_path :: "'z file_env \<Rightarrow> file_sink_options \<Rightarrow> nat \<Rightarrow> bytes" where
  "get_rotated_path e options index =
     fo_path options @ ''.'' @ dec_nat index
       @ (if fe_zlib e \<noteq> None \<and> fo_compress_rotated options then ''.gz'' else '''')"

text \<open>
  The current file becomes the first rotated file: compressed into it, or renamed. A file that cannot be
  read is compressed as that many zero bytes. None is a compressor that does not return.
\<close>

definition rotate_current :: "'z file_env \<Rightarrow> file_sink_options \<Rightarrow> bytes \<Rightarrow> files \<Rightarrow> files option" where
  "rotate_current e options target fs =
     (let source = fo_path options
      in case fs source of
           None \<Rightarrow> Some fs
         | Some content \<Rightarrow>
             (case fe_zlib e of
                Some z \<Rightarrow>
                  if fo_compress_rotated options
                  then
                    if fe_can_stat e source fs
                    then
                      (let input = (if fe_can_read e source fs then content
                                    else replicate (length content) (CHR 0x00))
                       in case gzip_compress z input [] of
                            None \<Rightarrow> None
                          | Some (True, compressed) \<Rightarrow>
                              (case fs_open e False target fs of
                                 Some fs' \<Rightarrow> Some (fs'(target \<mapsto> compressed))
                               | None \<Rightarrow> Some fs)
                          | Some (False, compressed) \<Rightarrow> Some (fs_rename e source target fs))
                    else Some (fs_rename e source target fs)
                  else Some (fs_rename e source target fs)
              | None \<Rightarrow> Some (fs_rename e source target fs)))"

text \<open>The loop from \<^verbatim>\<open>max_files\<close> down to 1.\<close>

fun rotate_loop :: "'z file_env \<Rightarrow> file_sink_options \<Rightarrow> nat \<Rightarrow> files \<Rightarrow> files option" where
  "rotate_loop e options 0 fs = Some fs"
| "rotate_loop e options (Suc j) fs =
     (let target = get_rotated_path e options (Suc j);
          fs = (if Suc j = unat (fo_max_files options) then fs_remove e target fs else fs)
      in if j \<noteq> 0
         then (let source = get_rotated_path e options j
               in rotate_loop e options j (if fs source \<noteq> None then fs_rename e source target fs else fs))
         else rotate_current e options target fs)"

definition rotate_if_needed :: "'z file_env \<Rightarrow> file_state \<Rightarrow> ((cpp_exception + unit) \<times> file_state) option" where
  "rotate_if_needed e st =
     (case st of (sk, fs) \<Rightarrow>
        (let options = fk_options sk; current_size = tellp e (fk_stream sk)
         in if fo_max_file_size options = 0 then Some (Inr (), st)
            else if current_size < 0 \<or> current_size < uint (fo_max_file_size options) then Some (Inr (), st)
            else
              (case rotate_loop e options (unat (fo_max_files options)) fs of
                 None \<Rightarrow> None
               | Some fs \<Rightarrow> Some (open_file e (sk\<lparr>fk_options := options\<lparr>fo_append := False\<rparr>\<rparr>, fs)))))"

definition sink_text :: "sink_base \<Rightarrow> sink_format \<Rightarrow> log_event \<Rightarrow> bytes" where
  "sink_text b format event =
     (case sink_formatter b of
        Some f \<Rightarrow> f event
      | None \<Rightarrow>
          if format = Json_Lines then to_json_lines_record event
          else format_human_readable event @ [newline])"

definition stream_put :: "'z file_env \<Rightarrow> bytes \<Rightarrow> file_state \<Rightarrow> (cpp_exception + unit) \<times> file_state" where
  "stream_put e text st =
     (case st of (sk, fs) \<Rightarrow>
        (let s = fk_stream sk; p = fo_path (fk_options sk)
         in if stream_good s
            then (Inr (), sk\<lparr>fk_stream := s\<lparr>stream_written := stream_written s + length text\<rparr>\<rparr>,
                  fs(p \<mapsto> the (fs p) @ text))
            else if fe_sentry_throws e \<and> stream_exceptions s then (Inl (Runtime_Error (fe_failure e)), st)
            else (Inr (), st)))"

definition file_write :: "'z file_env \<Rightarrow> log_event \<Rightarrow> file_state \<Rightarrow> ((cpp_exception + unit) \<times> file_state) option" where
  "file_write e event st =
     (if \<not> should_log (fk_base (fst st)) event then Some (Inr (), st)
      else
        (case rotate_if_needed e st of
           None \<Rightarrow> None
         | Some (Inl x, st) \<Rightarrow> Some (Inl x, st)
         | Some (Inr u, sk, fs) \<Rightarrow>
             Some (stream_put e (sink_text (fk_base sk) (fo_format (fk_options sk)) event) (sk, fs))))"

definition file_flush :: "file_state \<Rightarrow> file_state" where
  "file_flush st = st"

text \<open>A caller goes on after a write that throws.\<close>

fun file_write_all ::
  "'z file_env \<Rightarrow> log_event list \<Rightarrow> file_state \<Rightarrow> ((cpp_exception + unit) list \<times> file_state) option" where
  "file_write_all e [] st = Some ([], st)"
| "file_write_all e (event # events) st =
     (case file_write e event st of
        None \<Rightarrow> None
      | Some (r, st) \<Rightarrow>
          (case file_write_all e events st of None \<Rightarrow> None | Some (rs, st) \<Rightarrow> Some (r # rs, st)))"

end
