(* ===== verification/File_Rotation.thy ===== *)
theory File_Rotation
  imports File_Sink "HOL-Library.Sublist"
begin

text \<open>
  What rotation does to the files of theory \<open>File_Sink\<close>: it shifts them by one, so that together they
  always hold the end of what was written, compressed or not, and none of them outgrows the limit.
\<close>

section \<open>Rotation shifts the files\<close>

definition operations_succeed :: "'z file_env \<Rightarrow> bool" where
  "operations_succeed e \<longleftrightarrow>
     (\<forall>p fs. fe_can_open e p fs) \<and> (\<forall>p fs. fe_can_remove e p fs) \<and> (\<forall>p q fs. fe_can_rename e p q fs)"

lemma rotated_distinct [simp]:
  "get_rotated_path e options i = get_rotated_path e options j \<longleftrightarrow> i = j"
  "get_rotated_path e options i \<noteq> fo_path options"
  "fo_path options \<noteq> get_rotated_path e options i"
  by (simp_all add: get_rotated_path_def)

lemma rename_succeeds: "operations_succeed e \<Longrightarrow> fs_rename e p q fs = (fs(p := None))(q := fs p)"
  by (simp add: operations_succeed_def fs_rename_def)

lemma remove_succeeds: "operations_succeed e \<Longrightarrow> fs_remove e p fs = fs(p := None)"
  by (simp add: operations_succeed_def fs_remove_def)

text \<open>
  Rotated files read back: \<open>dec\<close> gives the text of a rotated file, by inflating it when it was
  compressed. zlib is documented by \<open>deflate_contract\<close>.
\<close>

definition compresses :: "'z file_env \<Rightarrow> file_sink_options \<Rightarrow> bool" where
  "compresses e options \<longleftrightarrow> fe_zlib e \<noteq> None \<and> fo_compress_rotated options"

definition reads_rotated :: "'z file_env \<Rightarrow> file_sink_options \<Rightarrow> (bytes \<Rightarrow> bytes) \<Rightarrow> bool" where
  "reads_rotated e options dec \<longleftrightarrow>
     (if compresses e options
      then (\<forall>p fs. fe_can_stat e p fs \<and> fe_can_read e p fs) \<and>
        (\<exists>inflate. deflate_contract (the (fe_zlib e)) inflate \<and> dec = (\<lambda>c. the (inflate c)))
      else dec = (\<lambda>c. c))"

definition decoded :: "'z file_env \<Rightarrow> file_sink_options \<Rightarrow> (bytes \<Rightarrow> bytes) \<Rightarrow> files \<Rightarrow> files" where
  "decoded e options dec fs =
     (\<lambda>p. if p \<in> range (get_rotated_path e options) then map_option dec (fs p) else fs p)"

lemma decoded_at [simp]:
  "decoded e options dec fs (get_rotated_path e options i) = map_option dec (fs (get_rotated_path e options i))"
  "decoded e options dec fs (fo_path options) = fs (fo_path options)"
  "decoded e options dec (fs(fo_path options := x)) = (decoded e options dec fs)(fo_path options := x)"
  "decoded e options (\<lambda>c. c) fs = fs"
  by (auto simp: decoded_def fun_eq_iff option.map_id [unfolded id_def])

lemma gzip_small:
  assumes "deflate_contract z inflate" "length input < 2 ^ 32"
  shows "\<exists>c. gzip_compress z input [] = Some (True, c) \<and> the (inflate c) = input"
proof -
  have "31 \<in> {15, 31 :: int}" by simp
  from compress_contract [OF assms(1) this, of input] obtain bs where
    "inflate (concat bs) = Some (take (length input mod 2 ^ 32) input)" "compress_impl z input [] 31 = Some (True, concat bs)" by blast
  with assms(2) show ?thesis by (simp add: gzip_compress_def)
qed

lemma rotate_current_reads:
  assumes "operations_succeed e" "reads_rotated e options dec" "fs (get_rotated_path e options i) = None"
    "compresses e options \<longrightarrow> (\<forall>t. fs (fo_path options) = Some t \<longrightarrow> length t < 2 ^ 32)"
  shows "\<exists>fs'. rotate_current e options (get_rotated_path e options i) fs = Some fs' \<and>
    map_option dec (fs' (get_rotated_path e options i)) = fs (fo_path options) \<and>
    (\<forall>j. j \<noteq> i \<longrightarrow> fs' (get_rotated_path e options j) = fs (get_rotated_path e options j))"
proof (cases "fs (fo_path options)")
  case None
  then show ?thesis using assms(3) by (simp add: rotate_current_def)
next
  case (Some t)
  show ?thesis
  proof (cases "compresses e options")
    case True
    then obtain z where z: "fe_zlib e = Some z" "fo_compress_rotated options" by (auto simp: compresses_def)
    with True assms(2) obtain inflate where inf: "deflate_contract z inflate" "dec = (\<lambda>c. the (inflate c))"
      "fe_can_stat e p fs" "fe_can_read e p fs" for p fs by (auto simp: reads_rotated_def)
    from gzip_small [OF inf(1), of t] assms(4) True Some obtain c where
      "gzip_compress z t [] = Some (True, c)" "the (inflate c) = t" by blast
    with Some z inf assms(1) show ?thesis
      by (simp add: rotate_current_def fs_open_def operations_succeed_def Let_def)
  next
    case False
    then have "dec = (\<lambda>c. c)" using assms(2) by (simp add: reads_rotated_def)
    moreover have "rotate_current e options (get_rotated_path e options i) fs =
        Some (fs_rename e (fo_path options) (get_rotated_path e options i) fs)"
      using False Some by (auto simp: rotate_current_def compresses_def Let_def split: option.split)
    ultimately show ?thesis
      by (simp add: rename_succeeds [OF assms(1)] option.map_id [unfolded id_def])
  qed
qed

text \<open>Every file of the family moves up by one; the oldest is gone.\<close>

definition shifted :: "'z file_env \<Rightarrow> file_sink_options \<Rightarrow> nat \<Rightarrow> files \<Rightarrow> files \<Rightarrow> bool" where
  "shifted e options k fs fs' \<longleftrightarrow>
     (\<forall>i. 1 < i \<and> i \<le> k \<longrightarrow> fs' (get_rotated_path e options i) = fs (get_rotated_path e options (i - 1))) \<and>
     (1 \<le> k \<longrightarrow> fs' (get_rotated_path e options 1) = fs (fo_path options)) \<and>
     (\<forall>i > k. fs' (get_rotated_path e options i) = fs (get_rotated_path e options i))"

lemma rotate_loop_shifts:
  assumes "operations_succeed e" "reads_rotated e options dec"
  defines "D \<equiv> decoded e options dec"
  shows "1 \<le> k \<Longrightarrow> fs (get_rotated_path e options k) = None \<or> k = unat (fo_max_files options) \<Longrightarrow>
    (compresses e options \<longrightarrow> (\<forall>t. fs (fo_path options) = Some t \<longrightarrow> length t < 2 ^ 32)) \<Longrightarrow>
    \<exists>fs'. rotate_loop e options k fs = Some fs' \<and> shifted e options k (D fs) (D fs')"
proof (induction k arbitrary: fs)
  case (Suc j)
  let ?r = "get_rotated_path e options"
  define fs1 where "fs1 = (if Suc j = unat (fo_max_files options) then fs_remove e (?r (Suc j)) fs else fs)"
  have free: "fs1 (?r (Suc j)) = None" and same: "p \<noteq> ?r (Suc j) \<Longrightarrow> fs1 p = fs p" for p
    using Suc.prems(2) by (auto simp: fs1_def remove_succeeds [OF assms(1)])
  show ?case
  proof (cases "j = 0")
    case True
    then have run: "rotate_loop e options (Suc j) fs = rotate_current e options (?r 1) fs1"
      by (simp add: fs1_def Let_def)
    have small: "compresses e options \<longrightarrow> (\<forall>t. fs1 (fo_path options) = Some t \<longrightarrow> length t < 2 ^ 32)"
      using Suc.prems(3) same by simp
    have "fs1 (?r 1) = None" using free True by simp
    from rotate_current_reads [OF assms(1,2) this small] obtain fs' where
      fs': "rotate_current e options (?r 1) fs1 = Some fs'" "map_option dec (fs' (?r 1)) = fs1 (fo_path options)"
      "\<forall>j. j \<noteq> 1 \<longrightarrow> fs' (?r j) = fs1 (?r j)" by blast
    from fs'(2,3) have "shifted e options (Suc j) (D fs) (D fs')"
      using same True by (auto simp: shifted_def D_def)
    then show ?thesis using fs'(1) unfolding run by blast
  next
    case False
    define fs2 where "fs2 = (if fs1 (?r j) \<noteq> None then fs_rename e (?r j) (?r (Suc j)) fs1 else fs1)"
    have moved: "fs2 = (fs1(?r j := None))(?r (Suc j) := fs1 (?r j))"
      using free by (auto simp: fs2_def rename_succeeds [OF assms(1)] fun_eq_iff)
    have run: "rotate_loop e options (Suc j) fs = rotate_loop e options j fs2"
      using False by (simp add: fs1_def fs2_def Let_def)
    have "fs2 (?r j) = None" "fs2 (fo_path options) = fs (fo_path options)" by (simp_all add: moved same)
    with Suc.IH [of fs2] Suc.prems(3) False obtain fs' where fs': "rotate_loop e options j fs2 = Some fs'"
      "shifted e options j (D fs2) (D fs')" by auto
    have "shifted e options (Suc j) (D fs) (D fs')"
      unfolding shifted_def
    proof (intro conjI allI impI)
      fix i
      assume i: "1 < i \<and> i \<le> Suc j"
      show "D fs' (?r i) = D fs (?r (i - 1))"
      proof (cases "i = Suc j")
        case True
        with fs'(2) have "D fs' (?r i) = D fs2 (?r i)" by (simp add: shifted_def)
        with True show ?thesis by (simp add: D_def moved same)
      next
        case False
        with i fs'(2) have "D fs' (?r i) = D fs2 (?r (i - 1))" by (simp add: shifted_def)
        with i False show ?thesis by (auto simp: D_def moved same)
      qed
    next
      have "D fs' (?r 1) = D fs2 (fo_path options)" using fs'(2) False by (simp add: shifted_def)
      then show "D fs' (?r 1) = D fs (fo_path options)" by (simp add: D_def moved same)
    next
      fix i
      assume "Suc j < i"
      with fs'(2) have "D fs' (?r i) = D fs2 (?r i)" by (simp add: shifted_def)
      with \<open>Suc j < i\<close> show "D fs' (?r i) = D fs (?r i)" by (simp add: D_def moved same)
    qed
    with run fs'(1) show ?thesis by simp
  qed
qed simp

section \<open>The history in the files\<close>

definition content :: "files \<Rightarrow> bytes \<Rightarrow> bytes" where
  "content fs p = (case fs p of Some t \<Rightarrow> t | None \<Rightarrow> [])"

text \<open>The rotated files from the oldest to the newest, then the current one.\<close>

definition history :: "'z file_env \<Rightarrow> file_sink_options \<Rightarrow> files \<Rightarrow> bytes" where
  "history e options fs =
     concat (map (\<lambda>i. content fs (get_rotated_path e options i)) (rev [1..<Suc (unat (fo_max_files options))]))
       @ content fs (fo_path options)"

text \<open>No gap: a rotated file exists only if the newer ones do.\<close>

definition no_gap :: "'z file_env \<Rightarrow> file_sink_options \<Rightarrow> files \<Rightarrow> bool" where
  "no_gap e options fs \<longleftrightarrow>
     (\<forall>i. 1 \<le> i \<and> i < unat (fo_max_files options) \<longrightarrow>
        fs (get_rotated_path e options (Suc i)) \<noteq> None \<longrightarrow> fs (get_rotated_path e options i) \<noteq> None)"

lemma concat_shift:
  assumes "\<forall>i. 1 < i \<and> i \<le> n \<longrightarrow> g i = f (i - 1)" "g 1 = x" "1 \<le> n"
  shows "concat (map f (rev [1..<Suc n])) @ x = f n @ concat (map g (rev [1..<Suc n]))"
proof -
  obtain m where n: "n = Suc m" using assms(3) by (cases n) auto
  have "[1..<Suc n] = 1 # map Suc [1..<n]"
    using assms(3) by (simp add: upt_conv_Cons map_Suc_upt del: upt_Suc)
  then have "map g (rev [1..<Suc n]) = map (\<lambda>i. g (Suc i)) (rev [1..<n]) @ [x]"
    using assms(2) by (simp add: rev_map comp_def del: upt_Suc)
  also have "map (\<lambda>i. g (Suc i)) (rev [1..<n]) = map f (rev [1..<n])" using assms(1) by simp
  finally show ?thesis using assms(3) by simp
qed

lemma rotated_append [simp]:
  "get_rotated_path e (options\<lparr>fo_append := b\<rparr>) = get_rotated_path e options"
  "history e (options\<lparr>fo_append := b\<rparr>) = history e options"
  "no_gap e (options\<lparr>fo_append := b\<rparr>) = no_gap e options"
  "compresses e (options\<lparr>fo_append := b\<rparr>) = compresses e options"
  "reads_rotated e (options\<lparr>fo_append := b\<rparr>) = reads_rotated e options"
  by (simp_all add: get_rotated_path_def history_def no_gap_def fun_eq_iff compresses_def reads_rotated_def)

lemma no_gap_decoded [simp]: "no_gap e options (decoded e options dec fs) = no_gap e options fs"
  by (simp add: no_gap_def)

lemma history_put:
  "fs (fo_path options) = Some t \<Longrightarrow> history e options (fs(fo_path options \<mapsto> t @ text)) = history e options fs @ text"
  by (simp add: history_def content_def)

text \<open>One rotation loses at most the oldest file, and that only when the family is full.\<close>

lemma history_shift:
  assumes "n = unat (fo_max_files options)" "n = 0 \<and> fs' = fs \<or> 1 \<le> n \<and> shifted e options n fs fs'"
  shows "\<exists>lost. history e options fs = lost @ history e options (fs'(fo_path options \<mapsto> [])) \<and>
    (lost \<noteq> [] \<longrightarrow> n = 0 \<or> fs (get_rotated_path e options n) \<noteq> None)"
proof (cases "n = 0")
  case True
  then show ?thesis using assms(1) by (simp add: history_def content_def)
next
  case False
  let ?r = "get_rotated_path e options"
  let ?fs = "fs'(fo_path options \<mapsto> [])"
  from False assms(2) have sh: "shifted e options n fs fs'" "1 \<le> n" by auto
  have "concat (map (\<lambda>i. content fs (?r i)) (rev [1..<Suc n])) @ content fs (fo_path options) =
      content fs (?r n) @ concat (map (\<lambda>i. content ?fs (?r i)) (rev [1..<Suc n]))"
    using sh by (intro concat_shift) (auto simp: shifted_def content_def)
  then have "history e options fs = content fs (?r n) @ history e options ?fs"
    using assms(1) by (simp add: history_def content_def del: upt_Suc)
  then show ?thesis by (auto simp: content_def split: option.splits)
qed

lemma no_gap_shift:
  assumes "n = unat (fo_max_files options)" "1 \<le> n" "shifted e options n fs fs'" "no_gap e options fs"
    "fs (fo_path options) \<noteq> None"
  shows "no_gap e options (fs'(fo_path options \<mapsto> t)) \<and>
    (fs (get_rotated_path e options n) \<noteq> None \<longrightarrow> fs' (get_rotated_path e options n) \<noteq> None)"
proof -
  let ?r = "get_rotated_path e options"
  have old: "fs' (?r (Suc i)) = fs (?r i)" if "1 \<le> i" "Suc i \<le> n" for i
    using assms(3) that by (auto simp: shifted_def)
  have first: "fs' (?r 1) = fs (fo_path options)" using assms(2,3) by (simp add: shifted_def)
  have gap: "fs (?r (Suc i)) \<noteq> None \<Longrightarrow> fs (?r i) \<noteq> None" if "1 \<le> i" "i < n" for i
    using assms(1,4) that by (auto simp: no_gap_def)
  have "fs' (?r (Suc i)) \<noteq> None \<Longrightarrow> fs' (?r i) \<noteq> None" if i: "1 \<le> i" "i < n" for i
  proof (cases "i = 1")
    case True
    then show ?thesis using first assms(5) by simp
  next
    case False
    then obtain j where j: "i = Suc j" "1 \<le> j" using i by (cases i) auto
    then show "fs' (?r (Suc i)) \<noteq> None \<Longrightarrow> fs' (?r i) \<noteq> None"
      using old [of i] old [of j] gap [of j] i by simp
  qed
  then have "no_gap e options (fs'(fo_path options \<mapsto> t))"
    using assms(1) by (simp add: no_gap_def)
  moreover have "fs' (?r n) \<noteq> None" if "fs (?r n) \<noteq> None"
  proof (cases "n = 1")
    case True
    then show ?thesis using first assms(5) by simp
  next
    case False
    then obtain j where j: "n = Suc j" "1 \<le> j" using assms(2) by (cases n) auto
    then show ?thesis using old [of j] gap [of j] that by simp
  qed
  ultimately show ?thesis by blast
qed

section \<open>A sink in use\<close>

text \<open>A sink whose file is open; options change only in \<^verbatim>\<open>append\<close>.\<close>

definition healthy :: "sink_base \<Rightarrow> file_sink_options \<Rightarrow> file_state \<Rightarrow> bool" where
  "healthy b options st \<longleftrightarrow>
     (case st of (sk, fs) \<Rightarrow>
        fk_base sk = b \<and> (fk_options sk)\<lparr>fo_append := False\<rparr> = options\<lparr>fo_append := False\<rparr> \<and>
        stream_good (fk_stream sk) \<and> fs (fo_path options) \<noteq> None)"

definition rotates :: "'z file_env \<Rightarrow> file_sink_options \<Rightarrow> ofstream \<Rightarrow> bool" where
  "rotates e options s \<longleftrightarrow>
     fo_max_file_size options \<noteq> 0 \<and> uint (fo_max_file_size options) \<le> tellp e s"

lemma same_options:
  assumes "(o1 :: file_sink_options)\<lparr>fo_append := False\<rparr> = o2\<lparr>fo_append := False\<rparr>"
  shows "fo_path o1 = fo_path o2" "fo_format o1 = fo_format o2" "fo_max_file_size o1 = fo_max_file_size o2"
    "fo_max_files o1 = fo_max_files o2" "fo_compress_rotated o1 = fo_compress_rotated o2"
    "get_rotated_path e o1 = get_rotated_path e o2" "compresses e o1 = compresses e o2"
    "reads_rotated e o1 = reads_rotated e o2"
  using arg_cong [OF assms, of fo_path] arg_cong [OF assms, of fo_format] arg_cong [OF assms, of fo_max_file_size]
    arg_cong [OF assms, of fo_max_files] arg_cong [OF assms, of fo_compress_rotated]
    arg_cong [OF assms, of "get_rotated_path e"] arg_cong [OF assms, of "compresses e"]
    arg_cong [OF assms, of "reads_rotated e"] by simp_all

text \<open>
  With compression the current file must stay below 4 GiB: it does when \<^verbatim>\<open>tellp\<close> is exact and the limit
  plus the longest record, of \<open>l\<close> bytes, does not exceed it.
\<close>

definition exact_tellp :: "'z file_env \<Rightarrow> bool" where
  "exact_tellp e \<longleftrightarrow> (\<forall>b w. fe_append_tellp e b w = int (b + w))"

definition fits :: "'z file_env \<Rightarrow> file_sink_options \<Rightarrow> nat \<Rightarrow> file_state \<Rightarrow> bool" where
  "fits e options l st \<longleftrightarrow>
     (compresses e options \<and> fo_max_file_size options \<noteq> 0 \<longrightarrow>
        exact_tellp e \<and> unat (fo_max_file_size options) + l \<le> 2 ^ 32 \<and>
        tellp e (fk_stream (fst st)) = int (length (content (snd st) (fo_path options))) \<and>
        length (content (snd st) (fo_path options)) < 2 ^ 32)"

text \<open>A write, when the operations of the file system succeed.\<close>

lemma fits_put:
  assumes "fits e options l (sk, fs)" "\<not> rotates e options (fk_stream sk)" "fs (fo_path options) \<noteq> None"
    "stream_good (fk_stream sk)" "compresses e options \<longrightarrow> length text < l"
  shows "fits e options l (sk\<lparr>fk_stream := (fk_stream sk)\<lparr>stream_written := stream_written (fk_stream sk) + length text\<rparr>\<rparr>,
    fs(fo_path options \<mapsto> the (fs (fo_path options)) @ text))"
proof (cases "compresses e options \<and> fo_max_file_size options \<noteq> 0")
  case True
  obtain t where t: "fs (fo_path options) = Some t" using assms(3) by auto
  have len: "tellp e (fk_stream sk) = int (length t)" and room: "unat (fo_max_file_size options) + l \<le> 2 ^ 32"
    and exact: "exact_tellp e"
    using assms(1) True t by (simp_all add: fits_def content_def)
  have "int (length t) < uint (fo_max_file_size options)"
    using assms(2) True len by (simp add: rotates_def)
  then have "length t < unat (fo_max_file_size options)" unfolding uint_nat by (simp only: of_nat_less_iff)
  then have "length (t @ text) < 2 ^ 32" using room assms(5) True by simp
  moreover have "tellp e ((fk_stream sk)\<lparr>stream_written := stream_written (fk_stream sk) + length text\<rparr>) = int (length (t @ text))"
    using len exact assms(4) by (auto simp: tellp_def exact_tellp_def split: if_splits)
  ultimately show ?thesis using room exact t by (simp add: fits_def content_def)
qed (auto simp: fits_def)

lemma file_write_step:
  assumes "operations_succeed e" "reads_rotated e options dec" "healthy b options (sk, fs)" "should_log b event"
    "fits e options l (sk, fs)" "compresses e options \<longrightarrow> length (sink_text b (fo_format options) event) < l"
  defines "D \<equiv> decoded e options dec" and "text \<equiv> sink_text b (fo_format options) event" and "n \<equiv> unat (fo_max_files options)"
  shows "\<exists>sk' fs'. file_write e event (sk, fs) = Some (Inr (), sk', fs') \<and> healthy b options (sk', fs') \<and>
    fits e options l (sk', fs') \<and>
    (if rotates e options (fk_stream sk)
     then \<exists>fs1. (n = 0 \<and> fs1 = fs \<or> 1 \<le> n \<and> shifted e options n (D fs) (D fs1)) \<and>
       fs' = fs1(fo_path options \<mapsto> text) \<and> tellp e (fk_stream sk') = int (length text)
     else fs' = fs(fo_path options \<mapsto> the (fs (fo_path options)) @ text) \<and>
       fk_stream sk' = (fk_stream sk)\<lparr>stream_written := stream_written (fk_stream sk) + length text\<rparr>)"
proof -
  let ?o = "fk_options sk"
  have sk: "fk_base sk = b" "?o\<lparr>fo_append := False\<rparr> = options\<lparr>fo_append := False\<rparr>"
    "stream_good (fk_stream sk)" "fs (fo_path options) \<noteq> None"
    using assms(3) by (simp_all add: healthy_def)
  note same = same_options [OF sk(2)]
  show ?thesis
  proof (cases "rotates e options (fk_stream sk)")
    case False
    then have "rotate_if_needed e (sk, fs) = Some (Inr (), sk, fs)"
      by (auto simp: rotate_if_needed_def rotates_def same Let_def)
    then have run: "file_write e event (sk, fs) =
        Some (Inr (), sk\<lparr>fk_stream := (fk_stream sk)\<lparr>stream_written := stream_written (fk_stream sk) + length text\<rparr>\<rparr>,
          fs(fo_path options \<mapsto> the (fs (fo_path options)) @ text))" (is "_ = Some (Inr (), ?sk, ?fs)")
      using sk assms(4) same by (simp add: file_write_def stream_put_def text_def Let_def)
    have "healthy b options (?sk, ?fs)" using sk by (simp add: healthy_def)
    moreover have "fits e options l (?sk, ?fs)"
      using assms(5,6) False sk(3,4) fits_put [of e options l sk fs "text"] by (auto simp: text_def)
    ultimately show ?thesis using run False by simp
  next
    case True
    have "\<exists>fs1. rotate_loop e ?o n fs = Some fs1 \<and> (n = 0 \<and> fs1 = fs \<or> 1 \<le> n \<and> shifted e options n (D fs) (D fs1))"
    proof (cases "n = 0")
      case False
      then have "1 \<le> n" "n = unat (fo_max_files ?o)" by (simp_all add: n_def same)
      moreover have "compresses e ?o \<longrightarrow> (\<forall>t. fs (fo_path ?o) = Some t \<longrightarrow> length t < 2 ^ 32)"
        using assms(5) True by (auto simp: fits_def content_def rotates_def same)
      moreover have "reads_rotated e ?o dec" using assms(2) by (simp add: same)
      ultimately obtain fs1 where
        "rotate_loop e ?o n fs = Some fs1" "shifted e ?o n (decoded e ?o dec fs) (decoded e ?o dec fs1)"
        using rotate_loop_shifts [of e ?o dec n fs] assms(1) by blast
      then have "shifted e options n (D fs) (D fs1)" by (simp add: shifted_def same D_def decoded_def)
      with \<open>rotate_loop e ?o n fs = Some fs1\<close> \<open>1 \<le> n\<close> show ?thesis by blast
    qed simp
    then obtain fs1 where fs1: "rotate_loop e ?o n fs = Some fs1"
      "n = 0 \<and> fs1 = fs \<or> 1 \<le> n \<and> shifted e options n (D fs) (D fs1)" by blast
    let ?sk = "sk\<lparr>fk_options := ?o\<lparr>fo_append := False\<rparr>,
      fk_stream := \<lparr>stream_good = True, stream_exceptions = True, stream_append = False, stream_base = 0, stream_written = 0\<rparr>\<rparr>"
    have "\<not> tellp e (fk_stream sk) < 0"
      using True by (auto simp: rotates_def not_less intro: order_trans [OF uint_nonnegative])
    then have "rotate_if_needed e (sk, fs) = Some (Inr (), ?sk, fs1(fo_path options \<mapsto> []))"
      using True fs1(1) assms(1)
      by (auto simp: rotate_if_needed_def rotates_def same Let_def n_def open_file_def fs_open_def operations_succeed_def)
    then have run: "file_write e event (sk, fs) =
        Some (Inr (), ?sk\<lparr>fk_stream := (fk_stream ?sk)\<lparr>stream_written := length text\<rparr>\<rparr>, fs1(fo_path options \<mapsto> text))"
      using sk(1) assms(4) same by (simp add: file_write_def stream_put_def text_def Let_def)
    moreover have "fits e options l (?sk\<lparr>fk_stream := (fk_stream ?sk)\<lparr>stream_written := length text\<rparr>\<rparr>, fs1(fo_path options \<mapsto> text))"
      using assms(5,6) by (auto simp: fits_def content_def tellp_def text_def)
    ultimately show ?thesis
      using sk True fs1(2) by (simp add: healthy_def tellp_def same) blast
  qed
qed

abbreviation written_text :: "file_sink_options \<Rightarrow> log_event \<Rightarrow> bytes" where
  "written_text options event \<equiv> sink_text plain_base (fo_format options) event"

lemma plain_logs [simp]: "should_log plain_base event"
  by (simp add: should_log_def plain_base_def)

text \<open>What one write does to the history.\<close>

lemma file_write_history:
  assumes "operations_succeed e" "reads_rotated e options dec" "healthy plain_base options (sk, fs)"
    "no_gap e options fs" "fits e options l (sk, fs)"
    "compresses e options \<longrightarrow> length (written_text options event) < l"
  defines "D \<equiv> decoded e options dec" and "oldest \<equiv> get_rotated_path e options (unat (fo_max_files options))"
  shows "\<exists>sk' fs' lost. file_write e event (sk, fs) = Some (Inr (), sk', fs') \<and>
    healthy plain_base options (sk', fs') \<and> no_gap e options fs' \<and> fits e options l (sk', fs') \<and>
    history e options (D fs) @ written_text options event = lost @ history e options (D fs') \<and>
    (0 < fo_max_files options \<longrightarrow>
       (lost \<noteq> [] \<longrightarrow> fs oldest \<noteq> None) \<and> (fs oldest \<noteq> None \<longrightarrow> fs' oldest \<noteq> None))"
proof -
  let ?n = "unat (fo_max_files options)" and ?text = "written_text options event"
  have path: "fs (fo_path options) \<noteq> None" using assms(3) by (simp add: healthy_def)
  then obtain t where t: "fs (fo_path options) = Some t" by auto
  from file_write_step [OF assms(1-3) plain_logs [of event] assms(5,6)] obtain sk' fs' where
    step: "file_write e event (sk, fs) = Some (Inr (), sk', fs')" "healthy plain_base options (sk', fs')" "fits e options l (sk', fs')"
    and rot: "if rotates e options (fk_stream sk)
      then \<exists>fs1. (?n = 0 \<and> fs1 = fs \<or> 1 \<le> ?n \<and> shifted e options ?n (D fs) (D fs1)) \<and>
        fs' = fs1(fo_path options \<mapsto> ?text) \<and> tellp e (fk_stream sk') = int (length ?text)
      else fs' = fs(fo_path options \<mapsto> the (fs (fo_path options)) @ ?text) \<and>
        fk_stream sk' = (fk_stream sk)\<lparr>stream_written := stream_written (fk_stream sk) + length ?text\<rparr>"
    unfolding D_def by blast
  have Dt: "D fs (fo_path options) = Some t" by (simp add: D_def t)
  show ?thesis
  proof (cases "rotates e options (fk_stream sk)")
    case False
    with rot t have fs': "fs' = fs(fo_path options \<mapsto> t @ ?text)" by simp
    have "no_gap e options fs'" using assms(4) by (simp add: no_gap_def fs')
    moreover have "history e options (D fs) @ ?text = [] @ history e options (D fs')"
      using history_put [of "D fs" options t e ?text, OF Dt] by (simp add: fs' D_def)
    ultimately show ?thesis
      using step by (intro exI [of _ sk'] exI [of _ fs'] exI [of _ "[]"]) (auto simp: fs' oldest_def)
  next
    case True
    with rot obtain fs1 where fs1: "?n = 0 \<and> fs1 = fs \<or> 1 \<le> ?n \<and> shifted e options ?n (D fs) (D fs1)"
      "fs' = fs1(fo_path options \<mapsto> ?text)" by auto
    then have moved: "?n = 0 \<and> D fs1 = D fs \<or> 1 \<le> ?n \<and> shifted e options ?n (D fs) (D fs1)" by auto
    from history_shift [OF refl moved] obtain lost where lost:
      "history e options (D fs) = lost @ history e options ((D fs1)(fo_path options \<mapsto> []))"
      "lost \<noteq> [] \<longrightarrow> ?n = 0 \<or> fs oldest \<noteq> None" unfolding oldest_def D_def by auto
    have "history e options (D fs') = history e options ((D fs1)(fo_path options \<mapsto> [])) @ ?text"
      using history_put [of "(D fs1)(fo_path options \<mapsto> [])" options "[]" e ?text] by (simp add: fs1(2) D_def)
    with lost(1) have "history e options (D fs) @ ?text = lost @ history e options (D fs')" by simp
    moreover have "no_gap e options fs' \<and> (1 \<le> ?n \<longrightarrow> fs oldest \<noteq> None \<longrightarrow> fs' oldest \<noteq> None)"
    proof (cases "1 \<le> ?n")
      case True
      with fs1 have "shifted e options ?n (D fs) (D fs1)" by auto
      from no_gap_shift [OF refl True this, of ?text] assms(4) Dt
      have "no_gap e options ((D fs1)(fo_path options \<mapsto> ?text))" "D fs oldest \<noteq> None \<longrightarrow> D fs1 oldest \<noteq> None"
        by (simp_all add: D_def oldest_def)
      moreover have "no_gap e options fs' = no_gap e options ((D fs1)(fo_path options \<mapsto> ?text))"
        using no_gap_decoded [of e options dec fs'] by (simp add: fs1(2) D_def)
      ultimately show ?thesis by (simp add: D_def oldest_def fs1(2))
    next
      case False
      then show ?thesis by (simp add: no_gap_def)
    qed
    moreover have "0 < fo_max_files options \<longleftrightarrow> 1 \<le> ?n"
      by (simp add: word_less_nat_alt Suc_le_eq)
    ultimately show ?thesis
      using step lost(2) by (intro exI [of _ sk'] exI [of _ fs'] exI [of _ lost]) auto
  qed
qed

lemma file_write_all_history:
  assumes "operations_succeed e" "reads_rotated e options dec"
  defines "D \<equiv> decoded e options dec" and "oldest \<equiv> get_rotated_path e options (unat (fo_max_files options))"
  shows "healthy plain_base options (sk, fs) \<Longrightarrow> no_gap e options fs \<Longrightarrow> fits e options l (sk, fs) \<Longrightarrow>
    (compresses e options \<longrightarrow> (\<forall>event \<in> set events. length (written_text options event) < l)) \<Longrightarrow>
    \<exists>sk' fs' lost. file_write_all e events (sk, fs) = Some (map (\<lambda>event. Inr ()) events, sk', fs') \<and>
      history e options (D fs) @ concat (map (written_text options) events) = lost @ history e options (D fs') \<and>
      (0 < fo_max_files options \<longrightarrow>
         (lost \<noteq> [] \<longrightarrow> fs' oldest \<noteq> None) \<and> (fs oldest \<noteq> None \<longrightarrow> fs' oldest \<noteq> None))"
proof (induction events arbitrary: sk fs)
  case Nil
  then show ?case by (intro exI [of _ sk] exI [of _ fs] exI [of _ "[]"]) simp
next
  case (Cons event events)
  have short: "compresses e options \<longrightarrow> length (written_text options event) < l"
    "compresses e options \<longrightarrow> (\<forall>event \<in> set events. length (written_text options event) < l)"
    using Cons.prems(4) by simp_all
  from file_write_history [OF assms(1,2) Cons.prems(1-3) short(1)] obtain sk1 fs1 lost1 where one:
    "file_write e event (sk, fs) = Some (Inr (), sk1, fs1)" "healthy plain_base options (sk1, fs1)"
    "no_gap e options fs1" "fits e options l (sk1, fs1)"
    "history e options (D fs) @ written_text options event = lost1 @ history e options (D fs1)"
    "0 < fo_max_files options \<longrightarrow> (lost1 \<noteq> [] \<longrightarrow> fs oldest \<noteq> None) \<and> (fs oldest \<noteq> None \<longrightarrow> fs1 oldest \<noteq> None)"
    unfolding oldest_def D_def by blast
  from Cons.IH [OF one(2-4) short(2)] obtain sk' fs' lost2 where rest:
    "file_write_all e events (sk1, fs1) = Some (map (\<lambda>event. Inr ()) events, sk', fs')"
    "history e options (D fs1) @ concat (map (written_text options) events) = lost2 @ history e options (D fs')"
    "0 < fo_max_files options \<longrightarrow> (lost2 \<noteq> [] \<longrightarrow> fs' oldest \<noteq> None) \<and> (fs1 oldest \<noteq> None \<longrightarrow> fs' oldest \<noteq> None)"
    by blast
  have "history e options (D fs) @ concat (map (written_text options) (event # events)) =
      (lost1 @ lost2) @ history e options (D fs')"
    using one(5) rest(2) by (metis append.assoc concat.simps(2) list.simps(9))
  with one(1,6) rest(1,3) show ?case
    by (intro exI [of _ sk'] exI [of _ fs'] exI [of _ "lost1 @ lost2"]) auto
qed

lemma new_file_sink_healthy:
  assumes "operations_succeed e" "new_file_sink e options fs = (Inr sk, fs')"
  shows "healthy plain_base options (sk, fs') \<and> (\<forall>p. p \<noteq> fo_path options \<longrightarrow> fs' p = fs p)"
  using assms by (auto simp: new_file_sink_def open_file_def fs_open_def operations_succeed_def healthy_def Let_def)

text \<open>Sizes, for a \<^verbatim>\<open>tellp\<close> that is exact on appended files; the files are given decoded.\<close>

definition family :: "'z file_env \<Rightarrow> file_sink_options \<Rightarrow> bytes set" where
  "family e options = insert (fo_path options) (get_rotated_path e options ` {1..unat (fo_max_files options)})"

definition sizes_below :: "'z file_env \<Rightarrow> file_sink_options \<Rightarrow> nat \<Rightarrow> file_state \<Rightarrow> bool" where
  "sizes_below e options m st \<longleftrightarrow>
     (case st of (sk, fs) \<Rightarrow>
        tellp e (fk_stream sk) = int (length (content fs (fo_path options))) \<and>
        (\<forall>p \<in> family e options. length (content fs p) < m))"

lemma file_write_sizes:
  assumes "operations_succeed e" "reads_rotated e options dec" "exact_tellp e" "fo_max_file_size options \<noteq> 0"
    "healthy plain_base options (sk, fs)" "fits e options (Suc l) (sk, fs)" "length (written_text options event) \<le> l"
  defines "D \<equiv> decoded e options dec" and "m \<equiv> unat (fo_max_file_size options)"
  assumes "sizes_below e options (m + l) (sk, D fs)"
  shows "\<exists>sk' fs'. file_write e event (sk, fs) = Some (Inr (), sk', fs') \<and> healthy plain_base options (sk', fs') \<and>
    fits e options (Suc l) (sk', fs') \<and> sizes_below e options (m + l) (sk', D fs')"
proof -
  let ?n = "unat (fo_max_files options)" and ?text = "written_text options event" and ?p = "fo_path options"
  have m: "0 < m" using assms(4) by (simp add: m_def word_neq_0_conv word_less_nat_alt)
  obtain t where t: "fs ?p = Some t" using assms(5) by (auto simp: healthy_def)
  have "compresses e options \<longrightarrow> length ?text < Suc l" using assms(7) by simp
  from file_write_step [OF assms(1,2,5) plain_logs [of event] assms(6) this] obtain sk' fs' where
    step: "file_write e event (sk, fs) = Some (Inr (), sk', fs')" "healthy plain_base options (sk', fs')"
      "fits e options (Suc l) (sk', fs')"
    and rot: "if rotates e options (fk_stream sk)
      then \<exists>fs1. (?n = 0 \<and> fs1 = fs \<or> 1 \<le> ?n \<and> shifted e options ?n (D fs) (D fs1)) \<and>
        fs' = fs1(?p \<mapsto> ?text) \<and> tellp e (fk_stream sk') = int (length ?text)
      else fs' = fs(?p \<mapsto> the (fs ?p) @ ?text) \<and>
        fk_stream sk' = (fk_stream sk)\<lparr>stream_written := stream_written (fk_stream sk) + length ?text\<rparr>"
    unfolding D_def by blast
  have old: "length (content (D fs) p) < m + l" if "p \<in> family e options" for p
    using assms(10) that by (simp add: sizes_below_def)
  have "sizes_below e options (m + l) (sk', D fs')"
  proof (cases "rotates e options (fk_stream sk)")
    case False
    with rot have fs': "D fs' = (D fs)(?p \<mapsto> t @ ?text)"
      "fk_stream sk' = (fk_stream sk)\<lparr>stream_written := stream_written (fk_stream sk) + length ?text\<rparr>"
      by (simp_all add: t D_def)
    have len: "tellp e (fk_stream sk) = int (length t)"
      using assms(10) t by (simp add: sizes_below_def content_def D_def)
    then have "int (length t) < uint (fo_max_file_size options)"
      using False assms(4) by (simp add: rotates_def)
    then have small: "length t < m" unfolding m_def uint_nat by (simp only: of_nat_less_iff)
    have "tellp e (fk_stream sk') = int (length (t @ ?text))"
      using len assms(3,5) by (auto simp: tellp_def fs'(2) healthy_def exact_tellp_def split: if_splits)
    moreover have "length (content (D fs') p) < m + l" if "p \<in> family e options" for p
      using old [OF that] small assms(7) by (cases "p = ?p") (simp_all add: fs'(1) content_def)
    ultimately show ?thesis by (simp add: sizes_below_def fs'(1) content_def)
  next
    case True
    with rot obtain fs1 where fs1: "?n = 0 \<and> fs1 = fs \<or> 1 \<le> ?n \<and> shifted e options ?n (D fs) (D fs1)"
      "D fs' = (D fs1)(?p \<mapsto> ?text)" "tellp e (fk_stream sk') = int (length ?text)" by (auto simp: D_def)
    have "length (content (D fs1) (get_rotated_path e options i)) < m + l" if i: "1 \<le> i" "i \<le> ?n" for i
    proof -
      from i fs1(1) have "1 \<le> ?n" and sh: "shifted e options ?n (D fs) (D fs1)" by auto
      show ?thesis
      proof (cases "i = 1")
        case True
        with sh \<open>1 \<le> ?n\<close> have "D fs1 (get_rotated_path e options i) = D fs ?p" by (simp add: shifted_def)
        with old [of ?p] show ?thesis by (simp add: content_def family_def)
      next
        case False
        with sh i have "D fs1 (get_rotated_path e options i) = D fs (get_rotated_path e options (i - 1))"
          by (simp add: shifted_def)
        moreover have "get_rotated_path e options (i - 1) \<in> family e options"
          using i False by (simp add: family_def) (rule imageI, simp, linarith)
        ultimately show ?thesis using old by (simp add: content_def)
      qed
    qed
    then have "length (content (D fs') p) < m + l" if "p \<in> family e options" for p
      using that m assms(7) by (auto simp: family_def fs1(2) content_def)
    with fs1(2,3) show ?thesis by (simp add: sizes_below_def content_def)
  qed
  with step show ?thesis by blast
qed

lemma file_write_all_sizes:
  assumes "operations_succeed e" "reads_rotated e options dec" "exact_tellp e" "fo_max_file_size options \<noteq> 0"
  defines "D \<equiv> decoded e options dec" and "m \<equiv> unat (fo_max_file_size options)"
  shows "healthy plain_base options (sk, fs) \<Longrightarrow> fits e options (Suc l) (sk, fs) \<Longrightarrow>
    \<forall>event \<in> set events. length (written_text options event) \<le> l \<Longrightarrow>
    sizes_below e options (m + l) (sk, D fs) \<Longrightarrow>
    file_write_all e events (sk, fs) = Some (rs, sk', fs') \<Longrightarrow> sizes_below e options (m + l) (sk', D fs')"
proof (induction events arbitrary: sk fs rs)
  case (Cons event events)
  have "length (written_text options event) \<le> l" using Cons.prems(3) by simp
  from file_write_sizes [OF assms(1-4) Cons.prems(1,2) this] Cons.prems(4) obtain sk1 fs1 where one:
    "file_write e event (sk, fs) = Some (Inr (), sk1, fs1)" "healthy plain_base options (sk1, fs1)"
    "fits e options (Suc l) (sk1, fs1)" "sizes_below e options (m + l) (sk1, D fs1)"
    unfolding D_def m_def by blast
  with Cons.prems(5) obtain qs where "file_write_all e events (sk1, fs1) = Some (qs, sk', fs')"
    by (auto split: option.splits)
  with Cons.IH [OF one(2,3) _ one(4)] Cons.prems(3) show ?case by simp
qed simp

text \<open>After a failed reopening the stream stays bad: nothing is ever written again.\<close>

lemma failed_stream_write:
  "\<not> stream_good (fk_stream sk) \<Longrightarrow> \<exists>r. file_write e event (sk, fs) = Some (r, sk, fs)"
  by (auto simp: file_write_def rotate_if_needed_def tellp_def stream_put_def Let_def)

lemma failed_stream_write_all:
  "\<not> stream_good (fk_stream sk) \<Longrightarrow> \<exists>rs. file_write_all e events (sk, fs) = Some (rs, sk, fs)"
proof (induction events)
  case (Cons event events)
  from failed_stream_write [OF Cons.prems, of e event fs] Cons show ?case by auto
qed simp

text \<open>The environment and the options of the examples.\<close>

definition demo_env :: "bool \<Rightarrow> bytes file_env" where
  "demo_env openable =
     \<lparr>fe_can_open = (\<lambda>p fs. openable), fe_can_rename = (\<lambda>p q fs. True), fe_can_remove = (\<lambda>p fs. True),
      fe_can_stat = (\<lambda>p fs. True), fe_can_read = (\<lambda>p fs. True), fe_append_tellp = (\<lambda>b w. int (b + w)),
      fe_sentry_throws = False, fe_failure = ''basic_ios::clear'', fe_zlib = Some stored_zlib\<rparr>"

definition demo_file_options :: file_sink_options where
  "demo_file_options = (default_file_sink_options ''log'')\<lparr>fo_max_file_size := 1, fo_max_files := 2\<rparr>"

definition demo_file_sink :: file_sink where
  "demo_file_sink = \<lparr>fk_base = plain_base, fk_options = demo_file_options,
     fk_stream = \<lparr>stream_good = True, stream_exceptions = True, stream_append = True, stream_base = 3, stream_written = 0\<rparr>\<rparr>"

lemma demo_env_ok [simp]: "operations_succeed (demo_env True)" "exact_tellp (demo_env b)"
  by (simp_all add: operations_succeed_def exact_tellp_def demo_env_def)

lemma demo_file_new:
  "new_file_sink (demo_env True) demo_file_options [''log'' \<mapsto> ''old''] = (Inr demo_file_sink, [''log'' \<mapsto> ''old''])"
  by (simp add: new_file_sink_def open_file_def fs_open_def demo_env_def demo_file_options_def
      default_file_sink_options_def demo_file_sink_def Let_def closed_stream_def)

lemma demo_file_facts:
  "\<not> fo_compress_rotated demo_file_options" "fo_max_files demo_file_options = 2"
  "fo_max_file_size demo_file_options = 1" "fo_path demo_file_options = ''log''"
  "fo_format demo_file_options = Json_Lines"
  "no_gap (demo_env b) demo_file_options [''log'' \<mapsto> ''old'']"
  by (simp_all add: demo_file_options_def default_file_sink_options_def no_gap_def get_rotated_path_def)

section \<open>Properties\<close>

text \<open>
  C20. Rotation keeps the log: when the operations of the file system succeed, every write returns
  normally, and the rotated files from the oldest to the newest, inflated when they are compressed,
  followed by the current file always hold the end of everything written, without gap, duplicate or
  reordering; nothing at all is missing as long as the last rotated file does not exist. Without
  compression it holds whatever \<^verbatim>\<open>tellp\<close> reports on an appended file; with it the files must stay below
  4 GiB (\<open>fits\<close>, for records shorter than \<open>l\<close>).
\<close>

theorem file_rotation_retains:
  assumes "operations_succeed e" "reads_rotated e options dec" "no_gap e options fs0"
    "new_file_sink e options fs0 = (Inr sk, fs)" "fits e options l (sk, fs)"
    "compresses e options \<longrightarrow> (\<forall>event \<in> set events. length (written_text options event) < l)"
  shows "\<exists>sk' fs'. file_write_all e events (sk, fs) = Some (map (\<lambda>event. Inr ()) events, sk', fs') \<and>
    (let before = history e options (decoded e options dec fs);
         after = history e options (decoded e options dec fs');
         written = concat (map (written_text options) events)
     in suffix after (before @ written) \<and>
       (0 < fo_max_files options \<longrightarrow>
          fs' (get_rotated_path e options (unat (fo_max_files options))) = None \<longrightarrow>
          after = before @ written))"
proof -
  note new = new_file_sink_healthy [OF assms(1,4)]
  have "no_gap e options fs" using assms(3) new by (simp add: no_gap_def)
  from file_write_all_history [OF assms(1,2) conjunct1 [OF new] this assms(5,6)] obtain sk' fs' lost where run:
    "file_write_all e events (sk, fs) = Some (map (\<lambda>event. Inr ()) events, sk', fs')"
    "history e options (decoded e options dec fs) @ concat (map (written_text options) events) =
       lost @ history e options (decoded e options dec fs')"
    "0 < fo_max_files options \<longrightarrow> lost \<noteq> [] \<longrightarrow> fs' (get_rotated_path e options (unat (fo_max_files options))) \<noteq> None"
    by blast
  show ?thesis
    using run by (intro exI [of _ sk'] exI [of _ fs']) (auto simp: suffix_def Let_def)
qed

text \<open>Compressed rotation with the stored-only zlib.\<close>

definition zip_options :: file_sink_options where
  "zip_options = demo_file_options\<lparr>fo_compress_rotated := True\<rparr>"

definition zip_sink :: file_sink where
  "zip_sink = demo_file_sink\<lparr>fk_options := zip_options\<rparr>"

lemma zip_facts:
  "reads_rotated (demo_env True) zip_options (\<lambda>c. c)" "no_gap (demo_env True) zip_options [''log'' \<mapsto> ''old'']"
  "new_file_sink (demo_env True) zip_options [''log'' \<mapsto> ''old''] = (Inr zip_sink, [''log'' \<mapsto> ''old''])"
  "fits (demo_env True) zip_options 500 (zip_sink, [''log'' \<mapsto> ''old''])"
proof -
  have on: "compresses (demo_env True) zip_options" by (simp add: compresses_def demo_env_def zip_options_def)
  have "\<exists>inflate. deflate_contract stored_zlib inflate \<and> (\<lambda>c. c) = (\<lambda>c. the (inflate c))"
    by (intro exI [of _ Some]) (simp add: stored_contract)
  then show "reads_rotated (demo_env True) zip_options (\<lambda>c. c)"
    using on by (simp add: reads_rotated_def) (simp add: demo_env_def)
  show "fits (demo_env True) zip_options 500 (zip_sink, [''log'' \<mapsto> ''old''])"
    by (simp add: fits_def zip_sink_def demo_file_sink_def tellp_def demo_env_def content_def zip_options_def
        demo_file_facts exact_tellp_def)
qed (simp_all add: no_gap_def get_rotated_path_def zip_options_def demo_file_options_def default_file_sink_options_def
    new_file_sink_def open_file_def fs_open_def demo_env_def zip_sink_def demo_file_sink_def Let_def closed_stream_def)

theorem file_rotation_retains_witness:
  "\<exists>sk' fs'. file_write_all (demo_env True) [demo_event, demo_event] (zip_sink, [''log'' \<mapsto> ''old'']) =
       Some ([Inr (), Inr ()], sk', fs') \<and>
     suffix (history (demo_env True) zip_options fs')
       (''old'' @ to_json_lines_record demo_event @ to_json_lines_record demo_event)"
proof -
  have short: "length (to_json_lines_record demo_event) < 500"
    by code_simp
  have records: "written_text zip_options event = to_json_lines_record event" for event
    by (simp add: sink_text_def plain_base_def zip_options_def demo_file_facts)
  have "history (demo_env True) zip_options [''log'' \<mapsto> ''old''] = ''old''"
    by (simp add: history_def content_def demo_file_facts zip_options_def upt_rec get_rotated_path_def)
  with file_rotation_retains [OF demo_env_ok(1) zip_facts, of "[demo_event, demo_event]"] short
  show ?thesis by (auto simp: records Let_def)
qed

text \<open>
  C38. Size bound: when the operations of the file system succeed and \<^verbatim>\<open>tellp\<close> is exact, with a size limit and
  records of at most \<open>l\<close> bytes, neither the current file nor any rotated one, inflated when it is
  compressed, ever holds the limit plus \<open>l\<close> bytes, if none did at the start. What zlib makes of a text is
  not bounded here; without compression the bound is that of the files as they are.
\<close>

theorem file_sizes_bounded:
  assumes "operations_succeed e" "reads_rotated e options dec" "exact_tellp e" "fo_max_file_size options \<noteq> 0"
    "new_file_sink e options fs0 = (Inr sk, fs)" "fits e options (Suc l) (sk, fs)"
    "\<forall>p \<in> family e options. length (content (decoded e options dec fs0) p) < unat (fo_max_file_size options) + l"
    "\<forall>event \<in> set events. length (written_text options event) \<le> l"
    "file_write_all e events (sk, fs) = Some (rs, sk', fs')" "p \<in> family e options"
  shows "length (content (decoded e options dec fs') p) < unat (fo_max_file_size options) + l"
proof -
  let ?D = "decoded e options dec" and ?p = "fo_path options"
  note new = new_file_sink_healthy [OF assms(1,5)]
  have path: "fs ?p = Some (if fo_append options then content fs0 ?p else [])"
    "tellp e (fk_stream sk) = int (length (content fs ?p))"
    using assms(1,3,5)
    by (auto simp: new_file_sink_def open_file_def fs_open_def operations_succeed_def tellp_def content_def
        exact_tellp_def Let_def split: option.splits)
  have "length (content (?D fs) q) < unat (fo_max_file_size options) + l" if "q \<in> family e options" for q
  proof (cases "q = ?p")
    case True
    with path(1) assms(7) that show ?thesis by (auto simp: content_def split: if_splits)
  next
    case False
    with new have "?D fs q = ?D fs0 q" by (simp add: decoded_def)
    with that assms(7) show ?thesis by (simp add: content_def)
  qed
  then have "sizes_below e options (unat (fo_max_file_size options) + l) (sk, ?D fs)"
    using path(2) by (simp add: sizes_below_def content_def)
  from file_write_all_sizes [OF assms(1-4) conjunct1 [OF new] assms(6,8) this assms(9)] assms(10)
  show ?thesis by (simp add: sizes_below_def)
qed

theorem file_sizes_bounded_witness:
  "\<exists>sk' fs'. file_write_all (demo_env True) [demo_event, demo_event] (zip_sink, [''log'' \<mapsto> ''old'']) =
       Some ([Inr (), Inr ()], sk', fs') \<and>
     length (content (decoded (demo_env True) zip_options (\<lambda>c. c) fs') (get_rotated_path (demo_env True) zip_options 1)) < 500"
proof -
  have short: "length (to_json_lines_record demo_event) < 499"
    by code_simp
  have records: "written_text zip_options event = to_json_lines_record event" for event
    by (simp add: sink_text_def plain_base_def zip_options_def demo_file_facts)
  have ok: "healthy plain_base zip_options (zip_sink, [''log'' \<mapsto> ''old''])"
    by (simp add: healthy_def zip_sink_def demo_file_sink_def zip_options_def demo_file_options_def default_file_sink_options_def)
  obtain sk' fs' where run: "file_write_all (demo_env True) [demo_event, demo_event] (zip_sink, [''log'' \<mapsto> ''old'']) =
      Some ([Inr (), Inr ()], sk', fs')"
    using file_write_all_history [OF demo_env_ok(1) zip_facts(1) ok zip_facts(2,4), of "[demo_event, demo_event]"] short records
    by auto
  have size: "unat (fo_max_file_size zip_options) = 1" "fo_max_file_size zip_options \<noteq> 0"
    by (simp_all add: zip_options_def demo_file_facts)
  have "fo_max_files zip_options = 2" by (simp add: zip_options_def demo_file_facts)
  then have rotated: "get_rotated_path (demo_env True) zip_options 1 \<in> family (demo_env True) zip_options"
    by (auto simp: family_def)
  have "fits (demo_env True) zip_options (Suc 499) (zip_sink, [''log'' \<mapsto> ''old''])" using zip_facts(4) by simp
  from file_sizes_bounded [OF demo_env_ok(1) zip_facts(1) demo_env_ok(2) size(2) zip_facts(3) this _ _ run rotated]
  have "length (content (decoded (demo_env True) zip_options (\<lambda>c. c) fs') (get_rotated_path (demo_env True) zip_options 1)) < 500"
    using short by (simp add: size(1) records) (simp add: content_def)
  with run show ?thesis by blast
qed

text \<open>
  C39. A failed rotation is final: when reopening the file fails during a rotation, the write throws, and
  from then on every write leaves the file system and the sink as they are, even if the file could be
  opened again.
\<close>

theorem failed_rotation_is_final:
  assumes "rotate_if_needed e st = Some (Inl x, sk, fs)"
  shows "\<exists>rs. file_write_all later events (sk, fs) = Some (rs, sk, fs)"
proof -
  have "\<not> stream_good (fk_stream sk)"
    using assms by (auto simp: rotate_if_needed_def open_file_def Let_def split: prod.splits if_splits option.splits)
  then show ?thesis by (rule failed_stream_write_all)
qed

theorem failed_rotation_is_final_witness:
  "\<exists>x sk fs rs. rotate_if_needed (demo_env False) (demo_file_sink, [''log'' \<mapsto> ''old'']) = Some (Inl x, sk, fs) \<and>
     file_write_all (demo_env True) [demo_event] (sk, fs) = Some (rs, sk, fs)"
proof -
  obtain fs1 where "rotate_loop (demo_env False) demo_file_options 2 [''log'' \<mapsto> ''old''] = Some fs1"
    by (simp add: numeral_2_eq_2 fs_rename_def fs_remove_def rotate_current_def demo_env_def demo_file_options_def
        default_file_sink_options_def get_rotated_path_def Let_def)
  then obtain x sk fs where "rotate_if_needed (demo_env False) (demo_file_sink, [''log'' \<mapsto> ''old'']) = Some (Inl x, sk, fs)"
    by (simp add: rotate_if_needed_def demo_file_sink_def demo_file_facts tellp_def open_file_def fs_open_def
        demo_env_def Let_def)
  with failed_rotation_is_final [OF this, of "demo_env True" "[demo_event]"] show ?thesis by blast
qed

end
