(* ===== verification/Stream_Sinks.thy ===== *)
theory Stream_Sinks
  imports File_Rotation Payloads Sync_Dispatcher
begin

text \<open>
  \<^verbatim>\<open>src/sinks/console_sink.cpp\<close> and \<^verbatim>\<open>src/sinks/elastic_bulk_file_sink.cpp\<close>, and both behind a
  synchronous dispatcher: from the log calls of a program to the text on its streams.
\<close>

section \<open>The console\<close>

record console_sink_options =
  co_format :: sink_format
  co_use_stderr_for_warnings :: bool

definition default_console_sink_options :: console_sink_options where
  "default_console_sink_options = \<lparr>co_format = Human, co_use_stderr_for_warnings = True\<rparr>"

record console_sink =
  ck_base :: sink_base
  ck_options :: console_sink_options

definition new_console_sink :: "console_sink_options \<Rightarrow> console_sink" where
  "new_console_sink options = \<lparr>ck_base = plain_base, ck_options = options\<rparr>"

text \<open>The process's two streams, as what was written to them.\<close>

record console_output =
  std_cout :: bytes
  std_cerr :: bytes

definition selects_cerr :: "console_sink_options \<Rightarrow> level \<Rightarrow> bool" where
  "selects_cerr options l \<longleftrightarrow> co_use_stderr_for_warnings options \<and> Warn \<le> l \<and> l \<noteq> Off"

definition console_text :: "console_sink \<Rightarrow> log_event \<Rightarrow> bytes" where
  "console_text sk event =
     (case sink_formatter (ck_base sk) of
        Some f \<Rightarrow> f event
      | None \<Rightarrow>
          if co_format (ck_options sk) = Json_Lines then to_json_lines_record event
          else format_human_readable event @ [newline])"

definition console_write :: "console_sink \<Rightarrow> log_event \<Rightarrow> console_output \<Rightarrow> console_output" where
  "console_write sk event out =
     (if \<not> should_log (ck_base sk) event then out
      else if selects_cerr (ck_options sk) (severity event)
      then out\<lparr>std_cerr := std_cerr out @ console_text sk event\<rparr>
      else out\<lparr>std_cout := std_cout out @ console_text sk event\<rparr>)"

definition console_flush :: "console_output \<Rightarrow> console_output" where
  "console_flush out = out"

text \<open>Both streams carry every event once, in order, each on the stream of its severity.\<close>

lemma console_writes:
  "fold (console_write sk) events out =
     out\<lparr>std_cout := std_cout out @ concat (map (console_text sk)
           (filter (\<lambda>e. should_log (ck_base sk) e \<and> \<not> selects_cerr (ck_options sk) (severity e)) events)),
         std_cerr := std_cerr out @ concat (map (console_text sk)
           (filter (\<lambda>e. should_log (ck_base sk) e \<and> selects_cerr (ck_options sk) (severity e)) events))\<rparr>"
  by (induction events arbitrary: out) (simp_all add: console_write_def)

section \<open>The Elasticsearch bulk file\<close>

record elastic_bulk_file_sink_options =
  eo_path :: bytes
  eo_index_name :: bytes
  eo_append :: bool

definition default_elastic_options :: "bytes \<Rightarrow> elastic_bulk_file_sink_options" where
  "default_elastic_options path = \<lparr>eo_path = path, eo_index_name = ''logspine'', eo_append = True\<rparr>"

record elastic_bulk_file_sink =
  ek_base :: sink_base
  ek_options :: elastic_bulk_file_sink_options
  ek_stream_good :: bool

definition new_elastic_bulk_file_sink ::
  "'z file_env \<Rightarrow> elastic_bulk_file_sink_options \<Rightarrow> files \<Rightarrow> (cpp_exception + elastic_bulk_file_sink) \<times> files"
where
  "new_elastic_bulk_file_sink e options fs =
     (case fs_open e (eo_append options) (eo_path options) fs of
        None \<Rightarrow> (Inl (Runtime_Error ''elastic_bulk_file_sink could not open output file''), fs)
      | Some fs' \<Rightarrow> (Inr \<lparr>ek_base = plain_base, ek_options = options, ek_stream_good = True\<rparr>, fs'))"

text \<open>The stream has no exceptions enabled: inserting into a bad one does nothing.\<close>

definition elastic_put :: "elastic_bulk_file_sink \<Rightarrow> bytes \<Rightarrow> files \<Rightarrow> files" where
  "elastic_put sk text fs =
     (if ek_stream_good sk then fs(eo_path (ek_options sk) \<mapsto> the (fs (eo_path (ek_options sk))) @ text) else fs)"

definition elastic_write :: "elastic_bulk_file_sink \<Rightarrow> log_event \<Rightarrow> files \<Rightarrow> files" where
  "elastic_write sk event fs =
     (if \<not> should_log (ek_base sk) event then fs
      else
        (let fs = elastic_put sk (make_action_line (eo_index_name (ek_options sk))) fs
         in elastic_put sk
              (case sink_formatter (ek_base sk) of
                 Some f \<Rightarrow> f event
               | None \<Rightarrow> to_json_lines_record event) fs))"

definition elastic_flush :: "files \<Rightarrow> files" where
  "elastic_flush fs = fs"

definition bulk_entry :: "elastic_bulk_file_sink_options \<Rightarrow> log_event \<Rightarrow> bytes" where
  "bulk_entry options event = make_action_line (eo_index_name options) @ to_json_lines_record event"

lemma elastic_writes:
  assumes "ek_base sk = plain_base" "ek_stream_good sk" "fs (eo_path (ek_options sk)) = Some t"
  shows "fold (elastic_write sk) events fs =
    fs(eo_path (ek_options sk) \<mapsto> t @ concat (map (bulk_entry (ek_options sk)) events))"
  using assms(3)
proof (induction events arbitrary: fs t)
  case (Cons event events)
  let ?p = "eo_path (ek_options sk)"
  have step: "elastic_write sk event fs = fs(?p \<mapsto> t @ bulk_entry (ek_options sk) event)"
    using Cons.prems assms(1,2)
    by (simp add: elastic_write_def elastic_put_def bulk_entry_def plain_base_def should_log_def)
  from Cons.IH [of "fs(?p \<mapsto> t @ bulk_entry (ek_options sk) event)" "t @ bulk_entry (ek_options sk) event"]
  have "fold (elastic_write sk) events (fs(?p \<mapsto> t @ bulk_entry (ek_options sk) event)) =
      fs(?p \<mapsto> (t @ bulk_entry (ek_options sk) event) @ concat (map (bulk_entry (ek_options sk)) events))"
    by (simp only: fun_upd_same fun_upd_upd)
  then show ?case by (simp only: fold_simps step list.map concat.simps append_assoc)
qed (simp add: fun_upd_idem)

lemma new_elastic_sink:
  assumes "new_elastic_bulk_file_sink e options fs0 = (Inr sk, fs)"
  shows "ek_base sk = plain_base \<and> ek_stream_good sk \<and> ek_options sk = options \<and>
    fs (eo_path options) = Some (if eo_append options then content fs0 (eo_path options) else [])"
  using assms by (auto simp: new_elastic_bulk_file_sink_def fs_open_def content_def split: if_splits option.splits)

text \<open>Each entry is two lines, each a JSON document.\<close>

lemma bulk_lines:
  "complete_lines [] (concat (map (bulk_entry options) events)) =
     concat (map (\<lambda>event. [json_text (action_json (eo_index_name options)), to_json_event event]) events)"
proof -
  let ?lines = "concat (map (\<lambda>event. [json_text (action_json (eo_index_name options)), to_json_event event]) events)"
  have "concat (map (bulk_entry options) events) = concat (map (\<lambda>l. l @ [newline]) ?lines)"
    by (induction events) (simp_all add: bulk_entry_def make_action_line_text to_json_lines_record_def)
  moreover have "\<forall>l \<in> set ?lines. newline \<notin> set l"
    by (auto simp: to_json_event_text newline_not_in_json_text)
  ultimately show ?thesis by (metis complete_lines_concat)
qed

section \<open>Both behind a dispatcher\<close>

datatype stream_sink = Console_Sink console_sink | Bulk_Sink elastic_bulk_file_sink

definition stream_sinks :: "(stream_sink, console_output \<times> files) sinks_impl" where
  "stream_sinks =
     \<lparr>sink_write = (\<lambda>s event (out, fs). (False,
        case s of Console_Sink c \<Rightarrow> (console_write c event out, fs) | Bulk_Sink b \<Rightarrow> (out, elastic_write b event fs))),
      sink_flush = (\<lambda>s (out, fs). (False,
        case s of Console_Sink c \<Rightarrow> (console_flush out, fs) | Bulk_Sink b \<Rightarrow> (out, elastic_flush fs)))\<rparr>"

text \<open>A dispatcher over a console sink and a bulk sink gives each event to both.\<close>

lemma dispatch_both:
  "sync_dispatch stream_sinks event (\<lparr>sd_sinks = [Console_Sink c, Bulk_Sink b], sd_failures = f\<rparr>, out, fs) =
     (\<lparr>sd_sinks = [Console_Sink c, Bulk_Sink b], sd_failures = f\<rparr>, console_write c event out, elastic_write b event fs)"
  by (simp add: sync_dispatch_def stream_sinks_def)

lemma log_calls_both:
  "run_log_calls (sync_dispatch stream_sinks) calls
     (\<lparr>sd_sinks = [Console_Sink c, Bulk_Sink b], sd_failures = f\<rparr>, out, fs) =
   (let events = map call_event (filter call_enabled calls)
    in (\<lparr>sd_sinks = [Console_Sink c, Bulk_Sink b], sd_failures = f\<rparr>, fold (console_write c) events out,
        fold (elastic_write b) events fs))"
proof (induction calls arbitrary: out fs)
  case (Cons call calls)
  then show ?case
    by (simp add: run_log_calls_def logger_log_fields_def logger_dispatch_def call_enabled_def call_event_def
        dispatch_both Let_def)
qed (simp add: run_log_calls_def)

section \<open>Properties\<close>

text \<open>
  C23. From log calls to a bulk file: after any sequence of log calls through a synchronous dispatcher with
  a console sink and a bulk sink on a new file, the lines of the file are, for each enabled call in
  order, the action with the index name and the JSON record of the call's event, and nothing else; the
  action parses to the index operation. The console carries the same events, warnings and above on
  \<^verbatim>\<open>stderr\<close> when asked for.
\<close>

theorem calls_to_streams:
  assumes "new_elastic_bulk_file_sink e options fs0 = (Inr b, fs)" "content fs (eo_path options) = []"
  shows "\<exists>sd out fs'.
    run_log_calls (sync_dispatch stream_sinks) calls
      (new_sync_dispatcher [Console_Sink (new_console_sink copts), Bulk_Sink b], \<lparr>std_cout = [], std_cerr = []\<rparr>, fs) =
      (sd, out, fs') \<and>
    (let events = map call_event (filter call_enabled calls);
         index = json_text (action_json (eo_index_name options))
     in complete_lines [] (content fs' (eo_path options)) = concat (map (\<lambda>event. [index, to_json_event event]) events) \<and>
        parse_json index = Some (action_json (eo_index_name options)) \<and>
        std_cout out = concat (map (console_text (new_console_sink copts))
          (filter (\<lambda>event. \<not> selects_cerr copts (severity event)) events)) \<and>
        std_cerr out = concat (map (console_text (new_console_sink copts))
          (filter (\<lambda>event. selects_cerr copts (severity event)) events)))"
proof -
  let ?c = "new_console_sink copts" and ?events = "map call_event (filter call_enabled calls)"
  note new = new_elastic_sink [OF assms(1)]
  have "fs (eo_path (ek_options b)) = Some []"
    using new assms(2) by (auto simp: content_def split: option.splits)
  from elastic_writes [of b fs "[]" ?events, OF _ _ this] new
  have bulk: "content (fold (elastic_write b) ?events fs) (eo_path options) = concat (map (bulk_entry options) ?events)"
    by (simp add: content_def)
  have base: "ck_base ?c = plain_base" "ck_options ?c = copts" by (simp_all add: new_console_sink_def)
  have "parse_json (json_text (action_json (eo_index_name options))) = Some (action_json (eo_index_name options))"
    by (rule parse_json_text) simp
  moreover have "complete_lines [] (content (fold (elastic_write b) ?events fs) (eo_path options)) =
      concat (map (\<lambda>event. [json_text (action_json (eo_index_name options)), to_json_event event]) ?events)"
    unfolding bulk by (rule bulk_lines)
  moreover have "std_cout (fold (console_write ?c) ?events \<lparr>std_cout = [], std_cerr = []\<rparr>) =
      concat (map (console_text ?c) (filter (\<lambda>event. \<not> selects_cerr copts (severity event)) ?events))"
    "std_cerr (fold (console_write ?c) ?events \<lparr>std_cout = [], std_cerr = []\<rparr>) =
      concat (map (console_text ?c) (filter (\<lambda>event. selects_cerr copts (severity event)) ?events))"
    by (simp_all only: console_writes base plain_logs simp_thms) simp_all
  ultimately show ?thesis
    unfolding new_sync_dispatcher_def log_calls_both Let_def by blast
qed

definition demo_call :: log_call where
  "demo_call =
     \<lparr>lc_logger = \<lparr>lg_name = ''app'', lg_minimum_level = Info\<rparr>,
      lc_caller = \<lparr>call_mdc = [], call_thread = 1, call_now = 0\<rparr>,
      lc_severity = Error, lc_message = ''failed'', lc_fields = [],
      lc_location = \<lparr>file_name = ''main.cpp'', line = 1, function_name = ''main''\<rparr>\<rparr>"

theorem calls_to_streams_witness:
  "\<exists>sd out fs'. run_log_calls (sync_dispatch stream_sinks) [demo_call, demo_call\<lparr>lc_severity := Debug\<rparr>]
      (new_sync_dispatcher [Console_Sink (new_console_sink default_console_sink_options),
        Bulk_Sink \<lparr>ek_base = plain_base, ek_options = default_elastic_options ''bulk'', ek_stream_good = True\<rparr>],
       \<lparr>std_cout = [], std_cerr = []\<rparr>, [''bulk'' \<mapsto> []]) = (sd, out, fs') \<and>
     length (complete_lines [] (content fs' ''bulk'')) = 2 \<and> std_cout out = []"
proof -
  let ?o = "default_elastic_options ''bulk''"
  have new: "new_elastic_bulk_file_sink (demo_env True) ?o (\<lambda>p. None) =
      (Inr \<lparr>ek_base = plain_base, ek_options = ?o, ek_stream_good = True\<rparr>, [''bulk'' \<mapsto> []])"
    by (simp add: new_elastic_bulk_file_sink_def fs_open_def demo_env_def default_elastic_options_def)
  have empty: "content [''bulk'' \<mapsto> []] (eo_path ?o) = []" "eo_path ?o = ''bulk''"
    by (simp_all add: content_def default_elastic_options_def)
  have enabled: "call_enabled demo_call" "\<not> call_enabled (demo_call\<lparr>lc_severity := Debug\<rparr>)"
    by (simp_all add: call_enabled_def demo_call_def logger_enabled_def is_enabled_for_def word_le_nat_alt)
  have err: "selects_cerr default_console_sink_options (severity (call_event demo_call))"
    by (simp add: selects_cerr_def default_console_sink_options_def call_event_def build_event_def demo_call_def
        less_eq_level_def word_le_nat_alt Let_def)
  from calls_to_streams [OF new empty(1), of "[demo_call, demo_call\<lparr>lc_severity := Debug\<rparr>]" default_console_sink_options]
  obtain sd out fs' where run: "run_log_calls (sync_dispatch stream_sinks) [demo_call, demo_call\<lparr>lc_severity := Debug\<rparr>]
      (new_sync_dispatcher [Console_Sink (new_console_sink default_console_sink_options),
        Bulk_Sink \<lparr>ek_base = plain_base, ek_options = ?o, ek_stream_good = True\<rparr>],
       \<lparr>std_cout = [], std_cerr = []\<rparr>, [''bulk'' \<mapsto> []]) = (sd, out, fs')"
    "length (complete_lines [] (content fs' ''bulk'')) = 2" "std_cout out = []"
    by (auto simp: enabled err empty(2) Let_def)
  then show ?thesis by blast
qed

end
