(* ===== verification/Spec2Isabelle.thy ===== *)
theory Spec2Isabelle
  imports Json Mdc Logger Registry Mpsc_Queue Ticket_Queue Mpsc_Orders Sync_Dispatcher Async_Properties
    Async_Queue Tcp_Writers Gelf_Writers File_Rotation Stream_Sinks
begin

text \<open>
  LogSpine is a C++ logging library. A \<^verbatim>\<open>logger\<close> filters by level, builds an event from the message,
  the fields of the call and the thread's diagnostic context, and hands it to a dispatcher. A
  dispatcher calls a list of sinks: at once (\<^verbatim>\<open>sync_dispatcher\<close>) or from a worker thread fed by a
  bounded lock-free queue (\<^verbatim>\<open>async_dispatcher\<close>). A sink formats the event and writes it somewhere. The
  development models these parts as they are written and states what makes them correct; each theory
  opens with a text that says what it holds.

  \<^bold>\<open>Conventions.\<close> A \<^verbatim>\<open>std::string\<close> is a list of \<open>char\<close>, which is exactly a byte; machine integers are
  words of their width; a \<^verbatim>\<open>double\<close> is its 64 bits; a time point counts nanoseconds since the epoch.
  A call that throws returns \<open>Inl\<close> with the exception. A loop that may not end is a
  \<open>partial_function\<close> whose value None is not returning. Threads are program counters in a state
  shared by an inductive step relation, one step per access to shared memory, sequentially
  consistent except in \<open>Mpsc_Orders\<close>, which takes the queue's memory orders as the code names them.

  \<^bold>\<open>Values and text.\<close> \<open>Prelude\<close> holds the types, decimal printing and line framing. \<open>Level\<close> is
  \<^verbatim>\<open>level.hpp\<close> and \<^verbatim>\<open>level.cpp\<close>; \<open>Event\<close> is \<^verbatim>\<open>field.hpp\<close>, \<^verbatim>\<open>field.cpp\<close> and \<^verbatim>\<open>log_event.hpp\<close>; \<open>Cpp_Double\<close> is
  the printing of doubles the code relies on, on exact integers; \<open>Timestamp\<close> and \<open>Json\<close> are
  \<^verbatim>\<open>json.cpp\<close>. \<open>Json_Spec\<close> is the specification side: JSON trees, their text, a reference reader and
  the round trip. The serializers are shown to write the text of a tree (\<open>to_json_event_text\<close>), so
  they parse back to the event's data; records are single lines (\<open>json_lines_framing\<close>).
  \<open>Payloads\<close> does the same for \<^verbatim>\<open>network_payloads.cpp\<close>, the OTLP document and the Elasticsearch action
  line, says when the members of the documents have distinct names, and holds a reference reader of
  HTTP requests that never takes a torn request for a whole one.

  \<^bold>\<open>Front end.\<close> \<open>Mdc\<close> is \<^verbatim>\<open>mdc.cpp\<close>, one thread's list of fields, refined to a map, with the nesting
  of \<^verbatim>\<open>scoped_mdc\<close>. \<open>Logger\<close> is \<^verbatim>\<open>logger.cpp\<close> with the macros of \<^verbatim>\<open>logspine.hpp\<close>: gating and the
  fields of an event. \<open>Registry\<close> is \<^verbatim>\<open>registry.cpp\<close>, sequentially and as interleaved steps.

  \<^bold>\<open>Queue.\<close> \<open>Mpsc_Queue\<close> is \<^verbatim>\<open>detail/mpsc_queue.hpp\<close> used by one thread at a time, at 64 bits with
  wrap-around, refined to a bounded list wherever the signed subtraction of two sequence numbers is
  defined: the counters may wrap to 0, but at position \<open>2 ^ 63 - 1\<close> the code's behaviour is undefined
  (\<open>counter_boundary_undefined\<close>). \<open>Mpsc_Concurrent\<close> is the same code as steps of any number
  of threads; \<open>Ticket_Queue\<close> is the queue the dispatcher sees, in which an element is claimed before
  it is readable, and the refinement between the two. The concurrent theorems hold for fewer than
  \<open>2 ^ 62\<close> tickets per run and capacities up to \<open>2 ^ 61\<close>: below those bounds no sequence number
  wraps into another's. \<open>Mpsc_Orders\<close> gives each thread a view of the memory: relaxed and acquire loads
  may return stale entries. Its steps stay free of data races and refine the ticket queue, except that
  a thread that has not seen the newest number of a cell may find the queue full or empty when it is not.

  \<^bold>\<open>Dispatchers.\<close> \<open>Sink\<close> is the interface \<^verbatim>\<open>sink.hpp\<close> and the loops that call every sink;
  \<open>Sync_Dispatcher\<close> is \<^verbatim>\<open>sync_dispatcher.cpp\<close>. \<open>Async_Dispatcher\<close> is \<^verbatim>\<open>async_dispatcher.cpp\<close> as steps of
  the worker and of any number of callers: \<open>worker_step\<close> is \<^verbatim>\<open>worker_loop\<close>, \<open>event_step\<close> is
  \<^verbatim>\<open>enqueue_event\<close>, \<open>flush_step\<close> is \<^verbatim>\<open>enqueue_flush_request\<close> and the wait of \<^verbatim>\<open>flush\<close>, \<open>shutdown_step\<close> is
  \<^verbatim>\<open>shutdown\<close>. The state carries ghost histories (what was claimed, taken, displaced, written).
  \<open>Async_Ledger\<close> accounts for every event, \<open>Async_Shutdown\<close> shows that the worker drains and ends,
  \<open>Async_Flush\<close> follows flush requests, for fewer than \<open>2 ^ 64\<close> of them, \<open>Async_Runs\<close> executes
  schedules, \<open>Async_Callers\<close> follows the calls of \<^verbatim>\<open>dispatch\<close>, what became of their events and in how many
  steps they return, and \<open>Async_Properties\<close> states the results; what the sinks were called with is read
  off sinks that record their calls. \<open>Async_Queue\<close> shows that the queue inside this
  model is the ticket queue, step for step and with nothing left out, so that with \<open>concurrent_refines\<close>
  its results hold over the ring of \<^verbatim>\<open>mpsc_queue.hpp\<close>. A run is orderly when the destructor overlaps
  no other call, which C++ demands of its user.

  \<^bold>\<open>Network.\<close> \<open>Net_Socket\<close> is the POSIX branch of \<^verbatim>\<open>net/socket.cpp\<close> over a kernel that is a parameter;
  every kernel call is logged. \<open>Net_Clients\<close> states what is assumed of a kernel (\<open>posix_kernel\<close>,
  \<open>interrupts_end\<close>) and what the clients own and deliver. \<open>Net_Retry\<close> is the contract of a write loop
  as a locale, which \<open>Net_Streams\<close> extends for TCP with the bytes each connection carries;
  \<open>Tcp_Json_Sink\<close>, \<open>Otlp_Http_Sink\<close> and \<open>Gelf_Udp_Sink\<close> are the three sinks, one caller at a time, and
  interpret it on their own loops. \<open>Net_Writers\<close> is a write as steps of any number of threads, which hold
  the sink's mutex except while they sleep between two tries: \<open>writer_step\<close>, and the locales of what every
  interleaving delivers and counts (a history names each step: begun, retried, threw, wrote), and of what a
  lone thread does. \<open>Tcp_Writers\<close> interprets them on the
  two TCP sinks, \<open>Gelf_Writers\<close> on the GELF sink, where datagrams of different writes mix and the message
  ids keep them apart as long as the clock lets the ids differ (\<open>clocks_apart\<close>), and where a sink may
  compress. \<open>Net_Demo\<close> is a kernel that meets the assumptions. \<open>Zlib_Helper\<close> is
  \<^verbatim>\<open>zlib_helper.cpp\<close> with zlib as a parameter, of which \<open>deflate_contract\<close> states what is documented for the
  two window sizes the code uses.

  \<^bold>\<open>Files and console.\<close> \<open>File_Sink\<close> is \<^verbatim>\<open>sinks/file_sink.cpp\<close> over a file system that maps paths to contents
  and whose operations may fail. \<open>File_Rotation\<close> shows that rotation shifts the files
  (\<open>rotate_loop_shifts\<close>) and that what the family of files holds, inflated when it is compressed, is always
  the end of what was written. \<open>Stream_Sinks\<close> is \<^verbatim>\<open>console_sink.cpp\<close> and
  \<^verbatim>\<open>elastic_bulk_file_sink.cpp\<close>, and follows log calls through a synchronous dispatcher to the lines of both.

  \<^bold>\<open>Not modelled.\<close> Windows sockets; memory allocation failure; in the queue, loads that return a value
  stored only later (cycles of program order and reads-from); the memory orders of the dispatcher's own
  flags and counters, whose steps are sequentially consistent, so that a dequeue there never overlooks a
  published element, as the code's may until its thread has seen the number (\<open>orders_refine\<close>); other
  GELF sinks that draw on the same counter of message ids; the buffers of file streams and errors of
  writing to an open file (a full disk); the abstract interfaces, which hold no code; tests, benchmarks
  and examples, which only call the library.
\<close>

end
